(* ===== verification/Net_Prelude.thy ===== *)
theory Net_Prelude
  imports Main "HOL-Library.Word" "HOL-Library.Sublist"
begin

text \<open>
  Shared vocabulary of the development: machine types, the faults a C++ step can end in,
  the sequencing of fallible steps, C++ strings as character lists and the searches of
  \<open>std::string\<close> that the sources use, and the generic lemmas the component theories share.

  A \<open>std::string\<close> is a \<^typ>\<open>string\<close> (a list of 8-bit characters); a raw network buffer is a
  list of 8-bit words. \<open>bytes_of\<close> and \<open>string_of\<close> convert between the two, as the
  \<open>reinterpret_cast\<close> and \<open>memcpy\<close> calls of the sources do.
\<close>

named_theorems fault_simps "equations of the sequencing operator"
named_theorems fault_iffs "when a sequence of steps returns, and when it faults"
named_theorems str_simps "equations of the string searches"

type_synonym byte = "8 word"
type_synonym bytes = "8 word list"
type_synonym u16 = "16 word"
type_synonym u32 = "32 word"
type_synonym u64 = "64 word"

subsection \<open>Faults\<close>

text \<open>
  What can stop a step: an exception of the standard library or of a third-party library
  (with the message it carries), or undefined behaviour, which the model names instead of
  continuing with an arbitrary value.
\<close>

datatype fault =
    Out_of_range              \<comment> \<open>\<open>std::out_of_range\<close>\<close>
  | Runtime_error string      \<comment> \<open>\<open>std::runtime_error\<close>\<close>
  | Invalid_argument string   \<comment> \<open>\<open>std::invalid_argument\<close>\<close>
  | Bad_array_new_length      \<comment> \<open>\<open>std::bad_array_new_length\<close>\<close>
  | Json_error                \<comment> \<open>\<open>Json::LogicError\<close>\<close>
  | System_error              \<comment> \<open>\<open>boost::system::system_error\<close> or \<open>std::system_error\<close>\<close>
  | Filesystem_error          \<comment> \<open>\<open>std::filesystem::filesystem_error\<close>\<close>
  | Null_deref                \<comment> \<open>undefined: a null pointer is dereferenced\<close>
  | Buffer_overflow           \<comment> \<open>undefined: a write past the end of an array\<close>
  | Over_read                 \<comment> \<open>undefined: a read past the end of an array\<close>
  | Uninit_read               \<comment> \<open>undefined: an indeterminate value is read\<close>
  | Div_by_zero               \<comment> \<open>undefined: \<open>% 0\<close>\<close>
  | Empty_pop                 \<comment> \<open>undefined: \<open>front\<close> or \<open>pop\<close> of an empty queue\<close>
  | Reentrant_erase           \<comment> \<open>undefined: a container is changed while it is being cleared\<close>
  | Use_after_free            \<comment> \<open>undefined: a destroyed object is read\<close>

fun is_exception :: "fault \<Rightarrow> bool" where
  "is_exception Out_of_range = True"
| "is_exception (Runtime_error _) = True"
| "is_exception (Invalid_argument _) = True"
| "is_exception Bad_array_new_length = True"
| "is_exception Json_error = True"
| "is_exception System_error = True"
| "is_exception Filesystem_error = True"
| "is_exception _ = False"

text \<open>Sequencing: the first fault ends the step.\<close>

fun and_then :: "'e + 'a \<Rightarrow> ('a \<Rightarrow> 'e + 'b) \<Rightarrow> 'e + 'b" where
  "and_then (Inl e) f = Inl e"
| "and_then (Inr a) f = f a"

declare and_then.simps [fault_simps]

lemma and_then_Inr_iff [fault_iffs]:
  "and_then m f = Inr b \<longleftrightarrow> (\<exists>a. m = Inr a \<and> f a = Inr b)"
  by (cases m) auto

lemma and_then_Inl_iff [fault_iffs]:
  "and_then m f = Inl e \<longleftrightarrow> m = Inl e \<or> (\<exists>a. m = Inr a \<and> f a = Inl e)"
  by (cases m) auto

lemma and_then_assoc: "and_then (and_then m f) g = and_then m (\<lambda>a. and_then (f a) g)"
  by (cases m) auto

lemma and_then_Inr_right [simp]: "and_then m Inr = m"
  by (cases m) auto

lemma and_then_cong [fundef_cong]:
  "m = n \<Longrightarrow> (\<And>a. n = Inr a \<Longrightarrow> f a = g a) \<Longrightarrow> and_then m f = and_then n g"
  by (cases n) auto

text \<open>A fold of fallible steps, left to right, stopping at the first fault.\<close>

fun fold_steps :: "('x \<Rightarrow> 's \<Rightarrow> 'e + 's) \<Rightarrow> 'x list \<Rightarrow> 's \<Rightarrow> 'e + 's" where
  "fold_steps f [] s = Inr s"
| "fold_steps f (x # xs) s = and_then (f x s) (fold_steps f xs)"

lemma fold_steps_append:
  "fold_steps f (xs @ ys) s = and_then (fold_steps f xs s) (fold_steps f ys)"
proof (induction xs arbitrary: s)
  case Nil
  then show ?case by simp
next
  case (Cons x xs)
  show ?case by (cases "f x s") (simp_all add: Cons.IH)
qed

lemma fold_steps_invariant:
  assumes "\<And>x s s'. I s \<Longrightarrow> f x s = Inr s' \<Longrightarrow> I s'" and "I s" and "fold_steps f xs s = Inr s'"
  shows "I s'"
  using assms(2,3)
proof (induction xs arbitrary: s)
  case Nil
  then show ?case by simp
next
  case (Cons x xs)
  then obtain t where "f x s = Inr t" "fold_steps f xs t = Inr s'"
    by (auto simp: fault_iffs)
  with Cons assms(1) show ?case by blast
qed

lemma in_set_tl: "x \<in> set (tl xs) \<Longrightarrow> x \<in> set xs"
  by (cases xs) simp_all

subsection \<open>Characters and bytes\<close>

definition byte_of_char :: "char \<Rightarrow> byte" where
  "byte_of_char c = of_nat (of_char c)"

definition char_of_byte :: "byte \<Rightarrow> char" where
  "char_of_byte b = char_of (unat b)"

definition bytes_of :: "string \<Rightarrow> bytes" where
  "bytes_of s = map byte_of_char s"

definition string_of :: "bytes \<Rightarrow> string" where
  "string_of bs = map char_of_byte bs"

lemma unat_byte_of_char [simp]: "unat (byte_of_char c) = of_char c"
  by (simp add: byte_of_char_def unat_of_nat)

lemma char_of_byte_of_char [simp]: "char_of_byte (byte_of_char c) = c"
  by (simp add: char_of_byte_def)

lemma byte_of_char_of_byte [simp]: "byte_of_char (char_of_byte b) = b"
proof -
  have "unat b < 256" using unsigned_less [of b, where 'a = nat] by simp
  then show ?thesis
    by (simp add: byte_of_char_def char_of_byte_def)
qed

lemma byte_of_char_inject [simp]: "byte_of_char c = byte_of_char d \<longleftrightarrow> c = d"
  by (metis char_of_byte_of_char)

lemma string_of_bytes_of [simp]: "string_of (bytes_of s) = s"
  by (simp add: string_of_def bytes_of_def o_def)

lemma bytes_of_string_of [simp]: "bytes_of (string_of bs) = bs"
  by (simp add: string_of_def bytes_of_def o_def)

lemma length_bytes_of [simp]: "length (bytes_of s) = length s"
  by (simp add: bytes_of_def)

lemma length_string_of [simp]: "length (string_of bs) = length bs"
  by (simp add: string_of_def)

lemma bytes_of_append [simp]: "bytes_of (s @ t) = bytes_of s @ bytes_of t"
  by (simp add: bytes_of_def)

lemma string_of_append [simp]: "string_of (s @ t) = string_of s @ string_of t"
  by (simp add: string_of_def)

lemma bytes_of_Nil [simp]: "bytes_of [] = []"
  by (simp add: bytes_of_def)

lemma string_of_Nil [simp]: "string_of [] = []"
  by (simp add: string_of_def)

lemma bytes_of_Cons [simp]: "bytes_of (c # s) = byte_of_char c # bytes_of s"
  by (simp add: bytes_of_def)

lemma string_of_Cons [simp]: "string_of (c # s) = char_of_byte c # string_of s"
  by (simp add: string_of_def)

text \<open>The string a null-terminated character array holds: what \<open>std::string(p)\<close> reads.
  It faults when the array holds no terminator.\<close>

definition c_string :: "bytes \<Rightarrow> fault + string" where
  "c_string bs = (if 0 \<in> set bs then Inr (string_of (takeWhile (\<lambda>b. b \<noteq> 0) bs)) else Inl Over_read)"

lemma takeWhile_terminated:
  "takeWhile (\<lambda>b. b \<noteq> (0::byte)) (bs @ [0]) = takeWhile (\<lambda>b. b \<noteq> 0) bs"
  by (induction bs) auto

lemma c_string_terminated:
  "c_string (bs @ [0]) = Inr (string_of (takeWhile (\<lambda>b. b \<noteq> 0) bs))"
proof -
  have "c_string (bs @ [0]) = Inr (string_of (takeWhile (\<lambda>b. b \<noteq> 0) (bs @ [0])))"
    unfolding c_string_def by (subst if_P) auto
  then show ?thesis by (simp only: takeWhile_terminated)
qed

subsection \<open>Searches in strings\<close>

text \<open>
  \<open>s.find(t, pos)\<close>: the least index at or after \<open>pos\<close> where \<open>t\<close> occurs; \<open>npos\<close> is \<open>None\<close>.
  The search runs over the suffix with the index carried along.
\<close>

fun find_at :: "string \<Rightarrow> string \<Rightarrow> nat \<Rightarrow> nat option" where
  "find_at t [] i = (if t = [] then Some i else None)"
| "find_at t (c # s) i = (if prefix t (c # s) then Some i else find_at t s (Suc i))"

definition str_find :: "string \<Rightarrow> string \<Rightarrow> nat \<Rightarrow> nat option" where
  "str_find s t pos = (if pos \<le> length s then find_at t (drop pos s) pos else None)"

text \<open>\<open>s.find_first_of(set, pos)\<close>: the least index at or after \<open>pos\<close> holding one of the characters.\<close>

fun find_char_at :: "(char \<Rightarrow> bool) \<Rightarrow> string \<Rightarrow> nat \<Rightarrow> nat option" where
  "find_char_at P [] i = None"
| "find_char_at P (c # s) i = (if P c then Some i else find_char_at P s (Suc i))"

definition str_find_first_of :: "string \<Rightarrow> string \<Rightarrow> nat \<Rightarrow> nat option" where
  "str_find_first_of s cs pos = find_char_at (\<lambda>c. c \<in> set cs) (drop pos s) pos"

text \<open>\<open>s.rfind(t)\<close>: the greatest index where \<open>t\<close> occurs.\<close>

fun rfind_from :: "string \<Rightarrow> string \<Rightarrow> nat \<Rightarrow> nat option" where
  "rfind_from s t 0 = (if prefix t s then Some 0 else None)"
| "rfind_from s t (Suc i) = (if prefix t (drop (Suc i) s) then Some (Suc i) else rfind_from s t i)"

definition str_rfind :: "string \<Rightarrow> string \<Rightarrow> nat option" where
  "str_rfind s t = rfind_from s t (length s)"

text \<open>\<open>s.substr(pos, n)\<close> (\<open>std::out_of_range\<close> when \<open>pos\<close> is past the end).\<close>

definition substr :: "string \<Rightarrow> nat \<Rightarrow> nat \<Rightarrow> fault + string" where
  "substr s pos n = (if pos \<le> length s then Inr (take n (drop pos s)) else Inl Out_of_range)"

text \<open>\<open>s.replace(pos, n, t)\<close> and \<open>s.insert(pos, t)\<close>, at a position inside the string.\<close>

definition str_replace :: "string \<Rightarrow> nat \<Rightarrow> nat \<Rightarrow> string \<Rightarrow> string" where
  "str_replace s pos n t = take pos s @ t @ drop (pos + n) s"

lemma find_at_Some:
  "find_at t s i = Some j \<longleftrightarrow>
     i \<le> j \<and> j \<le> i + length s \<and> prefix t (drop (j - i) s) \<and> (\<forall>k<j - i. \<not> prefix t (drop k s))"
proof (induction t s i rule: find_at.induct)
  case (1 t i)
  show ?case by auto
next
  case (2 t c s i)
  show ?case
  proof (cases "prefix t (c # s)")
    case True
    then show ?thesis by (auto dest: spec [of _ 0])
  next
    case False
    have shift: "(\<forall>k<Suc n. \<not> prefix t (drop k (c # s))) \<longleftrightarrow> (\<forall>k<n. \<not> prefix t (drop k s))" for n
      using False by (auto simp: less_Suc_eq_0_disj)
    show ?thesis
    proof (cases "i < j")
      case True
      then have "j - i = Suc (j - Suc i)" by simp
      with True False 2 show ?thesis by (auto simp: shift)
    next
      case False
      with \<open>\<not> prefix t (c # s)\<close> 2 show ?thesis by auto
    qed
  qed
qed

lemma find_at_None:
  "find_at t s i = None \<longleftrightarrow> (\<forall>k\<le>length s. \<not> prefix t (drop k s))"
proof (induction t s i rule: find_at.induct)
  case (1 t i)
  show ?case by auto
next
  case (2 t c s i)
  have "(\<forall>k\<le>Suc (length s). \<not> prefix t (drop k (c # s))) \<longleftrightarrow>
        \<not> prefix t (c # s) \<and> (\<forall>k\<le>length s. \<not> prefix t (drop k s))"
  proof
    assume h: "\<forall>k\<le>Suc (length s). \<not> prefix t (drop k (c # s))"
    have "\<not> prefix t (c # s)" using h [rule_format, of 0] by simp
    moreover have "\<not> prefix t (drop k s)" if "k \<le> length s" for k
      using h [rule_format, of "Suc k"] that by simp
    ultimately show "\<not> prefix t (c # s) \<and> (\<forall>k\<le>length s. \<not> prefix t (drop k s))" by blast
  next
    assume h: "\<not> prefix t (c # s) \<and> (\<forall>k\<le>length s. \<not> prefix t (drop k s))"
    show "\<forall>k\<le>Suc (length s). \<not> prefix t (drop k (c # s))"
    proof (intro allI impI)
      fix k assume "k \<le> Suc (length s)"
      with h show "\<not> prefix t (drop k (c # s))" by (cases k) auto
    qed
  qed
  with 2 show ?case by auto
qed

lemma str_find_SomeD:
  assumes "str_find s t pos = Some j"
  shows "pos \<le> j" "j + length t \<le> length s" "prefix t (drop j s)"
    "\<And>k. pos \<le> k \<Longrightarrow> k < j \<Longrightarrow> \<not> prefix t (drop k s)"
proof -
  have *: "pos \<le> j" "j \<le> length s" "prefix t (drop j s)"
    "\<forall>k<j - pos. \<not> prefix t (drop (pos + k) s)"
    using assms by (auto simp: str_find_def find_at_Some add.commute split: if_splits)
  from *(3) have "length t \<le> length (drop j s)" by (rule prefix_length_le)
  with * show "pos \<le> j" "j + length t \<le> length s" "prefix t (drop j s)" by auto
  show "\<not> prefix t (drop k s)" if "pos \<le> k" "k < j" for k
    using *(4) [rule_format, of "k - pos"] that by simp
qed

lemma str_find_NoneD:
  assumes "str_find s t pos = None" and "pos \<le> k"
  shows "\<not> (k \<le> length s \<and> prefix t (drop k s))"
  using assms by (auto simp: str_find_def find_at_None split: if_splits
      dest: spec [of _ "k - pos"])

lemma prefix_drop_split: "prefix t (drop j s) \<Longrightarrow> s = take j s @ t @ drop (j + length t) s"
  by (metis append_take_drop_id drop_drop prefix_def add.commute append_eq_conv_conj)

end
