(* ===== verification/Wire.thy ===== *)
theory Wire
  imports Net_Prelude
begin

unbundle bit_operations_syntax

text \<open>
  What both servers' message nodes are made of: character arrays whose bytes may still be
  indeterminate, \<open>memcpy\<close> into and out of them, the object representation of \<open>short\<close> and
  \<open>unsigned int\<close> on the (little-endian) host, and the byte-order functions of
  \<open>boost::asio::detail::socket_ops\<close>, which are a parameter of the model: a record of four
  functions together with their documented behaviour, \<open>network_order\<close>.
\<close>

named_theorems mem_simps "equations of the array operations"

subsection \<open>Character arrays\<close>

text \<open>\<open>None\<close> is a byte that has not been written since \<open>new char[n]\<close>.\<close>

type_synonym char_array = "byte option list"

definition new_array :: "nat \<Rightarrow> char_array" where
  "new_array n = replicate n None"

definition memcpy_to :: "char_array \<Rightarrow> nat \<Rightarrow> bytes \<Rightarrow> fault + char_array" where
  "memcpy_to a off bs =
     (if off + length bs \<le> length a
      then Inr (take off a @ map Some bs @ drop (off + length bs) a)
      else Inl Buffer_overflow)"

definition memcpy_from :: "char_array \<Rightarrow> nat \<Rightarrow> nat \<Rightarrow> fault + bytes" where
  "memcpy_from a off n =
     (if off + n \<le> length a
      then (case those (take n (drop off a)) of Some bs \<Rightarrow> Inr bs | None \<Rightarrow> Inl Uninit_read)
      else Inl Over_read)"

lemma length_new_array [simp]: "length (new_array n) = n"
  by (simp add: new_array_def)

lemma length_memcpy_to: "memcpy_to a off bs = Inr a' \<Longrightarrow> length a' = length a"
  by (auto simp: memcpy_to_def split: if_splits)

lemma those_map_Some [simp]: "those (map Some bs) = Some bs"
  by (induction bs) simp_all

lemma those_Some_iff: "those xs = Some bs \<longleftrightarrow> xs = map Some bs"
proof
  show "those xs = Some bs \<Longrightarrow> xs = map Some bs"
    by (induction xs arbitrary: bs) (auto split: option.splits)
qed simp

lemma memcpy_to_fits [mem_simps]:
  "off + length bs \<le> length a \<Longrightarrow>
     memcpy_to a off bs = Inr (take off a @ map Some bs @ drop (off + length bs) a)"
  by (simp add: memcpy_to_def)

lemma memcpy_to_overflow [mem_simps]:
  "length a < off + length bs \<Longrightarrow> memcpy_to a off bs = Inl Buffer_overflow"
  by (simp add: memcpy_to_def)

lemma memcpy_from_written:
  "a = map Some pre @ map Some bs @ rest \<Longrightarrow> off = length pre \<Longrightarrow> n = length bs \<Longrightarrow>
     memcpy_from a off n = Inr bs"
  by (simp add: memcpy_from_def)

lemma memcpy_from_length: "memcpy_from a off n = Inr bs \<Longrightarrow> length bs = n"
  by (auto simp: memcpy_from_def those_Some_iff split: if_splits option.splits dest: arg_cong [of _ _ length])

lemma memcpy_from_Inr_iff:
  "memcpy_from a off n = Inr bs \<longleftrightarrow> off + n \<le> length a \<and> take n (drop off a) = map Some bs"
  by (auto simp: memcpy_from_def those_Some_iff split: option.splits)

subsection \<open>Object representations on the host, and network byte order\<close>

definition short_repr :: "u16 \<Rightarrow> bytes" where
  "short_repr x = [ucast x, ucast (drop_bit 8 x)]"

definition short_of :: "bytes \<Rightarrow> u16" where
  "short_of bs = ucast (bs ! 0) OR push_bit 8 (ucast (bs ! 1))"

definition uint_repr :: "u32 \<Rightarrow> bytes" where
  "uint_repr x = [ucast x, ucast (drop_bit 8 x), ucast (drop_bit 16 x), ucast (drop_bit 24 x)]"

definition uint_of :: "bytes \<Rightarrow> u32" where
  "uint_of bs = ucast (bs ! 0) OR push_bit 8 (ucast (bs ! 1)) OR push_bit 16 (ucast (bs ! 2)) OR
     push_bit 24 (ucast (bs ! 3))"

text \<open>The big-endian (network order) bytes of a value.\<close>

definition be16 :: "u16 \<Rightarrow> bytes" where
  "be16 x = [ucast (drop_bit 8 x), ucast x]"

definition be32 :: "u32 \<Rightarrow> bytes" where
  "be32 x = [ucast (drop_bit 24 x), ucast (drop_bit 16 x), ucast (drop_bit 8 x), ucast x]"

lemma length_repr [simp]:
  "length (short_repr x) = 2" "length (uint_repr y) = 4" "length (be16 x) = 2" "length (be32 y) = 4"
  by (simp_all add: short_repr_def uint_repr_def be16_def be32_def)

lemma bit_byte_ge: "8 \<le> n \<Longrightarrow> \<not> bit (b :: byte) n"
  using bit_imp_le_length [of b n] by auto

lemma short_of_repr [simp]: "short_of (short_repr x) = x"
  by (rule bit_eqI) (auto simp: short_of_def short_repr_def bit_simps)

lemma uint_of_repr [simp]: "uint_of (uint_repr x) = x"
proof (rule bit_eqI)
  fix n
  assume "possible_bit TYPE(32 word) n"
  then consider "n < 8" | "8 \<le> n" "n < 16" | "16 \<le> n" "n < 24" | "24 \<le> n" "n < 32"
    by fastforce
  then show "bit (uint_of (uint_repr x)) n = bit x n"
    by cases (auto simp: uint_of_def uint_repr_def bit_simps)
qed

lemma short_repr_of:
  assumes "length bs = 2"
  shows "short_repr (short_of bs) = bs"
proof -
  from assms obtain a b where "bs = [a, b]" by (auto simp: numeral_2_eq_2 length_Suc_conv)
  then show ?thesis
    by (auto simp: short_of_def short_repr_def bit_eq_iff bit_simps bit_byte_ge)
qed

lemma uint_repr_of:
  assumes "length bs = 4"
  shows "uint_repr (uint_of bs) = bs"
proof -
  from assms obtain a b c d where "bs = [a, b, c, d]"
    by (auto simp: eval_nat_numeral length_Suc_conv)
  then show ?thesis
    by (auto simp: uint_of_def uint_repr_def bit_eq_iff bit_simps bit_byte_ge)
qed

text \<open>Any bytes are the big-endian bytes of a value.\<close>

lemma be16_of: "length bs = 2 \<Longrightarrow> be16 (short_of (rev bs)) = bs"
proof -
  assume "length bs = 2"
  then have "short_repr (short_of (rev bs)) = rev bs" by (intro short_repr_of) simp
  moreover have "be16 x = rev (short_repr x)" for x by (simp add: be16_def short_repr_def)
  ultimately show ?thesis by simp
qed

lemma be32_of: "length bs = 4 \<Longrightarrow> be32 (uint_of (rev bs)) = bs"
proof -
  assume "length bs = 4"
  then have "uint_repr (uint_of (rev bs)) = rev bs" by (intro uint_repr_of) simp
  moreover have "be32 x = rev (uint_repr x)" for x by (simp add: be32_def uint_repr_def)
  ultimately show ?thesis by simp
qed

record net_ops =
  host_to_network_short :: "u16 \<Rightarrow> u16"
  host_to_network_long :: "u32 \<Rightarrow> u32"
  network_to_host_short :: "u16 \<Rightarrow> u16"
  network_to_host_long :: "u32 \<Rightarrow> u32"

text \<open>The documented behaviour: a converted value is represented by the big-endian bytes of the
  value, and the two directions are inverse to each other.\<close>

definition network_order :: "net_ops \<Rightarrow> bool" where
  "network_order net =
     ((\<forall>x. short_repr (host_to_network_short net x) = be16 x) \<and>
      (\<forall>x. uint_repr (host_to_network_long net x) = be32 x) \<and>
      (\<forall>x. network_to_host_short net (host_to_network_short net x) = x) \<and>
      (\<forall>x. network_to_host_long net (host_to_network_long net x) = x))"

lemma network_orderD:
  assumes "network_order net"
  shows "short_repr (host_to_network_short net x) = be16 x"
    and "uint_repr (host_to_network_long net y) = be32 y"
    and "network_to_host_short net (short_of (be16 x)) = x"
    and "network_to_host_long net (uint_of (be32 y)) = y"
proof -
  show s: "short_repr (host_to_network_short net x) = be16 x" for x
    using assms by (simp add: network_order_def)
  show l: "uint_repr (host_to_network_long net y) = be32 y" for y
    using assms by (simp add: network_order_def)
  show "network_to_host_short net (short_of (be16 x)) = x"
    using assms by (metis s network_order_def short_of_repr)
  show "network_to_host_long net (uint_of (be32 y)) = y"
    using assms by (metis l network_order_def uint_of_repr)
qed

text \<open>A concrete instance, for the witnesses: the byte swaps of a little-endian host.\<close>

definition swap_ops :: net_ops where
  "swap_ops = \<lparr>host_to_network_short = (\<lambda>x. short_of (rev (short_repr x))),
     host_to_network_long = (\<lambda>x. uint_of (rev (uint_repr x))),
     network_to_host_short = (\<lambda>x. short_of (rev (short_repr x))),
     network_to_host_long = (\<lambda>x. uint_of (rev (uint_repr x)))\<rparr>"

lemma swap_ops_network_order: "network_order swap_ops"
proof -
  have "short_repr (short_of (rev (short_repr x))) = be16 x" for x
    by (subst short_repr_of) (simp_all add: short_repr_def be16_def)
  moreover have "uint_repr (uint_of (rev (uint_repr x))) = be32 x" for x
    by (subst uint_repr_of) (simp_all add: uint_repr_def be32_def)
  moreover have "short_of (rev (short_repr (short_of (rev (short_repr x))))) = x" for x
    by (simp add: short_repr_of)
  moreover have "uint_of (rev (uint_repr (uint_of (rev (uint_repr x))))) = x" for x
    by (simp add: uint_repr_of)
  ultimately show ?thesis
    unfolding network_order_def swap_ops_def by simp
qed

end
