(* ===== verification/Ftp_Msg_Node.thy ===== *)
theory Ftp_Msg_Node
  imports Wire
begin

unbundle bit_operations_syntax

text \<open>
  \<open>src/src/05_ftp/include/MsgNode.h\<close> and the constants of \<open>const.h\<close>: the message node, the
  receiving node the session reads a head or a body into, and the sending node, whose constructor
  lays out a frame: two bytes of message id, four bytes of length, both in network order, then
  the message. The lemmas show when the constructor stays inside its array, what the frame is, and
  that the head fields read back are the ones written.
\<close>

definition MAX_LEN :: u32 where "MAX_LEN = 2147483647"
definition HEAD_ID_LEN :: nat where "HEAD_ID_LEN = 2"
definition HEAD_DATA_LEN :: nat where "HEAD_DATA_LEN = 4"
definition HEAD_TOTAL_LEN :: nat where "HEAD_TOTAL_LEN = HEAD_ID_LEN + HEAD_DATA_LEN"
definition MAX_SEND_QUEUE_LEN :: nat where "MAX_SEND_QUEUE_LEN = 2000000"
definition MAX_RECV_QUEUE_LEN :: nat where "MAX_RECV_QUEUE_LEN = 2000000"

definition TEST_MSG_RECV :: u16 where "TEST_MSG_RECV = 1001"
definition TEST_MSG_SEND :: u16 where "TEST_MSG_SEND = 1002"
definition UPLOAD_FILE_RECV :: u16 where "UPLOAD_FILE_RECV = 1003"
definition UPLOAD_FILE_SEND :: u16 where "UPLOAD_FILE_SEND = 1004"

definition Success :: u32 where "Success = 0"

lemmas head_len_defs = HEAD_TOTAL_LEN_def HEAD_ID_LEN_def HEAD_DATA_LEN_def

lemma HEAD_TOTAL_LEN_6 [simp]: "HEAD_TOTAL_LEN = 6"
  by (simp add: head_len_defs)

subsection \<open>The node\<close>

record msg_node =
  curLen :: u32
  totalLen :: u32
  node_data :: char_array
  msgId :: u16

text \<open>\<open>new char[_totalLen + 1]\<close>: the sum is an \<open>unsigned int\<close>, so it wraps to 0 at the maximum.\<close>

definition MsgNode :: "u32 \<Rightarrow> u16 \<Rightarrow> msg_node" where
  "MsgNode total_len msg_id =
     \<lparr>curLen = 0, totalLen = total_len, node_data = new_array (unat (total_len + 1)), msgId = msg_id\<rparr>"

definition node_Clear :: "msg_node \<Rightarrow> msg_node" where
  "node_Clear n = n\<lparr>curLen := 0\<rparr>"

definition SetCurLen :: "u32 \<Rightarrow> msg_node \<Rightarrow> msg_node" where
  "SetCurLen len n = n\<lparr>curLen := len\<rparr>"

definition RecvNode :: "u32 \<Rightarrow> u16 \<Rightarrow> msg_node" where
  "RecvNode total_len msg_id = MsgNode total_len msg_id"

definition node_write :: "nat \<Rightarrow> bytes \<Rightarrow> msg_node \<Rightarrow> fault + msg_node" where
  "node_write off bs n = and_then (memcpy_to (node_data n) off bs) (\<lambda>d. Inr (n\<lparr>node_data := d\<rparr>))"

definition node_read :: "nat \<Rightarrow> nat \<Rightarrow> msg_node \<Rightarrow> fault + bytes" where
  "node_read off k n = memcpy_from (node_data n) off k"

text \<open>\<open>msg\<close> is the array the pointer argument points into; copying more than it holds is an over-read.\<close>

definition SendNode :: "net_ops \<Rightarrow> bytes \<Rightarrow> u32 \<Rightarrow> u16 \<Rightarrow> fault + msg_node" where
  "SendNode net msg total_len msg_id =
     (let n = MsgNode (total_len + of_nat HEAD_TOTAL_LEN) msg_id;
          networkId = host_to_network_short net msg_id;
          networkLen = host_to_network_long net total_len in
      and_then (node_write 0 (short_repr networkId) n) (\<lambda>n.
      and_then (node_write HEAD_ID_LEN (uint_repr networkLen) n) (\<lambda>n.
      if unat total_len \<le> length msg
      then and_then (node_write HEAD_TOTAL_LEN (take (unat total_len) msg) n) (\<lambda>n.
           node_write (unat (totalLen n)) [0] n)
      else Inl Over_read)))"

text \<open>The bytes \<open>async_write(_sock, buffer(Data(), TotalLen()))\<close> puts on the connection.\<close>

definition wire :: "msg_node \<Rightarrow> fault + bytes" where
  "wire n = node_read 0 (unat (totalLen n)) n"

text \<open>The two fields \<open>Session::PraseHead\<close> reads from a head node.\<close>

definition head_id :: "net_ops \<Rightarrow> msg_node \<Rightarrow> fault + u16" where
  "head_id net n = and_then (node_read 0 HEAD_ID_LEN n) (\<lambda>bs.
     Inr (network_to_host_short net (short_of bs)))"

definition head_len :: "net_ops \<Rightarrow> msg_node \<Rightarrow> fault + u32" where
  "head_len net n = and_then (node_read HEAD_ID_LEN HEAD_DATA_LEN n) (\<lambda>bs.
     Inr (network_to_host_long net (uint_of bs)))"

subsection \<open>Well-formed nodes\<close>

text \<open>The array has one byte more than the length the node announces, so the terminator written
  behind the body stays inside.\<close>

definition node_ok :: "msg_node \<Rightarrow> bool" where
  "node_ok n = (length (node_data n) = unat (totalLen n) + 1)"

lemma unat_plus_one: "w \<noteq> - 1 \<Longrightarrow> unat (w + 1 :: u32) = unat w + 1"
  by (metis Suc_eq_plus1 add.right_neutral add_diff_cancel_left' diff_add_cancel eq_neg_iff_add_eq_0
      unatSuc add.commute)

lemma node_ok_MsgNode: "total_len \<noteq> - 1 \<Longrightarrow> node_ok (MsgNode total_len i)"
  by (simp add: node_ok_def MsgNode_def unat_plus_one)

lemma node_ok_RecvNode: "total_len \<le> MAX_LEN \<Longrightarrow> node_ok (RecvNode total_len i)"
  unfolding RecvNode_def
  by (rule node_ok_MsgNode)
     (auto simp: MAX_LEN_def word_le_nat_alt unsigned_minus_1_eq_mask mask_eq_exp_minus_1)

lemma node_ok_Clear [simp]: "node_ok (node_Clear n) = node_ok n"
  by (simp add: node_ok_def node_Clear_def)

lemma node_write_ok:
  "node_write off bs n = Inr n' \<Longrightarrow>
     node_ok n' = node_ok n \<and> totalLen n' = totalLen n \<and> msgId n' = msgId n"
  by (auto simp: node_write_def node_ok_def fault_iffs dest: length_memcpy_to)

lemma node_write_fits:
  assumes "node_ok n" and "off + length bs \<le> unat (totalLen n) + 1"
  shows "node_write off bs n =
    Inr (n\<lparr>node_data := take off (node_data n) @ map Some bs @ drop (off + length bs) (node_data n)\<rparr>)"
  using assms by (simp add: node_write_def node_ok_def memcpy_to_fits)

subsection \<open>The frame\<close>

definition frame :: "u16 \<Rightarrow> bytes \<Rightarrow> bytes" where
  "frame i msg = be16 i @ be32 (of_nat (length msg)) @ msg"

lemma length_frame [simp]: "length (frame i msg) = 6 + length msg"
  by (simp add: frame_def)

lemma SendNode_data:
  assumes net: "network_order net" and len: "length msg + 7 < 2 ^ 32"
  shows "SendNode net msg (of_nat (length msg)) i =
    Inr \<lparr>curLen = 0, totalLen = of_nat (length msg) + 6,
         node_data = map Some (frame i msg @ [0]), msgId = i\<rparr>"
proof -
  have n: "unat (of_nat (length msg) :: u32) = length msg"
    and n6: "unat (of_nat (length msg) + 6 :: u32) = length msg + 6"
    and n7: "unat (of_nat (length msg) + 7 :: u32) = length msg + 7"
    using len unat_of_nat [where 'a = 32, of "length msg"] unat_of_nat [where 'a = 32, of "length msg + 6"]
      unat_of_nat [where 'a = 32, of "length msg + 7"] by simp_all
  have n7': "unat (7 + of_nat (length msg) :: u32) = length msg + 7"
    using n7 by (simp add: add.commute)
  note order = network_orderD [OF net]
  show ?thesis
    using len
    by (simp add: SendNode_def MsgNode_def node_write_def order n n6 n7' memcpy_to_fits head_len_defs
        new_array_def frame_def)
qed

lemma wire_of_data:
  assumes "node_data n = map Some (bs @ rest)" and "unat (totalLen n) = length bs"
  shows "wire n = Inr bs"
  using assms by (simp add: wire_def node_read_def memcpy_from_def)

text \<open>The head of a frame in a head node reads back as the message id and the length.\<close>

lemma head_fields:
  assumes net: "network_order net" and "node_data n = map Some (take 6 (frame i msg)) @ rest"
  shows "head_id net n = Inr i" and "head_len net n = Inr (of_nat (length msg))"
proof -
  let ?len = "of_nat (length msg) :: u32"
  have d: "node_data n = map Some [] @ map Some (be16 i) @ (map Some (be32 ?len) @ rest)"
    "node_data n = map Some (be16 i) @ map Some (be32 ?len) @ rest"
    using assms(2) by (simp_all add: frame_def)
  show "head_id net n = Inr i"
    using memcpy_from_written [OF d(1)] network_orderD(3) [OF net]
    by (simp add: head_id_def node_read_def head_len_defs)
  show "head_len net n = Inr ?len"
    using memcpy_from_written [OF d(2)] network_orderD(4) [OF net]
    by (simp add: head_len_def node_read_def head_len_defs)
qed

lemma node_write_Inl: "node_write off bs n = Inl e \<Longrightarrow> e = Buffer_overflow"
  by (simp add: node_write_def memcpy_to_def split: if_splits)

lemma length_node_write:
  "node_write off bs n = Inr n' \<Longrightarrow> length (node_data n') = length (node_data n)"
  by (auto simp: node_write_def fault_iffs dest: length_memcpy_to)

lemma SendNode_overflow:
  assumes "2 ^ 32 \<le> unat total_len + 7" and "unat total_len \<le> length msg"
  shows "SendNode net msg total_len i = Inl Buffer_overflow"
proof -
  have lt: "unat total_len < 2 ^ 32" using unsigned_less [of total_len, where 'a = nat] by simp
  have "unat (total_len + 7) = (unat total_len + 7) mod 2 ^ 32"
    by (simp add: unat_word_ariths)
  also have "\<dots> = unat total_len + 7 - 2 ^ 32"
    using assms(1) lt by (simp add: mod_if)
  finally have size: "unat (total_len + 6 + 1) = unat total_len + 7 - 2 ^ 32"
    by (simp add: add.assoc)
  let ?n = "MsgNode (total_len + of_nat HEAD_TOTAL_LEN) i"
  let ?id = "node_write 0 (short_repr (host_to_network_short net i))"
  let ?len = "node_write HEAD_ID_LEN (uint_repr (host_to_network_long net total_len))"
  have cap: "length (node_data ?n) = unat total_len + 7 - 2 ^ 32"
    using size by (simp add: MsgNode_def)
  show ?thesis
  proof (cases "?id ?n")
    case (Inl e)
    then have "e = Buffer_overflow" by (rule node_write_Inl)
    with Inl show ?thesis by (simp add: SendNode_def Let_def)
  next
    fix n1 assume n1: "?id ?n = Inr n1"
    show ?thesis
    proof (cases "?len n1")
      case (Inl e)
      then have "e = Buffer_overflow" by (rule node_write_Inl)
      with Inl n1 show ?thesis by (simp add: SendNode_def Let_def)
    next
      fix n2 assume n2: "?len n1 = Inr n2"
      have "length (node_data n2) < HEAD_TOTAL_LEN + length (take (unat total_len) msg)"
        using length_node_write [OF n1] length_node_write [OF n2] cap lt assms(2) by simp
      then have "node_write HEAD_TOTAL_LEN (take (unat total_len) msg) n2 = Inl Buffer_overflow"
        by (simp only: node_write_def memcpy_to_overflow and_then.simps)
      with n1 n2 assms(2) show ?thesis by (simp add: SendNode_def Let_def)
    qed
  qed
qed

subsection \<open>Properties\<close>

text \<open>
  C23: a sending node is built for a message exactly when the frame, with its terminator, fits
  the 32-bit length arithmetic: then its array is completely written and what goes on the
  connection is the id and the length in network order followed by the message; for a longer
  message the constructor writes past its array.
\<close>
theorem SendNode_frame:
  assumes "network_order net" and "length msg < 2 ^ 32"
  shows "if length msg + 7 < 2 ^ 32
    then \<exists>n. SendNode net msg (of_nat (length msg)) i = Inr n \<and> node_ok n \<and>
           None \<notin> set (node_data n) \<and> wire n = Inr (be16 i @ be32 (of_nat (length msg)) @ msg)
    else SendNode net msg (of_nat (length msg)) i = Inl Buffer_overflow"
proof (cases "length msg + 7 < 2 ^ 32")
  case True
  have "unat (of_nat (length msg) + 6 :: u32) = length msg + 6"
    using True unat_of_nat [where 'a = 32, of "length msg + 6"] by simp
  with True show ?thesis
    by (simp add: SendNode_data [OF assms(1) True] node_ok_def image_iff frame_def
        wire_of_data [where bs = "frame i msg" and rest = "[0]", unfolded frame_def])
next
  case False
  have "unat (of_nat (length msg) :: u32) = length msg"
    using assms(2) unat_of_nat [where 'a = 32, of "length msg"] by simp
  with False SendNode_overflow [of "of_nat (length msg)" msg net i] show ?thesis by simp
qed

theorem SendNode_frame_witness:
  "\<exists>n. SendNode swap_ops [104, 105] 2 1001 = Inr n \<and> node_ok n \<and> None \<notin> set (node_data n) \<and>
     wire n = Inr [3, 233, 0, 0, 0, 2, 104, 105]"
proof -
  have "(1001 :: byte) = 233" by simp
  with SendNode_frame [OF swap_ops_network_order, of "[104, 105]" 1001] show ?thesis
    by (simp add: be16_def be32_def drop_bit_eq_div)
qed

end
