(* ===== verification/Interfaces.thy ===== *)
theory Interfaces
  imports Net_Prelude
begin

text \<open>
  The contracts that several components share, as locales. Their laws are what a client may
  rely on; each is interpreted, in the theory of the component that provides it, on that
  component's own operations.

  \<^item> \<open>keyed_map\<close>: a lookup and an insertion that overwrites (the sections and the keys of the
    configuration); \<open>keyed_store\<close> adds an erasure (the session table, the user table, the
    connection table).
  \<^item> \<open>job_queue\<close>: the logic queue, the log queue and the send queues take jobs at the back,
    while there is room, and serve them from the front.
  \<^item> \<open>write_pump\<close>: a send queue together with the one asynchronous write that may be
    outstanding on its socket (\<open>Session::Send\<close>/\<open>HandlerWrite\<close> of both servers,
    \<open>Connection::AsyncSend\<close>/\<open>SendCallback\<close> of the websocket server).
\<close>

subsection \<open>Keyed stores\<close>

datatype ('k, 'v) store_op = Put 'k 'v | Del 'k

fun store_run :: "('k \<Rightarrow> 'v \<Rightarrow> 'm \<Rightarrow> 'm) \<Rightarrow> ('k \<Rightarrow> 'm \<Rightarrow> 'm) \<Rightarrow> ('k, 'v) store_op list \<Rightarrow> 'm \<Rightarrow> 'm" where
  "store_run put del [] m = m"
| "store_run put del (Put k v # ops) m = store_run put del ops (put k v m)"
| "store_run put del (Del k # ops) m = store_run put del ops (del k m)"

text \<open>The last operation on a key decides what a lookup returns.\<close>

fun last_op :: "'k \<Rightarrow> ('k, 'v) store_op list \<Rightarrow> 'v option \<Rightarrow> 'v option" where
  "last_op k [] r = r"
| "last_op k (Put k' v # ops) r = last_op k ops (if k' = k then Some v else r)"
| "last_op k (Del k' # ops) r = last_op k ops (if k' = k then None else r)"

locale keyed_map =
  fixes lookup :: "'m \<Rightarrow> 'k \<Rightarrow> 'v option"
    and put :: "'k \<Rightarrow> 'v \<Rightarrow> 'm \<Rightarrow> 'm"
  assumes lookup_put: "lookup (put k v m) k' = (if k' = k then Some v else lookup m k')"
begin

lemma lookup_put_same: "lookup (put k v m) k = Some v"
  by (simp add: lookup_put)

lemma lookup_put_put: "lookup (put k v (put k w m)) = lookup (put k v m)"
  by (rule ext) (simp add: lookup_put)

text \<open>Filling the map from a list of pairs: the last pair of a key counts.\<close>

lemma lookup_fill:
  "lookup (fold (\<lambda>(k, v). put k v) kvs m) k =
     (case map_of (rev kvs) k of Some v \<Rightarrow> Some v | None \<Rightarrow> lookup m k)"
proof (induction kvs arbitrary: m)
  case (Cons kv kvs)
  obtain k' v where "kv = (k', v)" by force
  with Cons show ?case
    by (auto simp: lookup_put map_add_def split: option.splits)
qed simp

end

locale keyed_store = keyed_map lookup put
  for lookup :: "'m \<Rightarrow> 'k \<Rightarrow> 'v option" and put :: "'k \<Rightarrow> 'v \<Rightarrow> 'm \<Rightarrow> 'm" +
  fixes del :: "'k \<Rightarrow> 'm \<Rightarrow> 'm"
  assumes lookup_del: "lookup (del k m) k' = (if k' = k then None else lookup m k')"
begin

lemma lookup_del_same: "lookup (del k m) k = None"
  by (simp add: lookup_del)

lemma lookup_del_put: "lookup (del k (put k v m)) = lookup (del k m)"
  by (rule ext) (simp add: lookup_put lookup_del)

lemma lookup_run: "lookup (store_run put del ops m) k = last_op k ops (lookup m k)"
proof (induction ops arbitrary: m)
  case (Cons op ops)
  then show ?case by (cases op) (simp_all add: lookup_put lookup_del)
qed simp

lemma last_op_untouched:
  "\<forall>op\<in>set ops. (case op of Put k' v \<Rightarrow> k' \<noteq> k | Del k' \<Rightarrow> k' \<noteq> k) \<Longrightarrow> last_op k ops r = r"
proof (induction ops arbitrary: r)
  case (Cons op ops)
  then show ?case by (cases op) simp_all
qed simp

lemma lookup_run_untouched:
  "\<forall>op\<in>set ops. (case op of Put k' v \<Rightarrow> k' \<noteq> k | Del k' \<Rightarrow> k' \<noteq> k) \<Longrightarrow>
     lookup (store_run put del ops m) k = lookup m k"
  by (simp add: lookup_run last_op_untouched)

end

subsection \<open>Job queues\<close>

locale job_queue =
  fixes items :: "'s \<Rightarrow> 'a list"
    and room :: "'s \<Rightarrow> bool"
    and submit :: "'a \<Rightarrow> 's \<Rightarrow> 's"
    and serve :: "'s \<Rightarrow> 's"
  assumes items_submit: "items (submit a s) = (if room s then items s @ [a] else items s)"
    and items_serve: "items s \<noteq> [] \<Longrightarrow> items (serve s) = tl (items s)"
begin

lemma items_submit_front: "items s \<noteq> [] \<Longrightarrow> hd (items (submit a s)) = hd (items s)"
  by (simp add: items_submit)

lemma items_serve_submit:
  "items s \<noteq> [] \<Longrightarrow> room s \<Longrightarrow> items (serve (submit a s)) = tl (items s) @ [a]"
  by (subst items_serve) (simp_all add: items_submit)

end

text \<open>A history of a queue: submissions and services, with the jobs served so far.\<close>

datatype 'a job_event = Post 'a | Take

fun job_step :: "('s \<Rightarrow> 'a list) \<Rightarrow> ('a \<Rightarrow> 's \<Rightarrow> 's) \<Rightarrow> ('s \<Rightarrow> 's) \<Rightarrow>
    'a job_event \<Rightarrow> 's \<times> 'a list \<Rightarrow> 's \<times> 'a list" where
  "job_step items submit serve (Post a) (s, done) = (submit a s, done)"
| "job_step items submit serve Take (s, done) =
     (case items s of [] \<Rightarrow> (s, done) | x # _ \<Rightarrow> (serve s, done @ [x]))"

fun job_accepted :: "('s \<Rightarrow> 'a list) \<Rightarrow> ('s \<Rightarrow> bool) \<Rightarrow> ('a \<Rightarrow> 's \<Rightarrow> 's) \<Rightarrow> ('s \<Rightarrow> 's) \<Rightarrow>
    'a job_event list \<Rightarrow> 's \<Rightarrow> 'a list" where
  "job_accepted items room submit serve [] s = []"
| "job_accepted items room submit serve (Post a # es) s =
     (if room s then [a] else []) @ job_accepted items room submit serve es (submit a s)"
| "job_accepted items room submit serve (Take # es) s =
     job_accepted items room submit serve es (if items s = [] then s else serve s)"

context job_queue
begin

lemma jobs_fifo:
  assumes "fold (job_step items submit serve) es (s, done) = (s', done')"
  shows "done' @ items s' = done @ items s @ job_accepted items room submit serve es s"
  using assms
proof (induction es arbitrary: s "done")
  case Nil
  then show ?case by simp
next
  case (Cons e es)
  show ?case
  proof (cases e)
    case (Post a)
    with Cons.prems have "fold (job_step items submit serve) es (submit a s, done) = (s', done')"
      by simp
    from Cons.IH [OF this] show ?thesis by (simp add: Post items_submit)
  next
    case Take
    show ?thesis
    proof (cases "items s")
      case Nil
      with Cons.prems Take have "fold (job_step items submit serve) es (s, done) = (s', done')"
        by simp
      from Cons.IH [OF this] show ?thesis by (simp add: Take Nil)
    next
      fix x xs assume items: "items s = x # xs"
      with Cons.prems Take
      have "fold (job_step items submit serve) es (serve s, done @ [x]) = (s', done')" by simp
      from Cons.IH [OF this] show ?thesis by (simp add: Take items items_serve)
    qed
  qed
qed

end

subsection \<open>Write pumps\<close>

text \<open>
  \<open>busy s\<close> is the message of the outstanding write, if there is one; \<open>serve\<close> is the completion
  handler called without an error, \<open>fail\<close> the handler called with one.
\<close>

locale write_pump = job_queue items room submit serve
  for items :: "'s \<Rightarrow> 'a list" and room :: "'s \<Rightarrow> bool"
    and submit :: "'a \<Rightarrow> 's \<Rightarrow> 's" and serve :: "'s \<Rightarrow> 's" +
  fixes busy :: "'s \<Rightarrow> 'a option"
    and fail :: "'s \<Rightarrow> 's"
  assumes busy_submit: "room s \<Longrightarrow> busy (submit a s) = (if items s = [] then Some a else busy s)"
    and busy_submit_full: "\<not> room s \<Longrightarrow> busy (submit a s) = busy s"
    and busy_serve: "items s \<noteq> [] \<Longrightarrow>
      busy (serve s) = (case tl (items s) of [] \<Rightarrow> None | x # _ \<Rightarrow> Some x)"
    and items_fail: "items (fail s) = items s"
    and busy_fail: "busy (fail s) = None"
    and room_empty: "items s = [] \<Longrightarrow> room s"

datatype 'a pump_event = Submit 'a | Complete | Fail

fun pump_step :: "('a \<Rightarrow> 's \<Rightarrow> 's) \<Rightarrow> ('s \<Rightarrow> 's) \<Rightarrow> ('s \<Rightarrow> 'a option) \<Rightarrow> ('s \<Rightarrow> 's) \<Rightarrow>
    'a pump_event \<Rightarrow> 's \<times> 'a list \<Rightarrow> 's \<times> 'a list" where
  "pump_step submit serve busy fail (Submit a) (s, sent) = (submit a s, sent)"
| "pump_step submit serve busy fail Complete (s, sent) =
     (case busy s of None \<Rightarrow> (s, sent) | Some m \<Rightarrow> (serve s, sent @ [m]))"
| "pump_step submit serve busy fail Fail (s, sent) =
     (case busy s of None \<Rightarrow> (s, sent) | Some m \<Rightarrow> (fail s, sent))"

fun pump_accepted :: "('s \<Rightarrow> bool) \<Rightarrow> ('a \<Rightarrow> 's \<Rightarrow> 's) \<Rightarrow> ('s \<Rightarrow> 's) \<Rightarrow> ('s \<Rightarrow> 'a option) \<Rightarrow>
    'a pump_event list \<Rightarrow> 's \<Rightarrow> 'a list" where
  "pump_accepted room submit serve busy [] s = []"
| "pump_accepted room submit serve busy (Submit a # es) s =
     (if room s then [a] else []) @ pump_accepted room submit serve busy es (submit a s)"
| "pump_accepted room submit serve busy (e # es) s =
     pump_accepted room submit serve busy es (if busy s = None then s else serve s)"

text \<open>The state between handlers: one write is outstanding exactly when the queue is not empty,
  and it is the write of the queue's front.\<close>

definition pump_ok :: "('s \<Rightarrow> 'a list) \<Rightarrow> ('s \<Rightarrow> 'a option) \<Rightarrow> 's \<Rightarrow> bool" where
  "pump_ok items busy s = (busy s = (case items s of [] \<Rightarrow> None | x # _ \<Rightarrow> Some x))"

context write_pump
begin

lemma pump_ok_submit: "pump_ok items busy s \<Longrightarrow> pump_ok items busy (submit a s)"
  by (cases "room s"; cases "items s")
     (auto simp: pump_ok_def items_submit busy_submit busy_submit_full room_empty)

lemma pump_ok_serve: "items s \<noteq> [] \<Longrightarrow> pump_ok items busy (serve s)"
  by (simp add: pump_ok_def items_serve busy_serve)

lemma pump_run_ok:
  assumes "pump_ok items busy s" and "Fail \<notin> set es"
    and "fold (pump_step submit serve busy fail) es (s, sent) = (s', sent')"
  shows "pump_ok items busy s'"
    and "sent' @ items s' = sent @ items s @ pump_accepted room submit serve busy es s"
proof -
  have "pump_ok items busy s' \<and>
      sent' @ items s' = sent @ items s @ pump_accepted room submit serve busy es s"
    using assms
  proof (induction es arbitrary: s sent)
    case Nil
    then show ?case by simp
  next
    case (Cons e es)
    show ?case
    proof (cases e)
      case (Submit a)
      from Cons.IH [of "submit a s" sent] Cons.prems pump_ok_submit [of s a] show ?thesis
        by (simp add: Submit items_submit)
    next
      case Complete
      show ?thesis
      proof (cases "items s")
        case Nil
        with Cons.prems(1) have "busy s = None" by (simp add: pump_ok_def)
        with Cons.IH [of s sent] Cons.prems Complete show ?thesis by simp
      next
        fix x xs assume items: "items s = x # xs"
        with Cons.prems(1) have "busy s = Some x" by (simp add: pump_ok_def)
        with Cons.IH [of "serve s" "sent @ [x]"] Cons.prems Complete pump_ok_serve [of s] items
        show ?thesis by (simp add: items_serve)
      qed
    next
      case Fail
      with Cons.prems(2) show ?thesis by simp
    qed
  qed
  then show "pump_ok items busy s'"
    and "sent' @ items s' = sent @ items s @ pump_accepted room submit serve busy es s" by auto
qed

text \<open>After a failed write the queue keeps its front and no write is outstanding, so no later
  submission starts one: the pump is wedged.\<close>

lemma pump_wedged:
  assumes "busy s = None" and "items s \<noteq> []"
    and "fold (pump_step submit serve busy fail) es (s, sent) = (s', sent')"
  shows "sent' = sent \<and> busy s' = None \<and> items s' \<noteq> []"
  using assms
proof (induction es arbitrary: s)
  case Nil
  then show ?case by simp
next
  case (Cons e es)
  show ?case
  proof (cases e)
    case (Submit a)
    have "busy (submit a s) = None"
      using Cons.prems by (cases "room s") (simp_all add: busy_submit busy_submit_full)
    moreover have "items (submit a s) \<noteq> []" using Cons.prems by (simp add: items_submit)
    ultimately show ?thesis using Cons.IH [of "submit a s"] Cons.prems(3) by (simp add: Submit)
  qed (use Cons in simp_all)
qed

lemma fail_wedges:
  assumes "pump_ok items busy s" and "busy s \<noteq> None"
    and "fold (pump_step submit serve busy fail) es (fail s, sent) = (s', sent')"
  shows "sent' = sent"
proof -
  have "items (fail s) \<noteq> []" using assms(1,2) by (auto simp: pump_ok_def items_fail)
  then show ?thesis using pump_wedged [OF busy_fail _ assms(3)] by blast
qed

end

end
