(* ===== verification/Registries.thy ===== *)
theory Registries
  imports Interfaces "HOL-Library.AList"
begin

text \<open>
  The tables that map a key to a live object, each with the operations its class has:
  \<open>UserManager\<close> (\<open>src/src/05_ftp/include/UserManager.h\<close>), the session table of both servers
  (\<open>Server::RemoveSession\<close> and the assignment in \<open>Server::HandlerAccept\<close>) and
  \<open>ConnectionManager\<close> (\<open>src/src/04_beast-websocket/ConnectionManager.h\<close>). Each is an instance of
  the interface \<open>keyed_store\<close>. A \<open>shared_ptr\<close> is the address of the object it owns.
\<close>

type_synonym addr = nat

subsection \<open>UserManager\<close>

type_synonym user_map = "int \<rightharpoonup> addr"

text \<open>\<open>None\<close> is the \<open>nullptr\<close> the code returns for an unknown user.\<close>

definition GetUserSession :: "user_map \<Rightarrow> int \<Rightarrow> addr option" where
  "GetUserSession uidToSession uid =
     (if uid \<in> dom uidToSession then Some (the (uidToSession uid)) else None)"

definition SetUserSession :: "int \<Rightarrow> addr \<Rightarrow> user_map \<Rightarrow> user_map" where
  "SetUserSession uid session uidToSession = uidToSession(uid \<mapsto> session)"

definition RemoveUserSession :: "int \<Rightarrow> user_map \<Rightarrow> user_map" where
  "RemoveUserSession uid uidToSession = uidToSession(uid := None)"

definition UserManager_dtor :: "user_map \<Rightarrow> user_map" where
  "UserManager_dtor uidToSession = Map.empty"

lemma GetUserSession_lookup: "GetUserSession m uid = m uid"
  by (cases "m uid") (auto simp: GetUserSession_def)

interpretation users: keyed_store GetUserSession SetUserSession RemoveUserSession
  by unfold_locales (auto simp: GetUserSession_lookup SetUserSession_def RemoveUserSession_def)

subsection \<open>The session table of a server\<close>

text \<open>The \<open>unordered_map\<close> of a server is an association list with one entry a key.\<close>

type_synonym session_table = "(string \<times> addr) list"

definition find_session :: "session_table \<Rightarrow> string \<Rightarrow> addr option" where
  "find_session tab sid = map_of tab sid"

definition save_session :: "string \<Rightarrow> addr \<Rightarrow> session_table \<Rightarrow> session_table" where
  "save_session sid session tab = AList.update sid session tab"

definition RemoveSession :: "string \<Rightarrow> session_table \<Rightarrow> session_table" where
  "RemoveSession sid tab = AList.delete sid tab"

interpretation session_tab: keyed_store find_session save_session RemoveSession
  by unfold_locales
     (auto simp: find_session_def save_session_def RemoveSession_def update_conv' delete_conv')

definition table_ok :: "session_table \<Rightarrow> bool" where
  "table_ok tab = distinct (map fst tab)"

lemma table_ok_save [simp]: "table_ok tab \<Longrightarrow> table_ok (save_session sid a tab)"
  by (simp add: table_ok_def save_session_def distinct_update)

lemma table_ok_RemoveSession [simp]: "table_ok tab \<Longrightarrow> table_ok (RemoveSession sid tab)"
  by (simp add: table_ok_def RemoveSession_def distinct_delete)

lemma find_session_iff: "table_ok tab \<Longrightarrow> find_session tab sid = Some a \<longleftrightarrow> (sid, a) \<in> set tab"
  by (simp add: table_ok_def find_session_def)

lemma set_save_session:
  assumes "table_ok tab"
  shows "set (save_session sid a tab) = insert (sid, a) {(s, b) \<in> set tab. s \<noteq> sid}"
proof -
  have "(s, b) \<in> set (save_session sid a tab) \<longleftrightarrow> (if s = sid then b = a else (s, b) \<in> set tab)" for s b
  proof -
    have "(s, b) \<in> set (save_session sid a tab) \<longleftrightarrow> find_session (save_session sid a tab) s = Some b"
      by (rule find_session_iff [symmetric]) (simp add: assms)
    also have "\<dots> \<longleftrightarrow> (if s = sid then b = a else find_session tab s = Some b)"
      by (auto simp: session_tab.lookup_put)
    finally show ?thesis by (simp add: find_session_iff [OF assms])
  qed
  then show ?thesis by (auto split: if_splits)
qed

lemma set_RemoveSession: "set (RemoveSession sid tab) = {(s, b) \<in> set tab. s \<noteq> sid}"
  by (auto simp: RemoveSession_def AList.delete_eq)

subsection \<open>ConnectionManager\<close>

type_synonym connection_table = "(string \<times> addr) list"

definition find_connection :: "connection_table \<Rightarrow> string \<Rightarrow> addr option" where
  "find_connection tab uid = map_of tab uid"

definition AddConnection :: "string \<Rightarrow> addr \<Rightarrow> connection_table \<Rightarrow> connection_table" where
  "AddConnection uid connection tab = AList.update uid connection tab"

definition RemoveConnection :: "string \<Rightarrow> connection_table \<Rightarrow> connection_table" where
  "RemoveConnection uid tab = AList.delete uid tab"

interpretation connections: keyed_store find_connection AddConnection RemoveConnection
  by unfold_locales
     (auto simp: find_connection_def AddConnection_def RemoveConnection_def update_conv' delete_conv')

subsection \<open>Properties\<close>

text \<open>
  After any history of \<open>SetUserSession\<close> and \<open>RemoveUserSession\<close> calls, \<open>GetUserSession\<close>
  returns what the last call for that user set, \<open>nullptr\<close> when it removed it, and the initial
  entry when no call named the user.
\<close>
lemma UserManager_last_write:
  "GetUserSession (store_run SetUserSession RemoveUserSession ops m) uid =
     last_op uid ops (GetUserSession m uid)"
  by (rule users.lookup_run)

end
