(* ===== verification/Io_Pool.thy ===== *)
theory Io_Pool
  imports Net_Prelude
begin

text \<open>
  The two ways the servers get an \<open>io_context\<close> for a session, \<open>IOServicePool\<close> (one context
  and one thread per core, handed out in turn) and \<open>IOThreadPool\<close> (one context run by several
  threads): \<open>src/src/05_ftp/IOServicePool.cpp\<close>, \<open>IOThreadPool.cpp\<close> and their headers, with
  the different \<open>Stop\<close> of \<open>src/src/02_async/IOServicePool.cpp\<close>.

  An \<open>io_context\<close> is the flag that \<open>stop()\<close> sets; whether it still has outstanding
  operations is a parameter of the operations that wait for its thread. The documented behaviour
  of \<open>run()\<close> used here: it returns when the context is stopped, or when it has neither a work
  guard nor outstanding work.
\<close>

subsection \<open>IOServicePool\<close>

record io_pool =
  ioServices :: "bool list"  \<comment> \<open>the \<open>stopped\<close> flag of each context\<close>
  works :: "bool list"       \<comment> \<open>whether each \<open>unique_ptr\<close> still holds its guard\<close>
  pool_threads :: "bool list"  \<comment> \<open>whether each thread is joinable\<close>
  next_service :: nat        \<comment> \<open>the function-local static \<open>next\<close>\<close>

definition IOServicePool :: "nat \<Rightarrow> io_pool" where
  "IOServicePool pool_size =
     \<lparr>ioServices = replicate pool_size False, works = replicate pool_size True,
      pool_threads = replicate pool_size True, next_service = 0\<rparr>"

definition GetIOService :: "io_pool \<Rightarrow> fault + (nat \<times> io_pool)" where
  "GetIOService p =
     (if next_service p < length (ioServices p)
      then Inr (next_service p, p\<lparr>next_service := (next_service p + 1) mod length (ioServices p)\<rparr>)
      else Inl Over_read)"

definition stop_service :: "nat \<Rightarrow> io_pool \<Rightarrow> io_pool" where
  "stop_service i p = p\<lparr>ioServices := (ioServices p)[i := True]\<rparr>"

definition run_returns :: "(nat \<Rightarrow> bool) \<Rightarrow> io_pool \<Rightarrow> nat \<Rightarrow> bool" where
  "run_returns outstanding p i = (ioServices p ! i \<or> (\<not> works p ! i \<and> \<not> outstanding i))"

text \<open>The loop over \<open>_works\<close>: dereference the guard, stop its context, reset the pointer.
  \<open>stops\<close> tells the two servers apart: the FTP server's pool stops the context first.\<close>

fun stop_works :: "bool \<Rightarrow> nat list \<Rightarrow> io_pool \<Rightarrow> fault + io_pool" where
  "stop_works stops [] p = Inr p"
| "stop_works stops (i # is) p =
     (if stops \<and> \<not> works p ! i then Inl Null_deref
      else let p = (if stops then stop_service i p else p)
           in stop_works stops is (p\<lparr>works := (works p)[i := False]\<rparr>))"

text \<open>Joining waits for the threads in order; \<open>None\<close> is a join that never returns.\<close>

fun join_threads :: "(nat \<Rightarrow> bool) \<Rightarrow> nat list \<Rightarrow> io_pool \<Rightarrow> io_pool option" where
  "join_threads outstanding [] p = Some p"
| "join_threads outstanding (i # is) p =
     (if pool_threads p ! i
      then if run_returns outstanding p i
           then join_threads outstanding is (p\<lparr>pool_threads := (pool_threads p)[i := False]\<rparr>)
           else None
      else join_threads outstanding is p)"

definition IOServicePool_Stop :: "bool \<Rightarrow> (nat \<Rightarrow> bool) \<Rightarrow> io_pool \<Rightarrow> fault + io_pool option" where
  "IOServicePool_Stop stops outstanding p =
     and_then (stop_works stops [0..<length (works p)] p) (\<lambda>p.
     Inr (join_threads outstanding [0..<length (pool_threads p)] p))"

definition ftp_pool_Stop :: "(nat \<Rightarrow> bool) \<Rightarrow> io_pool \<Rightarrow> fault + io_pool option" where
  "ftp_pool_Stop outstanding p = IOServicePool_Stop True outstanding p"

definition async_pool_Stop :: "(nat \<Rightarrow> bool) \<Rightarrow> io_pool \<Rightarrow> fault + io_pool option" where
  "async_pool_Stop outstanding p = IOServicePool_Stop False outstanding p"

text \<open>The constructor and \<open>GetIOService\<close> in the copy of the message server.\<close>

definition async_IOServicePool :: "nat \<Rightarrow> io_pool" where
  "async_IOServicePool pool_size =
     \<lparr>ioServices = replicate pool_size False, works = replicate pool_size True,
      pool_threads = replicate pool_size True, next_service = 0\<rparr>"

definition async_GetIOService :: "io_pool \<Rightarrow> fault + (nat \<times> io_pool)" where
  "async_GetIOService p =
     (let next = next_service p in
      if next < length (ioServices p)
      then Inr (next, p\<lparr>next_service := (next + 1) mod length (ioServices p)\<rparr>)
      else Inl Over_read)"

lemma async_pool_copy [simp]: "async_IOServicePool n = IOServicePool n" "async_GetIOService p = GetIOService p"
  by (simp_all add: async_IOServicePool_def IOServicePool_def async_GetIOService_def GetIOService_def Let_def)

subsection \<open>The end of the process\<close>

text \<open>How the process ends: \<open>std::terminate\<close>, undefined behaviour, a return code, or never.\<close>

datatype process_end = Aborts | Misbehaves fault | Exits int | Hangs

text \<open>The destructor of the pool destroys its threads: a joinable one ends the process.\<close>

definition pool_exit :: "io_pool \<Rightarrow> process_end" where
  "pool_exit p = (if True \<in> set (pool_threads p) then Aborts else Exits 0)"

subsection \<open>IOThreadPool\<close>

record thread_pool =
  tp_stopped :: bool
  tp_guard :: bool           \<comment> \<open>whether the guard still owns work\<close>
  tp_threads :: "bool list"

definition IOThreadPool :: "nat \<Rightarrow> thread_pool" where
  "IOThreadPool pool_size = \<lparr>tp_stopped = False, tp_guard = True, tp_threads = replicate pool_size True\<rparr>"

text \<open>Every caller gets the one context.\<close>

definition thread_pool_GetIOService :: "thread_pool \<Rightarrow> nat" where
  "thread_pool_GetIOService p = 0"

definition IOThreadPool_Stop :: "thread_pool \<Rightarrow> thread_pool" where
  "IOThreadPool_Stop p =
     (let p = p\<lparr>tp_stopped := True\<rparr>; p = p\<lparr>tp_guard := False\<rparr>
      in p\<lparr>tp_threads := map (\<lambda>joinable. False) (tp_threads p)\<rparr>)"

text \<open>The message server has its own copy of the class.\<close>

definition async_IOThreadPool :: "nat \<Rightarrow> thread_pool" where
  "async_IOThreadPool pool_size = \<lparr>tp_stopped = False, tp_guard = True, tp_threads = replicate pool_size True\<rparr>"

definition async_thread_pool_GetIOService :: "thread_pool \<Rightarrow> nat" where
  "async_thread_pool_GetIOService p = 0"

definition async_IOThreadPool_Stop :: "thread_pool \<Rightarrow> thread_pool" where
  "async_IOThreadPool_Stop p =
     (let p = p\<lparr>tp_stopped := True\<rparr>; p = p\<lparr>tp_guard := False\<rparr>
      in p\<lparr>tp_threads := map (\<lambda>joinable. False) (tp_threads p)\<rparr>)"

lemma async_thread_pool_copy [simp]:
  "async_IOThreadPool n = IOThreadPool n" "async_thread_pool_GetIOService p = thread_pool_GetIOService p"
  "async_IOThreadPool_Stop p = IOThreadPool_Stop p"
  by (simp_all add: async_IOThreadPool_def IOThreadPool_def async_thread_pool_GetIOService_def
      thread_pool_GetIOService_def async_IOThreadPool_Stop_def IOThreadPool_Stop_def)

subsection \<open>Well-formed pools\<close>

definition pool_ok :: "io_pool \<Rightarrow> bool" where
  "pool_ok p = (length (works p) = length (ioServices p) \<and>
     length (pool_threads p) = length (ioServices p) \<and>
     (ioServices p \<noteq> [] \<longrightarrow> next_service p < length (ioServices p)))"

lemma pool_ok_new: "pool_ok (IOServicePool n)"
  by (auto simp: pool_ok_def IOServicePool_def)

lemma pool_ok_GetIOService: "GetIOService p = Inr (i, p') \<Longrightarrow> pool_ok p \<Longrightarrow> pool_ok p'"
  by (auto simp: GetIOService_def pool_ok_def split: if_splits)

lemma pool_ok_stop_service: "pool_ok p \<Longrightarrow> pool_ok (stop_service i p)"
  by (simp add: pool_ok_def stop_service_def)

text \<open>\<open>k\<close> calls in a row.\<close>

fun get_services :: "nat \<Rightarrow> io_pool \<Rightarrow> fault + (nat list \<times> io_pool)" where
  "get_services 0 p = Inr ([], p)"
| "get_services (Suc k) p = and_then (GetIOService p) (\<lambda>(i, p).
     and_then (get_services k p) (\<lambda>(is, p). Inr (i # is, p)))"

lemma get_services_from:
  assumes "length (ioServices p) = n" and "0 < n" and "next_service p = j mod n"
  shows "\<exists>p'. get_services k p = Inr (map (\<lambda>i. (j + i) mod n) [0..<k], p')"
  using assms
proof (induction k arbitrary: p j)
  case 0
  then show ?case by simp
next
  case (Suc k)
  let ?p = "p\<lparr>next_service := (next_service p + 1) mod n\<rparr>"
  have "GetIOService p = Inr (j mod n, ?p)"
    using Suc.prems by (simp add: GetIOService_def)
  moreover obtain p' where "get_services k ?p = Inr (map (\<lambda>i. (j + 1 + i) mod n) [0..<k], p')"
    using Suc.IH [of ?p "j + 1"] Suc.prems by (auto simp: mod_Suc_eq)
  moreover have "map (\<lambda>i. (j + i) mod n) [0..<Suc k] = j mod n # map (\<lambda>i. (j + 1 + i) mod n) [0..<k]"
    by (simp add: upt_conv_Cons map_Suc_upt [symmetric] o_def del: upt_Suc)
  ultimately show ?case by simp
qed

lemma stop_works_returns:
  assumes "\<forall>i\<in>set is. i < length (works p)" and "distinct is"
    and "stops \<longrightarrow> (\<forall>i\<in>set is. works p ! i)"
  shows "stop_works stops is p =
    Inr (p\<lparr>ioServices := fold (\<lambda>i xs. if stops then xs[i := True] else xs) is (ioServices p),
           works := fold (\<lambda>i xs. xs[i := False]) is (works p)\<rparr>)"
  using assms
proof (induction "is" arbitrary: p)
  case Nil
  then show ?case by simp
next
  case (Cons i "is")
  let ?p = "(if stops then stop_service i p else p)\<lparr>works := (works p)[i := False]\<rparr>"
  have "stop_works stops is ?p = Inr (?p\<lparr>
      ioServices := fold (\<lambda>i xs. if stops then xs[i := True] else xs) is (ioServices ?p),
      works := fold (\<lambda>i xs. xs[i := False]) is (works ?p)\<rparr>)"
    using Cons.prems by (intro Cons.IH) (auto simp: nth_list_update)
  then show ?case using Cons.prems by (auto simp: stop_service_def)
qed

lemma fold_update_all:
  "n \<le> length xs \<Longrightarrow> fold (\<lambda>i xs. xs[i := c]) [0..<n] xs = replicate n c @ drop n xs"
proof (induction n)
  case (Suc n)
  then show ?case
    by (simp add: list_update_append replicate_append_same Cons_nth_drop_Suc [symmetric])
qed simp

lemma join_threads_returns:
  assumes "\<forall>i\<in>set is. i < length (pool_threads p)" and "distinct is"
  shows "join_threads outstanding is p =
    (if \<forall>i\<in>set is. pool_threads p ! i \<longrightarrow> run_returns outstanding p i
     then Some (p\<lparr>pool_threads := fold (\<lambda>i xs. xs[i := False]) is (pool_threads p)\<rparr>) else None)"
  using assms
proof (induction "is" arbitrary: p)
  case Nil
  then show ?case by simp
next
  case (Cons i "is")
  let ?p = "p\<lparr>pool_threads := (pool_threads p)[i := False]\<rparr>"
  have rr: "run_returns outstanding ?p j = run_returns outstanding p j" for j
    by (simp add: run_returns_def)
  have same: "(pool_threads p)[i := False] ! j = pool_threads p ! j" if "j \<in> set is" for j
    using Cons.prems that by (auto simp: nth_list_update)
  have upd: "(pool_threads p)[i := False] = pool_threads p" if "\<not> pool_threads p ! i"
    using that Cons.prems(1) by (metis list_update_id)
  show ?case
    using Cons.IH [of ?p] Cons.IH [of p] Cons.prems upd
    by (auto simp: rr same)
qed

lemma fold_same: "fold (\<lambda>i xs. xs) is xs = xs"
  by (induction "is") simp_all

text \<open>A pool after \<open>Stop\<close>: no guard, every thread joined, the contexts stopped or not.\<close>

definition stopped_pool :: "bool \<Rightarrow> nat \<Rightarrow> io_pool" where
  "stopped_pool b n = \<lparr>ioServices = replicate n b, works = replicate n False,
     pool_threads = replicate n False, next_service = 0\<rparr>"

subsection \<open>Properties\<close>

text \<open>
  A pool of \<open>n > 0\<close> contexts hands them out in turn: the \<open>k\<close>-th call returns context
  \<open>k mod n\<close>, so every \<open>n\<close> calls in a row reach every context exactly once.
\<close>
lemma IOServicePool_round_robin:
  assumes "0 < n"
  shows "\<exists>p. get_services k (IOServicePool n) = Inr (map (\<lambda>i. i mod n) [0..<k], p)"
  using get_services_from [of "IOServicePool n" n 0 k] assms by (simp add: IOServicePool_def)

text \<open>
  Stopping a running pool. The FTP server's \<open>Stop\<close> stops every context first, so it joins
  every thread whatever operations are outstanding; the other server's only drops the work guards,
  so it returns exactly when no context has outstanding operations and otherwise waits for ever.
  A second \<open>Stop\<close> of the FTP pool dereferences the guards the first one reset.
\<close>
lemma IOServicePool_Stop_joins:
  "ftp_pool_Stop outstanding (IOServicePool n) = Inr (Some (stopped_pool True n)) \<and>
   async_pool_Stop outstanding (IOServicePool n) =
     Inr (if \<exists>i<n. outstanding i then None else Some (stopped_pool False n)) \<and>
   ftp_pool_Stop outstanding (stopped_pool True n) =
     (if n = 0 then Inr (Some (stopped_pool True n)) else Inl Null_deref)"
proof -
  let ?all = "\<lambda>b. \<lparr>ioServices = replicate n b, works = replicate n False,
    pool_threads = replicate n True, next_service = 0\<rparr>"
  have upd: "fold (\<lambda>i xs. xs[i := c]) [0..<n] (replicate n d) = replicate n c" for c d :: bool
    using fold_update_all [of n "replicate n d" c] by simp
  have works: "stop_works b [0..<n] (IOServicePool n) = Inr (?all b)" for b
    using stop_works_returns [of "[0..<n]" "IOServicePool n" b]
    by (cases b) (simp_all add: IOServicePool_def upd fold_same)
  have join: "join_threads outstanding [0..<n] (?all b) =
      (if b \<or> \<not> (\<exists>i<n. outstanding i) then Some (stopped_pool b n) else None)" for b
    using join_threads_returns [of "[0..<n]" "?all b" outstanding]
    by (auto simp: run_returns_def upd stopped_pool_def)
  have again: "stop_works True [0..<n] (stopped_pool True n) =
      (if n = 0 then Inr (stopped_pool True n) else Inl Null_deref)"
    by (cases n) (simp_all add: upt_conv_Cons stopped_pool_def del: upt_Suc)
  show ?thesis
    using works [of True] works [of False] join [of True] join [of False] again
    by (auto simp: ftp_pool_Stop_def async_pool_Stop_def IOServicePool_Stop_def
        IOServicePool_def stopped_pool_def)
qed

end
