(* ===== verification/Ftp_Session.thy ===== *)
theory Ftp_Session
  imports Ftp_Msg_Node Registries Io_Pool
begin

text \<open>
  A client session of the FTP server, \<open>src/src/05_ftp/Session.cpp\<close> and \<open>Session.h\<close>, over the
  server state its handlers change. Sessions and received nodes are objects in a store, so that
  the node a session is reading into and the node a queued message refers to can be the same one.
  A session's coroutine is its program counter \<open>phase\<close>; a handler of the callback version and a
  resumption of the coroutine are each one function from the state before to the state after.

  The build defines both \<open>USE_IOSERVICE_POOL\<close> and \<open>USE_COROUTINE\<close> (C++20); the callback version
  is modelled beside the coroutine and compared with it. Log lines are left out: they have no
  effect on the state. An allocation that fails (\<open>std::bad_alloc\<close>) is left out as well.

  Of \<open>boost::asio\<close> the model uses the contract of \<open>async_read\<close>: it completes with exactly as
  many bytes as the buffer has (none for an empty buffer), or it fails.
\<close>

subsection \<open>State\<close>

datatype co_phase = Not_started | Reading_head | Reading_body | Finished

record session =
  ses_id :: string
  ses_ioc :: nat                       \<comment> \<open>the pool context the session runs on\<close>
  sock_open :: bool
  sendQueue :: "msg_node list"
  writing :: "msg_node option"         \<comment> \<open>the node of the outstanding \<open>async_write\<close>\<close>
  recvHead :: msg_node
  recvMsg :: "addr option"             \<comment> \<open>\<open>_recvMsgNode\<close>, null before the first body\<close>
  phase :: co_phase

text \<open>A message for the logic system: the session it came from (\<open>_session\<close>, a reference that keeps it
  alive) and the received node (\<open>_recvNode\<close>).\<close>

type_synonym logic_node = "addr \<times> addr"

record ftp_world =
  sessions :: "addr \<rightharpoonup> session"        \<comment> \<open>the live session objects\<close>
  next_session :: addr
  nodes :: "addr \<rightharpoonup> msg_node"          \<comment> \<open>the received message nodes\<close>
  next_node :: addr
  session_table :: session_table       \<comment> \<open>\<open>Server::_sessions\<close>\<close>
  accepting :: "addr option"           \<comment> \<open>the session of the outstanding \<open>async_accept\<close>\<close>
  msgQueue :: "logic_node list"        \<comment> \<open>\<open>LogicSystem::_msgQueue\<close>\<close>
  pool :: io_pool
  files :: "string \<rightharpoonup> string"          \<comment> \<open>the file system the uploads are written to\<close>

datatype read_result = Read_failed | Read_bytes bytes

definition upd_session :: "addr \<Rightarrow> (session \<Rightarrow> session) \<Rightarrow> ftp_world \<Rightarrow> ftp_world" where
  "upd_session a f w = w\<lparr>sessions := (sessions w)(a := map_option f (sessions w a))\<rparr>"

definition upd_node :: "addr \<Rightarrow> msg_node \<Rightarrow> ftp_world \<Rightarrow> ftp_world" where
  "upd_node m n w = w\<lparr>nodes := (nodes w)(m \<mapsto> n)\<rparr>"

text \<open>\<open>_server->RemoveSession(_id)\<close>\<close>

definition remove_from_server :: "addr \<Rightarrow> ftp_world \<Rightarrow> ftp_world" where
  "remove_from_server a w =
     (case sessions w a of None \<Rightarrow> w
      | Some s \<Rightarrow> w\<lparr>session_table := RemoveSession (ses_id s) (session_table w)\<rparr>)"

subsection \<open>Construction, clearing, stopping\<close>

definition Session :: "string \<Rightarrow> nat \<Rightarrow> session" where
  "Session uuid ioc =
     \<lparr>ses_id = uuid, ses_ioc = ioc, sock_open = False, sendQueue = [], writing = None,
      recvHead = RecvNode (of_nat HEAD_TOTAL_LEN) (- 1), recvMsg = None, phase = Not_started\<rparr>"

definition ClearHead :: "addr \<Rightarrow> ftp_world \<Rightarrow> ftp_world" where
  "ClearHead a w = upd_session a (\<lambda>s. s\<lparr>recvHead := node_Clear (recvHead s)\<rparr>) w"

definition ClearMsg :: "addr \<Rightarrow> ftp_world \<Rightarrow> ftp_world" where
  "ClearMsg a w =
     (case Option.bind (sessions w a) recvMsg of None \<Rightarrow> w
      | Some m \<Rightarrow> w\<lparr>nodes := (nodes w)(m := map_option node_Clear (nodes w m))\<rparr>)"

definition Clear :: "addr \<Rightarrow> ftp_world \<Rightarrow> ftp_world" where
  "Clear a w = ClearMsg a (ClearHead a w)"

definition session_Stop :: "addr \<Rightarrow> ftp_world \<Rightarrow> ftp_world" where
  "session_Stop a w = upd_session a (\<lambda>s. s\<lparr>sock_open := False\<rparr>) w"

text \<open>\<open>Start\<close>: clear, then spawn the coroutine, whose first step is the read of a head.\<close>

definition Start :: "addr \<Rightarrow> ftp_world \<Rightarrow> ftp_world" where
  "Start a w = upd_session a (\<lambda>s. s\<lparr>phase := Reading_head\<rparr>) (Clear a w)"

text \<open>The destructor stops the context the session ran on, closes the socket and erases the
  session from the server's table; the object is gone afterwards.\<close>

definition Session_dtor :: "addr \<Rightarrow> ftp_world \<Rightarrow> ftp_world" where
  "Session_dtor a w =
     (case sessions w a of None \<Rightarrow> w
      | Some s \<Rightarrow>
          let w = Clear a w;
              w = (if \<not> ioServices (pool w) ! ses_ioc s
                   then w\<lparr>pool := stop_service (ses_ioc s) (pool w)\<rparr> else w);
              w = upd_session a (\<lambda>s. s\<lparr>sock_open := False\<rparr>) w;
              w = remove_from_server a w
          in w\<lparr>sessions := (sessions w)(a := None)\<rparr>)"

text \<open>Who owns a session: the server's table, its coroutine, a handler of an outstanding write,
  a queued message, the outstanding accept. The last owner's release runs the destructor.\<close>

definition owned :: "addr \<Rightarrow> ftp_world \<Rightarrow> bool" where
  "owned a w =
     (a \<in> snd ` set (session_table w) \<or> a \<in> fst ` set (msgQueue w) \<or> accepting w = Some a \<or>
      (case sessions w a of None \<Rightarrow> False
       | Some s \<Rightarrow> phase s = Reading_head \<or> phase s = Reading_body \<or> writing s \<noteq> None))"

definition release :: "addr \<Rightarrow> ftp_world \<Rightarrow> ftp_world" where
  "release a w = (if owned a w then w else Session_dtor a w)"

subsection \<open>Sending\<close>

definition send_room :: "session \<Rightarrow> bool" where
  "send_room s = (length (sendQueue s) < MAX_SEND_QUEUE_LEN)"

text \<open>Pushing a node, and starting the write of the front when no write was pending.\<close>

definition push_node :: "msg_node \<Rightarrow> session \<Rightarrow> session" where
  "push_node n s =
     (let pending = (sendQueue s \<noteq> []);
          s = s\<lparr>sendQueue := sendQueue s @ [n]\<rparr>
      in if pending then s else s\<lparr>writing := Some (hd (sendQueue s))\<rparr>)"

definition Send :: "net_ops \<Rightarrow> bytes \<Rightarrow> u32 \<Rightarrow> u16 \<Rightarrow> session \<Rightarrow> fault + session" where
  "Send net msg total_len msg_id s =
     (if MAX_SEND_QUEUE_LEN \<le> length (sendQueue s) then Inr s
      else and_then (SendNode net msg total_len msg_id) (\<lambda>n. Inr (push_node n s)))"

text \<open>The overload for a \<open>string_view\<close>: its \<open>size_t\<close> length is narrowed to 32 bits.\<close>

definition Send_view :: "net_ops \<Rightarrow> string \<Rightarrow> u16 \<Rightarrow> session \<Rightarrow> fault + session" where
  "Send_view net msg msg_id s = Send net (bytes_of msg) (of_nat (length msg)) msg_id s"

text \<open>The completion of a write: pop the node that was written, start the next.\<close>

definition write_next :: "session \<Rightarrow> session" where
  "write_next s =
     (let s = s\<lparr>sendQueue := tl (sendQueue s)\<rparr>
      in if sendQueue s \<noteq> [] then s\<lparr>writing := Some (hd (sendQueue s))\<rparr> else s\<lparr>writing := None\<rparr>)"

definition write_failed :: "session \<Rightarrow> session" where
  "write_failed s = s\<lparr>writing := None\<rparr>"

definition HandlerWrite :: "addr \<Rightarrow> bool \<Rightarrow> ftp_world \<Rightarrow> fault + ftp_world" where
  "HandlerWrite a ec w =
     (if ec then Inr (remove_from_server a (upd_session a write_failed w))
      else case sessions w a of
             None \<Rightarrow> Inl Null_deref
           | Some s \<Rightarrow> (if sendQueue s = [] then Inl Empty_pop else Inr (upd_session a write_next w)))"

subsection \<open>Receiving\<close>

definition PraseHead :: "net_ops \<Rightarrow> addr \<Rightarrow> ftp_world \<Rightarrow> fault + ftp_world" where
  "PraseHead net a w =
     (case sessions w a of None \<Rightarrow> Inl Null_deref
      | Some s \<Rightarrow>
          and_then (head_id net (recvHead s)) (\<lambda>MsgId.
          and_then (head_len net (recvHead s)) (\<lambda>validDataLen.
          if MAX_LEN < validDataLen
          then Inr (remove_from_server a (ClearHead a w))
          else Inr (upd_session a (\<lambda>s. s\<lparr>recvMsg := Some (next_node w)\<rparr>)
                 (w\<lparr>nodes := (nodes w)(next_node w \<mapsto> RecvNode validDataLen MsgId),
                    next_node := next_node w + 1\<rparr>)))))"

text \<open>\<open>LogicSystem::PostMsgToQue\<close>\<close>

definition PostMsgToQue :: "logic_node \<Rightarrow> ftp_world \<Rightarrow> ftp_world" where
  "PostMsgToQue logicNode w =
     (if MAX_RECV_QUEUE_LEN \<le> length (msgQueue w) then w
      else w\<lparr>msgQueue := msgQueue w @ [logicNode]\<rparr>)"

text \<open>The received node of a session, dereferenced.\<close>

definition recv_node :: "addr \<Rightarrow> ftp_world \<Rightarrow> fault + (addr \<times> msg_node)" where
  "recv_node a w =
     (case Option.bind (sessions w a) recvMsg of None \<Rightarrow> Inl Null_deref
      | Some m \<Rightarrow> (case nodes w m of None \<Rightarrow> Inl Null_deref | Some n \<Rightarrow> Inr (m, n)))"

definition PraseMsg :: "addr \<Rightarrow> ftp_world \<Rightarrow> fault + ftp_world" where
  "PraseMsg a w =
     and_then (recv_node a w) (\<lambda>(m, n).
     and_then (node_write (unat (totalLen n)) [0] n) (\<lambda>n.
     Inr (PostMsgToQue (a, m) (upd_node m n w))))"

text \<open>What a completed read has put into the buffer it was given.\<close>

definition fill_head :: "addr \<Rightarrow> bytes \<Rightarrow> ftp_world \<Rightarrow> fault + ftp_world" where
  "fill_head a bs w =
     (case sessions w a of None \<Rightarrow> Inl Null_deref
      | Some s \<Rightarrow> and_then (node_write 0 bs (recvHead s)) (\<lambda>h.
          Inr (upd_session a (\<lambda>s. s\<lparr>recvHead := h\<rparr>) w)))"

definition fill_body :: "addr \<Rightarrow> bytes \<Rightarrow> ftp_world \<Rightarrow> fault + ftp_world" where
  "fill_body a bs w =
     and_then (recv_node a w) (\<lambda>(m, n).
     and_then (node_write 0 bs n) (\<lambda>n. Inr (upd_node m n w)))"

text \<open>Starting a read: the arguments \<open>_recvMsgNode->Data()\<close> and \<open>TotalLen()\<close> are evaluated here.\<close>

definition read_head :: "addr \<Rightarrow> ftp_world \<Rightarrow> ftp_world" where
  "read_head a w = upd_session a (\<lambda>s. s\<lparr>phase := Reading_head\<rparr>) w"

definition read_body :: "addr \<Rightarrow> ftp_world \<Rightarrow> fault + ftp_world" where
  "read_body a w =
     and_then (recv_node a w) (\<lambda>_. Inr (upd_session a (\<lambda>s. s\<lparr>phase := Reading_body\<rparr>) w))"

definition finish :: "addr \<Rightarrow> ftp_world \<Rightarrow> ftp_world" where
  "finish a w = upd_session a (\<lambda>s. s\<lparr>phase := Finished\<rparr>) w"

text \<open>The coroutine: one resumption per completed read. A failed read is an exception, caught
  around the loop; a read of no bytes is taken for a disconnected client.\<close>

definition co_disconnected :: "addr \<Rightarrow> ftp_world \<Rightarrow> ftp_world" where
  "co_disconnected a w = finish a (remove_from_server a (ClearHead a w))"

definition co_catch :: "addr \<Rightarrow> ftp_world \<Rightarrow> ftp_world" where
  "co_catch a w = finish a (remove_from_server a (Clear a w))"

fun co_head :: "net_ops \<Rightarrow> addr \<Rightarrow> read_result \<Rightarrow> ftp_world \<Rightarrow> fault + ftp_world" where
  "co_head net a Read_failed w = Inr (co_catch a w)"
| "co_head net a (Read_bytes bs) w =
     (if bs = [] then Inr (co_disconnected a w)
      else and_then (fill_head a bs w) (\<lambda>w.
           and_then (PraseHead net a w) (\<lambda>w.
           read_body a w)))"

fun co_body :: "addr \<Rightarrow> read_result \<Rightarrow> ftp_world \<Rightarrow> fault + ftp_world" where
  "co_body a Read_failed w = Inr (co_catch a w)"
| "co_body a (Read_bytes bs) w =
     (if bs = [] then Inr (co_disconnected a w)
      else and_then (fill_body a bs w) (\<lambda>w.
           and_then (PraseMsg a w) (\<lambda>w.
           Inr (read_head a w))))"

definition co_step :: "net_ops \<Rightarrow> addr \<Rightarrow> read_result \<Rightarrow> ftp_world \<Rightarrow> fault + ftp_world" where
  "co_step net a r w =
     (case sessions w a of None \<Rightarrow> Inl Null_deref
      | Some s \<Rightarrow>
         (case phase s of Reading_head \<Rightarrow> co_head net a r w
          | Reading_body \<Rightarrow> co_body a r w
          | _ \<Rightarrow> Inr w))"

text \<open>The callback version of the same loop.\<close>

fun HandlerReadHead :: "net_ops \<Rightarrow> addr \<Rightarrow> read_result \<Rightarrow> ftp_world \<Rightarrow> fault + ftp_world" where
  "HandlerReadHead net a Read_failed w = Inr (finish a (remove_from_server a (ClearHead a w)))"
| "HandlerReadHead net a (Read_bytes bs) w =
     and_then (fill_head a bs w) (\<lambda>w.
     and_then (PraseHead net a w) (\<lambda>w.
     read_body a w))"

fun HandlerReadMsg :: "addr \<Rightarrow> read_result \<Rightarrow> ftp_world \<Rightarrow> fault + ftp_world" where
  "HandlerReadMsg a Read_failed w = Inr (finish a (remove_from_server a (ClearMsg a w)))"
| "HandlerReadMsg a (Read_bytes bs) w =
     and_then (fill_body a bs w) (\<lambda>w.
     and_then (PraseMsg a w) (\<lambda>w.
     Inr (read_head a w)))"

definition callback_step :: "net_ops \<Rightarrow> addr \<Rightarrow> read_result \<Rightarrow> ftp_world \<Rightarrow> fault + ftp_world" where
  "callback_step net a r w =
     (case sessions w a of None \<Rightarrow> Inl Null_deref
      | Some s \<Rightarrow>
         (case phase s of Reading_head \<Rightarrow> HandlerReadHead net a r w
          | Reading_body \<Rightarrow> HandlerReadMsg a r w
          | _ \<Rightarrow> Inr w))"

text \<open>How many bytes the outstanding read of a session waits for.\<close>

definition read_size :: "addr \<Rightarrow> ftp_world \<Rightarrow> nat" where
  "read_size a w =
     (case sessions w a of None \<Rightarrow> 0
      | Some s \<Rightarrow>
         (case phase s of Reading_head \<Rightarrow> HEAD_TOTAL_LEN
          | Reading_body \<Rightarrow> (case recv_node a w of Inl _ \<Rightarrow> 0 | Inr (m, n) \<Rightarrow> unat (totalLen n))
          | _ \<Rightarrow> 0))"

definition read_fits :: "addr \<Rightarrow> ftp_world \<Rightarrow> read_result \<Rightarrow> bool" where
  "read_fits a w r = (case r of Read_failed \<Rightarrow> True | Read_bytes bs \<Rightarrow> length bs = read_size a w)"

end
