(* ===== verification/Ftp_Session_Props.thy ===== *)
theory Ftp_Session_Props
  imports Ftp_Session
begin

text \<open>
  What \<open>Ftp_Session\<close> guarantees: the send queue as a \<open>write_pump\<close>, the frames on the
  connection, the frames read back message by message, the one fault a coroutine can run into,
  the difference between the coroutine and the callbacks, and the shared node behind an
  announced length that is too large.
\<close>

subsection \<open>Reading and writing the store\<close>

lemma sessions_upd_session [simp]:
  "sessions (upd_session a f w) b = (if b = a then map_option f (sessions w a) else sessions w b)"
  by (simp add: upd_session_def)

lemma upd_session_frame [simp]:
  "nodes (upd_session a f w) = nodes w" "next_node (upd_session a f w) = next_node w"
  "session_table (upd_session a f w) = session_table w" "msgQueue (upd_session a f w) = msgQueue w"
  "pool (upd_session a f w) = pool w" "files (upd_session a f w) = files w"
  "accepting (upd_session a f w) = accepting w" "next_session (upd_session a f w) = next_session w"
  by (simp_all add: upd_session_def)

lemma upd_session_upd_session [simp]:
  "upd_session a g (upd_session a f w) = upd_session a (\<lambda>s. g (f s)) w"
  by (auto simp: upd_session_def fun_eq_iff option.map_comp o_def)

lemma upd_session_swap:
  "upd_session a f (w\<lparr>nodes := ns, next_node := k\<rparr>) = (upd_session a f w)\<lparr>nodes := ns, next_node := k\<rparr>"
  by (simp add: upd_session_def)

lemma upd_node_frame [simp]:
  "nodes (upd_node m n w) = (nodes w)(m \<mapsto> n)" "next_node (upd_node m n w) = next_node w"
  "session_table (upd_node m n w) = session_table w" "msgQueue (upd_node m n w) = msgQueue w"
  "pool (upd_node m n w) = pool w" "files (upd_node m n w) = files w"
  "accepting (upd_node m n w) = accepting w" "next_session (upd_node m n w) = next_session w"
  "sessions (upd_node m n w) = sessions w"
  by (simp_all add: upd_node_def)

lemma remove_from_server_frame [simp]:
  "nodes (remove_from_server a w) = nodes w" "next_node (remove_from_server a w) = next_node w"
  "sessions (remove_from_server a w) = sessions w" "msgQueue (remove_from_server a w) = msgQueue w"
  "pool (remove_from_server a w) = pool w" "files (remove_from_server a w) = files w"
  "accepting (remove_from_server a w) = accepting w"
  "next_session (remove_from_server a w) = next_session w"
  by (simp_all add: remove_from_server_def split: option.splits)

lemma session_table_remove:
  "session_table (remove_from_server a w) =
     (case sessions w a of None \<Rightarrow> session_table w | Some s \<Rightarrow> RemoveSession (ses_id s) (session_table w))"
  by (simp add: remove_from_server_def split: option.splits)

lemma ClearMsg_frame [simp]:
  "next_node (ClearMsg a w) = next_node w"
  "sessions (ClearMsg a w) = sessions w" "msgQueue (ClearMsg a w) = msgQueue w"
  "pool (ClearMsg a w) = pool w" "files (ClearMsg a w) = files w"
  "accepting (ClearMsg a w) = accepting w" "session_table (ClearMsg a w) = session_table w"
  "next_session (ClearMsg a w) = next_session w"
  by (simp_all add: ClearMsg_def split: option.splits)

lemma PostMsgToQue_frame [simp]:
  "nodes (PostMsgToQue x w) = nodes w" "next_node (PostMsgToQue x w) = next_node w"
  "sessions (PostMsgToQue x w) = sessions w" "session_table (PostMsgToQue x w) = session_table w"
  "pool (PostMsgToQue x w) = pool w" "files (PostMsgToQue x w) = files w"
  "accepting (PostMsgToQue x w) = accepting w" "next_session (PostMsgToQue x w) = next_session w"
  by (simp_all add: PostMsgToQue_def)

lemma msgQueue_Post:
  "msgQueue (PostMsgToQue x w) =
     (if length (msgQueue w) < MAX_RECV_QUEUE_LEN then msgQueue w @ [x] else msgQueue w)"
  by (simp add: PostMsgToQue_def)

lemmas world_frames = upd_session_frame upd_node_frame remove_from_server_frame ClearMsg_frame
  PostMsgToQue_frame

subsection \<open>The send queue\<close>

definition submit_node :: "msg_node \<Rightarrow> session \<Rightarrow> session" where
  "submit_node n s = (if send_room s then push_node n s else s)"

interpretation session_pump: write_pump sendQueue send_room submit_node write_next writing write_failed
  by unfold_locales
     (auto simp: submit_node_def push_node_def write_next_def write_failed_def send_room_def
       MAX_SEND_QUEUE_LEN_def Let_def split: list.splits)

lemma Send_submit:
  assumes "send_room s \<Longrightarrow> SendNode net msg n i = Inr node"
  shows "Send net msg n i s = Inr (submit_node node s)"
  using assms by (simp add: Send_def submit_node_def send_room_def not_less)

lemma Send_faults_only_in_SendNode:
  "Send net msg n i s = Inl e \<Longrightarrow> SendNode net msg n i = Inl e"
  by (auto simp: Send_def fault_iffs split: if_splits)

text \<open>Sending a list of messages, and letting the outstanding writes complete one after the
  other, collecting what they put on the connection.\<close>

definition send_all :: "net_ops \<Rightarrow> (u16 \<times> string) list \<Rightarrow> session \<Rightarrow> fault + session" where
  "send_all net ms s = fold_steps (\<lambda>(i, msg). Send_view net msg i) ms s"

fun drain :: "nat \<Rightarrow> session \<Rightarrow> fault + (bytes \<times> session)" where
  "drain 0 s = Inr ([], s)"
| "drain (Suc k) s =
     (case writing s of None \<Rightarrow> Inr ([], s)
      | Some n \<Rightarrow> and_then (wire n) (\<lambda>bs. and_then (drain k (write_next s)) (\<lambda>(rest, s). Inr (bs @ rest, s))))"

definition frame_node :: "u16 \<Rightarrow> bytes \<Rightarrow> msg_node" where
  "frame_node i msg = \<lparr>curLen = 0, totalLen = of_nat (length msg) + 6,
     node_data = map Some (frame i msg @ [0]), msgId = i\<rparr>"

lemma wire_frame_node:
  assumes "length msg + 7 < 2 ^ 32"
  shows "wire (frame_node i msg) = Inr (frame i msg)"
proof -
  have "unat (of_nat (length msg) + 6 :: u32) = length msg + 6"
    using assms unat_of_nat [where 'a = 32, of "length msg + 6"] by simp
  then show ?thesis
    by (intro wire_of_data [where rest = "[0]"]) (simp_all add: frame_node_def)
qed

lemma Send_view_frame:
  assumes "network_order net" and "length msg + 7 < 2 ^ 32"
  shows "Send_view net msg i s = Inr (submit_node (frame_node i (bytes_of msg)) s)"
  unfolding Send_view_def
  using SendNode_data [OF assms(1), of "bytes_of msg" i] assms(2)
  by (intro Send_submit) (simp add: frame_node_def)

lemma push_node_queue [simp]: "sendQueue (push_node n s) = sendQueue s @ [n]"
  by (simp add: push_node_def Let_def)

lemma send_all_queue:
  assumes "network_order net" and "\<forall>(i, msg)\<in>set ms. length msg + 7 < 2 ^ 32"
    and "length (sendQueue s) + length ms \<le> MAX_SEND_QUEUE_LEN"
    and "pump_ok sendQueue writing s"
  shows "\<exists>s'. send_all net ms s = Inr s' \<and> pump_ok sendQueue writing s' \<and>
    sendQueue s' = sendQueue s @ map (\<lambda>(i, msg). frame_node i (bytes_of msg)) ms"
  using assms(2-)
proof (induction ms arbitrary: s)
  case Nil
  then show ?case by (simp add: send_all_def)
next
  case (Cons m ms)
  obtain i msg where m: "m = (i, msg)" by force
  let ?s = "submit_node (frame_node i (bytes_of msg)) s"
  have "sendQueue ?s = sendQueue s @ [frame_node i (bytes_of msg)]"
    using Cons.prems(2) by (simp add: submit_node_def send_room_def)
  moreover have "pump_ok sendQueue writing ?s"
    using Cons.prems(3) by (rule session_pump.pump_ok_submit)
  ultimately obtain s' where "send_all net ms ?s = Inr s'" "pump_ok sendQueue writing s'"
    "sendQueue s' = sendQueue s @ map (\<lambda>(i, msg). frame_node i (bytes_of msg)) (m # ms)"
    using Cons.IH [of ?s] Cons.prems m by auto
  moreover have "Send_view net msg i s = Inr ?s"
    using Cons.prems(1) m by (intro Send_view_frame assms(1)) auto
  ultimately show ?case by (simp add: send_all_def m)
qed

lemma drain_queue:
  assumes "pump_ok sendQueue writing s" and "\<forall>n\<in>set (sendQueue s). wire n = Inr (f n)"
    and "length (sendQueue s) \<le> k"
  shows "\<exists>s'. drain k s = Inr (concat (map f (sendQueue s)), s') \<and> sendQueue s' = [] \<and> writing s' = None"
  using assms
proof (induction k arbitrary: s)
  case 0
  then show ?case by (simp add: pump_ok_def)
next
  case (Suc k)
  show ?case
  proof (cases "sendQueue s")
    case Nil
    with Suc.prems show ?thesis by (simp add: pump_ok_def)
  next
    case (Cons n q)
    have q: "sendQueue (write_next s) = q" using Cons by (simp add: write_next_def Let_def)
    have "pump_ok sendQueue writing (write_next s)"
      using Cons by (intro session_pump.pump_ok_serve) simp
    then obtain s' where "drain k (write_next s) = Inr (concat (map f q), s')" "sendQueue s' = []"
      "writing s' = None"
      using Suc.IH [of "write_next s"] Suc.prems Cons q by auto
    moreover have "writing s = Some n" using Suc.prems(1) Cons by (simp add: pump_ok_def)
    ultimately show ?thesis using Suc.prems(2) Cons by simp
  qed
qed

subsection \<open>One frame in\<close>

definition head_ok :: "session \<Rightarrow> bool" where
  "head_ok s = (node_ok (recvHead s) \<and> totalLen (recvHead s) = 6)"

lemma fill_head_frame:
  assumes "sessions w a = Some s" and "head_ok s" and "length hdr = 6"
  shows "\<exists>h. fill_head a hdr w = Inr (upd_session a (\<lambda>s. s\<lparr>recvHead := h\<rparr>) w) \<and>
    node_ok h \<and> totalLen h = 6 \<and> (\<exists>rest. node_data h = map Some hdr @ rest)"
proof -
  have "node_ok (recvHead s)" "0 + length hdr \<le> unat (totalLen (recvHead s)) + 1"
    using assms(2,3) by (simp_all add: head_ok_def)
  note w = node_write_fits [OF this]
  from node_write_ok [OF w] assms w show ?thesis
    by (auto simp: fill_head_def head_ok_def)
qed

lemma co_step_head:
  assumes net: "network_order net" and s: "sessions w a = Some s" "phase s = Reading_head" "head_ok s"
    and len: "of_nat (length msg) \<le> MAX_LEN"
  shows "\<exists>h. co_step net a (Read_bytes (take 6 (frame i msg))) w =
      Inr (upd_session a (\<lambda>s. s\<lparr>recvHead := h, recvMsg := Some (next_node w), phase := Reading_body\<rparr>)
        (w\<lparr>nodes := (nodes w)(next_node w \<mapsto> RecvNode (of_nat (length msg)) i),
           next_node := next_node w + 1\<rparr>)) \<and> node_ok h \<and> totalLen h = 6"
proof -
  let ?hdr = "take 6 (frame i msg)"
  have "length ?hdr = 6" by simp
  from fill_head_frame [OF s(1,3) this] obtain h rest where
    h: "fill_head a ?hdr w = Inr (upd_session a (\<lambda>s. s\<lparr>recvHead := h\<rparr>) w)" "node_ok h" "totalLen h = 6"
    and d: "node_data h = map Some ?hdr @ rest" by blast
  have ne: "?hdr \<noteq> []" by (simp add: frame_def be16_def)
  note f = head_fields [OF net d]
  let ?w = "upd_session a (\<lambda>s. s\<lparr>recvHead := h\<rparr>) w"
  let ?n = "RecvNode (of_nat (length msg)) i"
  let ?w1 = "upd_session a (\<lambda>s. s\<lparr>recvHead := h, recvMsg := Some (next_node w)\<rparr>)
    (w\<lparr>nodes := (nodes w)(next_node w \<mapsto> ?n), next_node := next_node w + 1\<rparr>)"
  have prase: "PraseHead net a ?w = Inr ?w1"
    using s(1) f len by (simp add: PraseHead_def not_less upd_session_swap)
  have "recv_node a ?w1 = Inr (next_node w, ?n)" using s(1) by (simp add: recv_node_def)
  then have "read_body a ?w1 = Inr (upd_session a (\<lambda>s. s\<lparr>phase := Reading_body\<rparr>) ?w1)"
    by (simp add: read_body_def)
  with prase s(1,2) ne h show ?thesis
    by (intro exI [of _ h]) (simp add: co_step_def)
qed

lemma co_step_body:
  assumes "sessions w a = Some s" "phase s = Reading_body" "recvMsg s = Some m"
    and "nodes w m = Some n" "node_ok n" "length bs = unat (totalLen n)" "bs \<noteq> []"
  shows "co_step net a (Read_bytes bs) w =
    Inr (read_head a (PostMsgToQue (a, m) (upd_node m (n\<lparr>node_data := map Some (bs @ [0])\<rparr>) w)))"
proof -
  let ?n = "n\<lparr>node_data := map Some bs @ drop (length bs) (node_data n)\<rparr>"
  have w1: "node_write 0 bs n = Inr ?n"
    using node_write_fits [of n 0 bs] assms by simp
  have ok: "node_ok ?n" using node_write_ok [OF w1] assms by simp
  have "length (drop (length bs) (node_data n)) = 1"
    using assms by (simp add: node_ok_def)
  then obtain x where x: "drop (length bs) (node_data n) = [x]"
    by (cases "drop (length bs) (node_data n)") auto
  have w2: "node_write (unat (totalLen ?n)) [0] ?n = Inr (n\<lparr>node_data := map Some (bs @ [0])\<rparr>)"
    using node_write_fits [OF ok, of "unat (totalLen n)" "[0]"] assms x by (simp add: node_ok_def)
  show ?thesis
    using assms w1 w2
    by (simp add: co_step_def fill_body_def recv_node_def PraseMsg_def upd_node_def)
qed

subsection \<open>A stream of frames in\<close>

text \<open>Feeding a session a stream of bytes: every outstanding read takes what it waits for, as long
  as the stream holds that much.\<close>

fun feed :: "net_ops \<Rightarrow> addr \<Rightarrow> nat \<Rightarrow> bytes \<Rightarrow> ftp_world \<Rightarrow> fault + (bytes \<times> ftp_world)" where
  "feed net a 0 bs w = Inr (bs, w)"
| "feed net a (Suc k) bs w =
     (let n = read_size a w in
      if n \<le> length bs
      then and_then (co_step net a (Read_bytes (take n bs)) w) (\<lambda>w. feed net a k (drop n bs) w)
      else Inr (bs, w))"

text \<open>A queued message holds an id and a body.\<close>

definition holds_msg :: "ftp_world \<Rightarrow> addr \<Rightarrow> u16 \<times> bytes \<Rightarrow> addr \<times> addr \<Rightarrow> bool" where
  "holds_msg w a im x =
     (fst x = a \<and> (\<exists>n. nodes w (snd x) = Some n \<and> msgId n = fst im \<and>
        totalLen n = of_nat (length (snd im)) \<and> node_data n = map Some (snd im @ [0])))"

definition idle :: "addr \<Rightarrow> ftp_world \<Rightarrow> bool" where
  "idle a w = (\<exists>s. sessions w a = Some s \<and> phase s = Reading_head \<and> head_ok s)"

lemma MAX_LEN_unat: "of_nat (length msg) \<le> MAX_LEN \<longleftrightarrow> length msg \<le> 2147483647"
  if "length msg < 2 ^ 32" for msg :: bytes
  using that unat_of_nat [where 'a = 32, of "length msg"] by (simp add: word_le_nat_alt MAX_LEN_def)

lemma feed_frame:
  assumes net: "network_order net" and idle: "idle a w"
    and msg: "msg \<noteq> []" "length msg \<le> 2147483647"
    and room: "length (msgQueue w) < MAX_RECV_QUEUE_LEN"
  shows "\<exists>w'. feed net a (Suc (Suc k)) (frame i msg @ rest) w = feed net a k rest w' \<and> idle a w' \<and>
    msgQueue w' = msgQueue w @ [(a, next_node w)] \<and> holds_msg w' a (i, msg) (a, next_node w) \<and>
    next_node w' = next_node w + 1 \<and> (\<forall>m. m \<noteq> next_node w \<longrightarrow> nodes w' m = nodes w m)"
proof -
  obtain s where s: "sessions w a = Some s" "phase s = Reading_head" "head_ok s"
    using idle by (auto simp: idle_def)
  have small: "length msg < 2 ^ 32" using msg by simp
  have len: "of_nat (length msg) \<le> MAX_LEN" using msg MAX_LEN_unat [OF small] by simp
  obtain h where h: "co_step net a (Read_bytes (take 6 (frame i msg))) w =
      Inr (upd_session a (\<lambda>s. s\<lparr>recvHead := h, recvMsg := Some (next_node w), phase := Reading_body\<rparr>)
        (w\<lparr>nodes := (nodes w)(next_node w \<mapsto> RecvNode (of_nat (length msg)) i),
           next_node := next_node w + 1\<rparr>))" (is "_ = Inr ?w1")
    and hok: "node_ok h" "totalLen h = 6"
    using co_step_head [OF net s len] by blast
  let ?n = "RecvNode (of_nat (length msg)) i"
  let ?s1 = "s\<lparr>recvHead := h, recvMsg := Some (next_node w), phase := Reading_body\<rparr>"
  have n: "node_ok ?n" using len by (rule node_ok_RecvNode)
  have tl: "totalLen ?n = of_nat (length msg)" by (simp add: RecvNode_def MsgNode_def)
  have unat: "unat (of_nat (length msg) :: u32) = length msg"
    using small unat_of_nat [where 'a = 32, of "length msg"] by simp
  have s1: "sessions ?w1 a = Some ?s1" "nodes ?w1 (next_node w) = Some ?n" using s by simp_all
  have b: "co_step net a (Read_bytes msg) ?w1 = Inr (read_head a (PostMsgToQue (a, next_node w)
      (upd_node (next_node w) (?n\<lparr>node_data := map Some (msg @ [0])\<rparr>) ?w1)))" (is "_ = Inr ?w2")
    using s1 n tl unat msg by (intro co_step_body [of ?w1 a ?s1]) simp_all
  have size0: "read_size a w = 6" using s by (simp add: read_size_def)
  have size1: "read_size a ?w1 = length msg"
    using s tl unat by (simp add: read_size_def recv_node_def)
  have fr: "take 6 (frame i msg @ rest) = take 6 (frame i msg)" "drop 6 (frame i msg @ rest) = msg @ rest"
    by (simp_all add: frame_def be16_def be32_def)
  have "feed net a (Suc (Suc k)) (frame i msg @ rest) w = feed net a k rest ?w2"
    using size0 size1 h b fr by (simp add: Let_def)
  moreover have "idle a ?w2"
    using s1 hok by (auto simp: idle_def read_head_def head_ok_def)
  moreover have "msgQueue ?w2 = msgQueue w @ [(a, next_node w)]"
    using room by (simp add: read_head_def msgQueue_Post)
  moreover have "holds_msg ?w2 a (i, msg) (a, next_node w)"
    by (simp add: holds_msg_def read_head_def RecvNode_def MsgNode_def)
  moreover have "next_node ?w2 = next_node w + 1" by (simp add: read_head_def)
  moreover have "\<forall>m. m \<noteq> next_node w \<longrightarrow> nodes ?w2 m = nodes w m"
    by (simp add: read_head_def)
  ultimately show ?thesis by blast
qed

lemma feed_frames:
  assumes net: "network_order net" and idle: "idle a w"
    and ms: "\<forall>(i, msg)\<in>set ms. msg \<noteq> [] \<and> length msg \<le> 2147483647"
    and room: "length (msgQueue w) + length ms \<le> MAX_RECV_QUEUE_LEN"
  shows "\<exists>w' xs. feed net a (2 * length ms) (concat (map (\<lambda>(i, msg). frame i msg) ms)) w = Inr ([], w') \<and>
    idle a w' \<and> msgQueue w' = msgQueue w @ xs \<and> list_all2 (holds_msg w' a) ms xs \<and>
    (\<forall>x\<in>set xs. next_node w \<le> snd x) \<and> (\<forall>m<next_node w. nodes w' m = nodes w m)"
  using idle ms room
proof (induction ms arbitrary: w)
  case Nil
  then show ?case by simp
next
  case (Cons im ms)
  obtain i msg where im: "im = (i, msg)" by force
  have msg: "msg \<noteq> []" "length msg \<le> 2147483647" using Cons.prems im by auto
  obtain w1 where w1: "feed net a (Suc (Suc (2 * length ms)))
        (frame i msg @ concat (map (\<lambda>(i, msg). frame i msg) ms)) w =
      feed net a (2 * length ms) (concat (map (\<lambda>(i, msg). frame i msg) ms)) w1"
    "idle a w1" "msgQueue w1 = msgQueue w @ [(a, next_node w)]"
    "holds_msg w1 a (i, msg) (a, next_node w)" "next_node w1 = next_node w + 1"
    "\<forall>m. m \<noteq> next_node w \<longrightarrow> nodes w1 m = nodes w m"
    using feed_frame [OF net Cons.prems(1) msg] Cons.prems(3) by fastforce
  obtain w' xs where w': "feed net a (2 * length ms) (concat (map (\<lambda>(i, msg). frame i msg) ms)) w1 = Inr ([], w')"
    "idle a w'" "msgQueue w' = msgQueue w1 @ xs" "list_all2 (holds_msg w' a) ms xs"
    "\<forall>x\<in>set xs. next_node w1 \<le> snd x" "\<forall>m<next_node w1. nodes w' m = nodes w1 m"
    using Cons.IH [OF w1(2)] Cons.prems w1(3) by auto
  have "holds_msg w' a (i, msg) (a, next_node w)"
    using w1(4,5) w'(6) by (simp add: holds_msg_def)
  with w1 w' have "feed net a (2 * length (im # ms)) (concat (map (\<lambda>(i, msg). frame i msg) (im # ms))) w =
      Inr ([], w') \<and> idle a w' \<and> msgQueue w' = msgQueue w @ ((a, next_node w) # xs) \<and>
      list_all2 (holds_msg w' a) (im # ms) ((a, next_node w) # xs) \<and>
      (\<forall>x\<in>set ((a, next_node w) # xs). next_node w \<le> snd x) \<and> (\<forall>m<next_node w. nodes w' m = nodes w m)"
    using im by (auto simp: Suc_le_eq)
  then show ?case by blast
qed

subsection \<open>Well-formed worlds\<close>

text \<open>A session between handlers: its head node has room for a head, its received node exists,
  a write that is outstanding is the write of the queue's front.\<close>

definition session_ok :: "(addr \<rightharpoonup> msg_node) \<Rightarrow> session \<Rightarrow> bool" where
  "session_ok ns s =
     (head_ok s \<and>
      (case recvMsg s of None \<Rightarrow> phase s \<noteq> Reading_body | Some m \<Rightarrow> m \<in> dom ns) \<and>
      length (sendQueue s) \<le> MAX_SEND_QUEUE_LEN \<and>
      (writing s = None \<or> (sendQueue s \<noteq> [] \<and> writing s = Some (hd (sendQueue s)))))"

text \<open>A node the logic system may read as a C string: every byte written, a terminator at the end.\<close>

definition readable :: "msg_node \<Rightarrow> bool" where
  "readable n = (None \<notin> set (node_data n) \<and> node_data n \<noteq> [] \<and> last (node_data n) = Some 0)"

definition queued_ok :: "(addr \<rightharpoonup> msg_node) \<Rightarrow> addr \<times> addr \<Rightarrow> bool" where
  "queued_ok ns x = (case ns (snd x) of None \<Rightarrow> False | Some n \<Rightarrow> readable n)"

lemma session_ok_mono: "dom ns \<subseteq> dom ns' \<Longrightarrow> session_ok ns s \<Longrightarrow> session_ok ns' s"
  by (auto simp: session_ok_def split: option.splits)

definition world_ok :: "ftp_world \<Rightarrow> bool" where
  "world_ok w =
     ((\<forall>m n. nodes w m = Some n \<longrightarrow> node_ok n \<and> m < next_node w) \<and>
      (\<forall>a s. sessions w a = Some s \<longrightarrow> session_ok (nodes w) s) \<and>
      (\<forall>x\<in>set (msgQueue w). queued_ok (nodes w) x) \<and>
      length (msgQueue w) \<le> MAX_RECV_QUEUE_LEN)"

lemma world_okD:
  assumes "world_ok w"
  shows "nodes w m = Some n \<Longrightarrow> node_ok n" "nodes w m = Some n \<Longrightarrow> m < next_node w"
    "sessions w a = Some s \<Longrightarrow> session_ok (nodes w) s" "x \<in> set (msgQueue w) \<Longrightarrow> queued_ok (nodes w) x"
    "length (msgQueue w) \<le> MAX_RECV_QUEUE_LEN"
  using assms by (auto simp: world_ok_def)

lemma world_ok_cong:
  "nodes w' = nodes w \<Longrightarrow> next_node w' = next_node w \<Longrightarrow> sessions w' = sessions w \<Longrightarrow>
     msgQueue w' = msgQueue w \<Longrightarrow> world_ok w' = world_ok w"
  by (simp add: world_ok_def)

lemma world_ok_remove [simp]: "world_ok (remove_from_server a w) = world_ok w"
  by (rule world_ok_cong) simp_all

lemma world_ok_upd_session:
  assumes "world_ok w" and "\<And>s. sessions w a = Some s \<Longrightarrow> session_ok (nodes w) s \<Longrightarrow> session_ok (nodes w) (f s)"
  shows "world_ok (upd_session a f w)"
  using assms unfolding world_ok_def by auto

lemma world_ok_upd_node:
  assumes "world_ok w" and "nodes w m = Some n0" and "node_ok n"
    and "readable n0 \<Longrightarrow> readable n"
  shows "world_ok (upd_node m n w)"
proof -
  have "session_ok ((nodes w)(m \<mapsto> n)) s" if "sessions w b = Some s" for b s
    using world_okD(3) [OF assms(1) that] by (rule session_ok_mono [rotated]) auto
  moreover have "queued_ok ((nodes w)(m \<mapsto> n)) x" if "x \<in> set (msgQueue w)" for x
    using world_okD(4) [OF assms(1) that] assms(2,4) by (auto simp: queued_ok_def)
  moreover have "node_ok k \<and> l < next_node w" if "((nodes w)(m \<mapsto> n)) l = Some k" for l k
    using that world_okD(1,2) [OF assms(1)] assms(2,3) by (auto split: if_splits)
  ultimately show ?thesis using world_okD(5) [OF assms(1)] by (simp add: world_ok_def)
qed

lemma world_ok_ClearMsg: "world_ok w \<Longrightarrow> world_ok (ClearMsg a w)"
proof -
  assume w: "world_ok w"
  show ?thesis
  proof (cases "Option.bind (sessions w a) recvMsg")
    case None
    with w show ?thesis by (simp add: ClearMsg_def)
  next
    fix m assume m: "Option.bind (sessions w a) recvMsg = Some m"
    then obtain n where n: "nodes w m = Some n"
      using world_okD(3) [OF w] by (fastforce simp: bind_eq_Some_conv session_ok_def)
    then have "ClearMsg a w = upd_node m (node_Clear n) w" using m by (simp add: ClearMsg_def upd_node_def)
    moreover have "world_ok (upd_node m (node_Clear n) w)"
      using w n world_okD(1) [OF w n]
      by (intro world_ok_upd_node) (auto simp: readable_def node_Clear_def node_ok_def)
    ultimately show ?thesis by simp
  qed
qed

lemma world_ok_ClearHead: "world_ok w \<Longrightarrow> world_ok (ClearHead a w)"
  unfolding ClearHead_def
  by (rule world_ok_upd_session) (auto simp: session_ok_def head_ok_def node_Clear_def node_ok_def split: option.splits)

lemma world_ok_Clear: "world_ok w \<Longrightarrow> world_ok (Clear a w)"
  by (simp add: Clear_def world_ok_ClearHead world_ok_ClearMsg)

lemma world_ok_finish: "world_ok w \<Longrightarrow> world_ok (finish a w)"
  unfolding finish_def by (rule world_ok_upd_session) (auto simp: session_ok_def head_ok_def split: option.splits)

lemma world_ok_read_head: "world_ok w \<Longrightarrow> world_ok (read_head a w)"
  unfolding read_head_def
  by (rule world_ok_upd_session) (auto simp: session_ok_def head_ok_def split: option.splits)

lemma world_ok_Post:
  assumes "world_ok w" and "nodes w m = Some n" and "readable n"
  shows "world_ok (PostMsgToQue (a, m) w)"
  using assms unfolding world_ok_def by (auto simp: msgQueue_Post queued_ok_def)

lemma world_ok_new_node:
  assumes "world_ok w" and "node_ok n"
  shows "world_ok (w\<lparr>nodes := (nodes w)(next_node w \<mapsto> n), next_node := next_node w + 1\<rparr>)"
proof -
  have fresh: "nodes w (next_node w) = None"
    using world_okD(2) [OF assms(1), of "next_node w"] by (cases "nodes w (next_node w)") auto
  have "queued_ok ((nodes w)(next_node w \<mapsto> n)) x" if "x \<in> set (msgQueue w)" for x
    using world_okD(4) [OF assms(1) that] fresh by (auto simp: queued_ok_def)
  moreover have "session_ok ((nodes w)(next_node w \<mapsto> n)) s" if "sessions w b = Some s" for b s
    using world_okD(3) [OF assms(1) that] by (rule session_ok_mono [rotated]) auto
  moreover have "node_ok k \<and> m < next_node w + 1" if "((nodes w)(next_node w \<mapsto> n)) m = Some k" for m k
    using that world_okD(1,2) [OF assms(1), of m k] assms(2) by (auto split: if_splits)
  ultimately show ?thesis using world_okD(5) [OF assms(1)] by (simp add: world_ok_def)
qed

lemmas world_ok_intros = world_ok_Clear world_ok_ClearHead world_ok_ClearMsg world_ok_finish
  world_ok_read_head

subsection \<open>One step of a session\<close>

text \<open>The length a head announces.\<close>

definition announced :: "net_ops \<Rightarrow> bytes \<Rightarrow> u32" where
  "announced net hdr = network_to_host_long net (uint_of (take 4 (drop 2 hdr)))"

lemma head_node_fields:
  assumes "node_data n = map Some hdr @ rest" and "length hdr = 6"
  shows "\<exists>i. head_id net n = Inr i" and "head_len net n = Inr (announced net hdr)"
proof -
  have "take 4 (drop 2 hdr) = drop 2 hdr" using assms(2) by simp
  then have hdr: "hdr = take 2 hdr @ take 4 (drop 2 hdr)" by simp
  have d: "node_data n = map Some [] @ map Some (take 2 hdr) @ (map Some (take 4 (drop 2 hdr)) @ rest)"
    "node_data n = map Some (take 2 hdr) @ map Some (take 4 (drop 2 hdr)) @ rest"
    using arg_cong [OF hdr, of "map Some"] assms(1) by simp_all
  show "\<exists>i. head_id net n = Inr i"
    using memcpy_from_written [OF d(1)] assms(2) by (simp add: head_id_def node_read_def head_len_defs)
  show "head_len net n = Inr (announced net hdr)"
    using memcpy_from_written [OF d(2)] assms(2)
    by (simp add: head_len_def node_read_def head_len_defs announced_def)
qed

lemma fill_head_ok:
  assumes "world_ok w" and "sessions w a = Some s" and "length hdr = 6"
  shows "\<exists>h rest. fill_head a hdr w = Inr (upd_session a (\<lambda>s. s\<lparr>recvHead := h\<rparr>) w) \<and>
    world_ok (upd_session a (\<lambda>s. s\<lparr>recvHead := h\<rparr>) w) \<and> node_data h = map Some hdr @ rest"
proof -
  have "head_ok s" using world_okD(3) [OF assms(1,2)] by (simp add: session_ok_def)
  from fill_head_frame [OF assms(2) this assms(3)] obtain h rest where
    h: "fill_head a hdr w = Inr (upd_session a (\<lambda>s. s\<lparr>recvHead := h\<rparr>) w)"
      "node_ok h" "totalLen h = 6" "node_data h = map Some hdr @ rest" by blast
  have "world_ok (upd_session a (\<lambda>s. s\<lparr>recvHead := h\<rparr>) w)"
    using assms(1) h by (intro world_ok_upd_session)
      (auto simp: session_ok_def head_ok_def split: option.splits)
  with h show ?thesis by blast
qed

lemma read_body_ok:
  assumes "world_ok w" and "sessions w a = Some s" and "recvMsg s = Some m"
  shows "read_body a w = Inr (upd_session a (\<lambda>s. s\<lparr>phase := Reading_body\<rparr>) w)"
    and "world_ok (upd_session a (\<lambda>s. s\<lparr>phase := Reading_body\<rparr>) w)"
proof -
  obtain n where "nodes w m = Some n"
    using world_okD(3) [OF assms(1,2)] assms(3) by (auto simp: session_ok_def)
  then show "read_body a w = Inr (upd_session a (\<lambda>s. s\<lparr>phase := Reading_body\<rparr>) w)"
    using assms by (simp add: read_body_def recv_node_def)
  show "world_ok (upd_session a (\<lambda>s. s\<lparr>phase := Reading_body\<rparr>) w)"
    using assms by (intro world_ok_upd_session) (auto simp: session_ok_def head_ok_def split: option.splits)
qed

text \<open>The step on a completed head, for an acceptable and for an oversized length.\<close>

lemma PraseHead_accepted:
  assumes "sessions w a = Some s" and "head_id net (recvHead s) = Inr i"
    and "head_len net (recvHead s) = Inr len" and "len \<le> MAX_LEN"
  shows "PraseHead net a w = Inr (upd_session a (\<lambda>s. s\<lparr>recvMsg := Some (next_node w)\<rparr>)
    (w\<lparr>nodes := (nodes w)(next_node w \<mapsto> RecvNode len i), next_node := next_node w + 1\<rparr>))"
  using assms by (simp add: PraseHead_def not_less)

lemma co_head_accepted:
  assumes w: "world_ok w" and s: "sessions w a = Some s" and hdr: "length hdr = 6"
    and len: "announced net hdr \<le> MAX_LEN"
  shows "\<exists>w'. co_head net a (Read_bytes hdr) w = Inr w' \<and> world_ok w'"
proof -
  obtain h rest where h: "fill_head a hdr w = Inr (upd_session a (\<lambda>s. s\<lparr>recvHead := h\<rparr>) w)"
    "world_ok (upd_session a (\<lambda>s. s\<lparr>recvHead := h\<rparr>) w)" "node_data h = map Some hdr @ rest"
    using fill_head_ok [OF w s hdr] by blast
  let ?w = "upd_session a (\<lambda>s. s\<lparr>recvHead := h\<rparr>) w"
  obtain i where i: "head_id net h = Inr i" "head_len net h = Inr (announced net hdr)"
    using head_node_fields [OF h(3) hdr] by blast
  let ?n = "RecvNode (announced net hdr) i"
  let ?v = "?w\<lparr>nodes := (nodes ?w)(next_node ?w \<mapsto> ?n), next_node := next_node ?w + 1\<rparr>"
  let ?w1 = "upd_session a (\<lambda>s. s\<lparr>recvMsg := Some (next_node ?w)\<rparr>) ?v"
  have "sessions ?w a = Some (s\<lparr>recvHead := h\<rparr>)" using s by simp
  from PraseHead_accepted [OF this, of net i "announced net hdr"]
  have "PraseHead net a ?w = Inr ?w1" using i len by simp
  moreover have "world_ok ?v"
    using h(2) node_ok_RecvNode [OF len] by (rule world_ok_new_node)
  then have w1: "world_ok ?w1"
    by (rule world_ok_upd_session) (simp add: session_ok_def head_ok_def)
  moreover have s1: "sessions ?w1 a = Some (s\<lparr>recvHead := h, recvMsg := Some (next_node ?w)\<rparr>)"
    using s by simp
  note body = read_body_ok [OF w1 s1, of "next_node ?w"]
  have "hdr \<noteq> []" using hdr by auto
  ultimately show ?thesis using h(1) body by simp
qed

lemma co_head_oversized:
  assumes w: "world_ok w" and s: "sessions w a = Some s" and hdr: "length hdr = 6"
    and len: "MAX_LEN < announced net hdr"
  shows "co_head net a (Read_bytes hdr) w = Inl Null_deref \<and> recvMsg s = None \<or>
    recvMsg s \<noteq> None \<and> (\<exists>h. node_ok h \<and> totalLen h = 6 \<and>
      co_head net a (Read_bytes hdr) w =
        Inr (upd_session a (\<lambda>s. s\<lparr>phase := Reading_body\<rparr>) (remove_from_server a
              (upd_session a (\<lambda>s. s\<lparr>recvHead := h\<rparr>) w))) \<and>
      world_ok (upd_session a (\<lambda>s. s\<lparr>phase := Reading_body\<rparr>) (remove_from_server a
              (upd_session a (\<lambda>s. s\<lparr>recvHead := h\<rparr>) w))))"
proof -
  obtain h rest where h: "fill_head a hdr w = Inr (upd_session a (\<lambda>s. s\<lparr>recvHead := h\<rparr>) w)"
    "world_ok (upd_session a (\<lambda>s. s\<lparr>recvHead := h\<rparr>) w)" "node_data h = map Some hdr @ rest"
    using fill_head_ok [OF w s hdr] by blast
  let ?w = "upd_session a (\<lambda>s. s\<lparr>recvHead := h\<rparr>) w"
  obtain i where i: "head_id net h = Inr i" "head_len net h = Inr (announced net hdr)"
    using head_node_fields [OF h(3) hdr] by blast
  let ?w1 = "remove_from_server a (upd_session a (\<lambda>s. s\<lparr>recvHead := node_Clear h\<rparr>) w)"
  have p: "PraseHead net a ?w = Inr ?w1"
    using s i len by (simp add: PraseHead_def ClearHead_def)
  have w1: "world_ok ?w1"
    using world_ok_ClearHead [OF h(2), of a] by (simp add: ClearHead_def)
  have s1: "sessions ?w1 a = Some (s\<lparr>recvHead := node_Clear h\<rparr>)" using s by simp
  have ok: "node_ok (node_Clear h)" "totalLen (node_Clear h) = 6"
    using world_okD(3) [OF h(2), of a] s by (auto simp: session_ok_def head_ok_def)
      (simp_all add: node_Clear_def)
  have ne: "hdr \<noteq> []" using hdr by auto
  show ?thesis
  proof (cases "recvMsg s")
    case None
    then have "read_body a ?w1 = Inl Null_deref"
      using s by (simp add: read_body_def recv_node_def)
    with None h(1) p ne show ?thesis by simp
  next
    case (Some m)
    with read_body_ok [OF w1 s1, of m] h(1) p ne ok show ?thesis
      by (intro disjI2 conjI exI [of _ "node_Clear h"]) simp_all
  qed
qed

text \<open>The step on a completed body, empty or not.\<close>

lemma body_written:
  assumes "node_ok n" and "length bs = unat (totalLen n)"
  shows "\<exists>x. node_write 0 bs n = Inr (n\<lparr>node_data := map Some bs @ [x]\<rparr>) \<and>
    last (node_data n) = x \<and> node_ok (n\<lparr>node_data := map Some bs @ [x]\<rparr>) \<and>
    node_write (unat (totalLen n)) [0] (n\<lparr>node_data := map Some bs @ [x]\<rparr>) =
      Inr (n\<lparr>node_data := map Some (bs @ [0])\<rparr>)"
proof -
  have len: "length (node_data n) = length bs + 1" using assms by (simp add: node_ok_def)
  then have "length (drop (length bs) (node_data n)) = 1" by simp
  then obtain x where x: "drop (length bs) (node_data n) = [x]"
    by (cases "drop (length bs) (node_data n)") auto
  then have "last (node_data n) = x"
    using len by (metis last.simps last_drop length_drop less_add_one)
  moreover have "node_write 0 bs n = Inr (n\<lparr>node_data := map Some bs @ [x]\<rparr>)"
    using node_write_fits [of n 0 bs] assms x by simp
  moreover have "node_write (unat (totalLen n)) [0] (n\<lparr>node_data := map Some bs @ [x]\<rparr>) =
      Inr (n\<lparr>node_data := map Some (bs @ [0])\<rparr>)"
    using assms by (subst node_write_fits) (simp_all add: node_ok_def)
  ultimately show ?thesis using assms by (simp add: node_ok_def)
qed

lemma body_step:
  assumes "sessions w a = Some s" and "recvMsg s = Some m" and "nodes w m = Some n" and "node_ok n"
    and "length bs = unat (totalLen n)"
  shows "and_then (fill_body a bs w) (\<lambda>w. and_then (PraseMsg a w) (\<lambda>w. Inr (read_head a w))) =
    Inr (read_head a (PostMsgToQue (a, m) (upd_node m (n\<lparr>node_data := map Some (bs @ [0])\<rparr>) w)))"
proof -
  obtain x where "node_write 0 bs n = Inr (n\<lparr>node_data := map Some bs @ [x]\<rparr>)"
    "node_write (unat (totalLen n)) [0] (n\<lparr>node_data := map Some bs @ [x]\<rparr>) =
      Inr (n\<lparr>node_data := map Some (bs @ [0])\<rparr>)"
    using body_written [OF assms(4,5)] by blast
  then show ?thesis
    using assms(1-3) by (simp add: fill_body_def recv_node_def PraseMsg_def upd_node_def)
qed

lemma world_ok_body:
  assumes w: "world_ok w" and n: "nodes w m = Some n" and len: "length bs = unat (totalLen n)"
  shows "world_ok (read_head a (PostMsgToQue (a, m) (upd_node m (n\<lparr>node_data := map Some (bs @ [0])\<rparr>) w)))"
proof -
  have "world_ok (upd_node m (n\<lparr>node_data := map Some (bs @ [0])\<rparr>) w)"
    using w n len by (intro world_ok_upd_node) (auto simp: node_ok_def readable_def)
  then show ?thesis
    by (intro world_ok_read_head world_ok_Post) (auto simp: readable_def)
qed

lemma reading_body_node:
  assumes "world_ok w" and "sessions w a = Some s" and "phase s = Reading_body"
  shows "\<exists>m n. recvMsg s = Some m \<and> nodes w m = Some n \<and> node_ok n \<and> read_size a w = unat (totalLen n)"
proof -
  obtain m n where "recvMsg s = Some m" "nodes w m = Some n"
    using world_okD(3) [OF assms(1,2)] assms(3) by (auto simp: session_ok_def split: option.splits)
  then show ?thesis
    using assms world_okD(1) [OF assms(1)] by (simp add: read_size_def recv_node_def)
qed

text \<open>The one fault of a coroutine: the first head a session reads announces too much.\<close>

definition oversized_first :: "net_ops \<Rightarrow> session \<Rightarrow> read_result \<Rightarrow> bool" where
  "oversized_first net s r =
     (phase s = Reading_head \<and> recvMsg s = None \<and>
      (case r of Read_failed \<Rightarrow> False | Read_bytes hdr \<Rightarrow> MAX_LEN < announced net hdr))"

lemma co_step_outcome:
  assumes "world_ok w" and "sessions w a = Some s" and "read_fits a w r"
  shows "if oversized_first net s r then co_step net a r w = Inl Null_deref
    else \<exists>w'. co_step net a r w = Inr w' \<and> world_ok w'"
proof (cases r)
  case Read_failed
  then show ?thesis
    using assms by (cases "phase s")
      (auto simp: co_step_def oversized_first_def co_catch_def intro!: world_ok_intros)
next
  case (Read_bytes bs)
  show ?thesis
  proof (cases "phase s")
    case Reading_head
    then have len: "length bs = 6"
      using assms(2,3) Read_bytes by (simp add: read_fits_def read_size_def)
    show ?thesis
    proof (cases "announced net bs \<le> MAX_LEN")
      case True
      with co_head_accepted [OF assms(1,2) len] Reading_head Read_bytes assms(2) show ?thesis
        by (auto simp: co_step_def oversized_first_def)
    next
      case False
      with co_head_oversized [OF assms(1,2) len, of net] Reading_head Read_bytes assms(2) show ?thesis
        by (auto simp: co_step_def oversized_first_def not_le)
    qed
  next
    case Reading_body
    obtain m n where n: "recvMsg s = Some m" "nodes w m = Some n" "node_ok n"
      "read_size a w = unat (totalLen n)"
      using reading_body_node [OF assms(1,2) Reading_body] by blast
    then have len: "length bs = unat (totalLen n)"
      using assms(3) Read_bytes by (simp add: read_fits_def)
    show ?thesis
    proof (cases "bs = []")
      case True
      with Reading_body Read_bytes assms show ?thesis
        by (auto simp: co_step_def oversized_first_def co_disconnected_def intro!: world_ok_intros)
    next
      case False
      with body_step [OF assms(2) n(1,2,3) len] world_ok_body [OF assms(1) n(2) len]
        Reading_body Read_bytes assms(2) show ?thesis
        by (simp add: co_step_def oversized_first_def)
    qed
  qed (use Read_bytes assms in \<open>simp_all add: co_step_def oversized_first_def\<close>)
qed

subsection \<open>A server with one fresh session, for the witnesses\<close>

definition lone_session :: ftp_world where
  "lone_session = \<lparr>sessions = [0 \<mapsto> (Session ''s'' 0)\<lparr>sock_open := True, phase := Reading_head\<rparr>],
     next_session = 1, nodes = Map.empty, next_node = 0, session_table = [(''s'', 0)],
     accepting = None, msgQueue = [], pool = IOServicePool 1, files = Map.empty\<rparr>"

lemma Session_ok: "session_ok ns (Session uuid ioc)"
  by (simp add: session_ok_def Session_def head_ok_def RecvNode_def MsgNode_def node_ok_def)

lemma lone_session_simps [simp]:
  "sessions lone_session 0 = Some ((Session ''s'' 0)\<lparr>sock_open := True, phase := Reading_head\<rparr>)"
  "nodes lone_session = Map.empty" "msgQueue lone_session = []" "next_node lone_session = 0"
  by (simp_all add: lone_session_def)

lemma lone_session_ok: "world_ok lone_session" "idle 0 lone_session"
  by (auto simp: world_ok_def lone_session_def session_ok_def Session_def head_ok_def RecvNode_def
      MsgNode_def node_ok_def idle_def)

lemma lone_session_read_size [simp]: "read_size 0 lone_session = 6"
  by (simp add: read_size_def)

lemma pump_ok_Session: "pump_ok sendQueue writing (Session uuid ioc)"
  by (simp add: pump_ok_def Session_def)

lemma send_room_Session: "send_room (Session uuid ioc)"
  by (simp add: send_room_def Session_def MAX_SEND_QUEUE_LEN_def)

subsection \<open>Properties\<close>

text \<open>
  C2: a resumption of a session's coroutine in a well-formed world, with a completed read of the
  size it asked for or a failed one, never writes or reads outside an array and never reads an
  indeterminate byte: it keeps the world well-formed, with one exception. A first head that
  announces more than \<open>MAX_LEN\<close> bytes dereferences the null \<open>_recvMsgNode\<close>, since \<open>PraseHead\<close>
  returns without a node and the coroutine reads a body all the same.
\<close>
theorem co_step_safe:
  assumes "world_ok w" and "sessions w a = Some s" and "read_fits a w r"
  shows "if oversized_first net s r then co_step net a r w = Inl Null_deref
    else \<exists>w'. co_step net a r w = Inr w' \<and> world_ok w'"
  using assms by (rule co_step_outcome)

theorem co_step_safe_witness:
  "co_step swap_ops 0 (Read_bytes [3, 233, 255, 0, 0, 2]) lone_session = Inl Null_deref \<and>
   (\<exists>w'. co_step swap_ops 0 (Read_bytes [3, 233, 0, 0, 0, 2]) lone_session = Inr w' \<and> world_ok w')"
proof -
  have big: "MAX_LEN < announced swap_ops [3, 233, 255, 0, 0, 2]"
    and small: "\<not> MAX_LEN < announced swap_ops [3, 233, 0, 0, 0, 2]"
    by (simp_all add: announced_def swap_ops_def uint_repr_def uint_of_def MAX_LEN_def drop_bit_eq_div)
  note safe = co_step_safe [OF lone_session_ok(1) lone_session_simps(1), of _ swap_ops]
  show ?thesis
    using safe [of "Read_bytes [3, 233, 255, 0, 0, 2]"] safe [of "Read_bytes [3, 233, 0, 0, 0, 2]"]
      big small by (simp add: oversized_first_def read_fits_def Session_def)
qed

text \<open>
  Sending in order. As long as no write fails, after any history of \<open>Send\<close> calls and write
  completions there is at most one outstanding write, the one of the queue's front, and what has
  been written followed by what is still queued is exactly what was accepted, in order.
\<close>
lemma session_sends_in_order:
  assumes "pump_ok sendQueue writing s" and "Fail \<notin> set es"
    and "fold (pump_step submit_node write_next writing write_failed) es (s, sent) = (s', sent')"
  shows "writing s' = (case sendQueue s' of [] \<Rightarrow> None | n # _ \<Rightarrow> Some n) \<and>
    sent' @ sendQueue s' =
      sent @ sendQueue s @ pump_accepted send_room submit_node write_next writing es s"
  using session_pump.pump_run_ok [OF assms] by (simp add: pump_ok_def)

text \<open>
  A write that fails wedges the session's send queue. The error path of \<open>HandlerWrite\<close>
  neither pops the node nor starts another write, so from then on nothing is ever written,
  whatever is sent.
\<close>
lemma session_wedged_by_write_error:
  assumes "pump_ok sendQueue writing s" and "writing s \<noteq> None"
    and "fold (pump_step submit_node write_next writing write_failed) es (write_failed s, sent) = (s', sent')"
  shows "sent' = sent"
  using assms by (rule session_pump.fail_wedges)

text \<open>
  C3: what a session sends is what the session at the other end queues. Messages sent on a fresh
  session go out as their frames, one after the other, when the writes complete; those bytes,
  arriving at a session that waits for a head, are read to the last one and queue exactly these
  messages, with their ids, in order, each terminated by a null byte.
\<close>
theorem session_stream_roundtrip:
  assumes "network_order net" and "\<forall>(i, msg)\<in>set ms. msg \<noteq> [] \<and> length msg \<le> 2147483647"
    and "length ms \<le> MAX_SEND_QUEUE_LEN"
    and "idle a w" and "length (msgQueue w) + length ms \<le> MAX_RECV_QUEUE_LEN"
  shows "\<exists>s s' bs w' xs. send_all net ms (Session uuid ioc) = Inr s \<and>
    drain (length ms) s = Inr (bs, s') \<and> sendQueue s' = [] \<and>
    feed net a (2 * length ms) bs w = Inr ([], w') \<and> idle a w' \<and> msgQueue w' = msgQueue w @ xs \<and>
    list_all2 (\<lambda>(i, msg). holds_msg w' a (i, bytes_of msg)) ms xs"
proof -
  let ?f = "\<lambda>(i, msg). frame_node i (bytes_of msg)"
  let ?ms = "map (\<lambda>(i, msg). (i, bytes_of msg)) ms"
  have small: "\<forall>(i, msg)\<in>set ms. length msg + 7 < 2 ^ 32" using assms(2) by fastforce
  have q0: "sendQueue (Session uuid ioc) = []" by (simp add: Session_def)
  obtain s where s: "send_all net ms (Session uuid ioc) = Inr s" "pump_ok sendQueue writing s"
    "sendQueue s = map ?f ms"
    using send_all_queue [OF assms(1) small _ pump_ok_Session, of uuid ioc] assms(3) q0 by auto
  have wires: "wire (?f m) = Inr (case m of (i, msg) \<Rightarrow> frame i (bytes_of msg))" if "m \<in> set ms" for m
    using small that by (auto intro: wire_frame_node split: prod.splits)
  have "\<forall>n\<in>set (sendQueue s). wire n = Inr (projr (wire n))" using s(3) wires by auto
  from drain_queue [OF s(2) this, of "length ms"] s(3) obtain s' where
    s': "drain (length ms) s = Inr (concat (map (\<lambda>n. projr (wire n)) (sendQueue s)), s')" "sendQueue s' = []"
    by auto
  have "map (\<lambda>n. projr (wire n)) (sendQueue s) = map (\<lambda>(i, msg). frame i msg) ?ms"
    using s(3) wires by (auto split: prod.splits)
  with s' have d: "drain (length ms) s = Inr (concat (map (\<lambda>(i, msg). frame i msg) ?ms), s')" by simp
  have "\<forall>(i, msg)\<in>set ?ms. msg \<noteq> [] \<and> length msg \<le> 2147483647"
    using assms(2) by (auto simp: bytes_of_def)
  from feed_frames [OF assms(1,4) this] assms(5) obtain w' xs where
    "feed net a (2 * length ms) (concat (map (\<lambda>(i, msg). frame i msg) ?ms)) w = Inr ([], w')"
    "idle a w'" "msgQueue w' = msgQueue w @ xs" "list_all2 (holds_msg w' a) ?ms xs" by auto
  with s(1) d s'(2) show ?thesis
    by (auto simp: list_all2_map1 case_prod_unfold)
qed

theorem session_stream_roundtrip_witness:
  "\<exists>s s' bs w' x. send_all swap_ops [(1001, ''hi'')] (Session ''c'' 0) = Inr s \<and>
    drain 1 s = Inr (bs, s') \<and> feed swap_ops 0 2 bs lone_session = Inr ([], w') \<and>
    msgQueue w' = [x] \<and> holds_msg w' 0 (1001, bytes_of ''hi'') x"
  using session_stream_roundtrip [OF swap_ops_network_order, of "[(1001, ''hi'')]" 0 lone_session "''c''" 0]
    lone_session_ok(2)
  by (auto simp: MAX_SEND_QUEUE_LEN_def MAX_RECV_QUEUE_LEN_def list_all2_Cons1)

text \<open>
  C21: a later head that announces too much does not end the session. \<open>PraseHead\<close> erases it
  from the table but leaves \<open>_recvMsgNode\<close> at the previous message, so the next bytes are read
  into that node, which may still be queued: the queued message is overwritten and queued again.
\<close>
theorem oversized_head_overwrites:
  assumes "world_ok w" and "sessions w a = Some s" and "phase s = Reading_head"
    and "recvMsg s = Some m" and "nodes w m = Some n" and "(a, m) \<in> set (msgQueue w)"
    and "length (msgQueue w) < MAX_RECV_QUEUE_LEN"
    and "length hdr = 6" and "MAX_LEN < announced net hdr"
    and "length bs = unat (totalLen n)" and "bs \<noteq> []"
  shows "\<exists>w1 w2. co_step net a (Read_bytes hdr) w = Inr w1 \<and> read_size a w1 = length bs \<and>
    co_step net a (Read_bytes bs) w1 = Inr w2 \<and> (a, m) \<in> set (msgQueue w2) \<and>
    msgQueue w2 = msgQueue w @ [(a, m)] \<and>
    nodes w2 m = Some (n\<lparr>node_data := map Some (bs @ [0])\<rparr>)"
proof -
  obtain h where h: "co_head net a (Read_bytes hdr) w =
        Inr (upd_session a (\<lambda>s. s\<lparr>phase := Reading_body\<rparr>) (remove_from_server a
              (upd_session a (\<lambda>s. s\<lparr>recvHead := h\<rparr>) w)))"
    using co_head_oversized [OF assms(1,2,8,9)] assms(4) by auto
  let ?v = "upd_session a (\<lambda>s. s\<lparr>phase := Reading_body\<rparr>) (remove_from_server a
              (upd_session a (\<lambda>s. s\<lparr>recvHead := h\<rparr>) w))"
  have s: "sessions ?v a = Some (s\<lparr>recvHead := h, phase := Reading_body\<rparr>)" using assms(2) by simp
  have n: "nodes ?v m = Some n" "node_ok n" using assms(5) world_okD(1) [OF assms(1,5)] by simp_all
  have "co_step net a (Read_bytes hdr) w = Inr ?v" using h assms(2,3) by (simp add: co_step_def)
  moreover have "read_size a ?v = length bs"
    using assms(2,4,5,10) by (simp add: read_size_def recv_node_def)
  moreover have "co_step net a (Read_bytes bs) ?v =
      Inr (read_head a (PostMsgToQue (a, m) (upd_node m (n\<lparr>node_data := map Some (bs @ [0])\<rparr>) ?v)))"
    using body_step [OF s _ n assms(10)] assms(2,4,11) by (simp add: co_step_def)
  ultimately show ?thesis
    using assms(6,7) by (simp add: read_head_def msgQueue_Post)
qed

definition one_queued :: ftp_world where
  "one_queued = lone_session\<lparr>sessions := [0 \<mapsto> (Session ''s'' 0)\<lparr>phase := Reading_head, recvMsg := Some 0\<rparr>],
     nodes := [0 \<mapsto> (RecvNode 2 1001)\<lparr>node_data := map Some [104, 105, 0]\<rparr>], next_node := 1,
     msgQueue := [(0, 0)]\<rparr>"

theorem oversized_head_overwrites_witness:
  "\<exists>w1 w2. co_step swap_ops 0 (Read_bytes [3, 233, 255, 0, 0, 2]) one_queued = Inr w1 \<and>
    co_step swap_ops 0 (Read_bytes [88, 88]) w1 = Inr w2 \<and> msgQueue w2 = [(0, 0), (0, 0)] \<and>
    map_option node_data (nodes w2 0) = Some [Some 88, Some 88, Some 0]"
proof -
  have "session_ok [0 \<mapsto> n] ((Session uuid ioc)\<lparr>phase := Reading_head, recvMsg := Some 0\<rparr>)" for n uuid ioc
    by (simp add: session_ok_def Session_def head_ok_def RecvNode_def MsgNode_def node_ok_def)
  then have w: "world_ok one_queued"
    by (auto simp: world_ok_def one_queued_def node_ok_def RecvNode_def MsgNode_def queued_ok_def
        readable_def MAX_RECV_QUEUE_LEN_def)
  have big: "MAX_LEN < announced swap_ops [3, 233, 255, 0, 0, 2]"
    by (simp add: announced_def swap_ops_def uint_repr_def uint_of_def MAX_LEN_def drop_bit_eq_div)
  let ?n = "(RecvNode 2 1001)\<lparr>node_data := map Some [104, 105, 0]\<rparr>"
  have "length [88, 88 :: byte] = unat (totalLen ?n)" by (simp add: RecvNode_def MsgNode_def)
  from oversized_head_overwrites [OF w _ _ _ _ _ _ _ big this, of 0
      "(Session ''s'' 0)\<lparr>phase := Reading_head, recvMsg := Some 0\<rparr>" 0]
  obtain w1 w2 where "co_step swap_ops 0 (Read_bytes [3, 233, 255, 0, 0, 2]) one_queued = Inr w1"
    "co_step swap_ops 0 (Read_bytes [88, 88]) w1 = Inr w2" "msgQueue w2 = [(0, 0), (0, 0)]"
    "nodes w2 0 = Some (?n\<lparr>node_data := map Some ([88, 88] @ [0])\<rparr>)"
    by (auto simp: one_queued_def MAX_RECV_QUEUE_LEN_def)
  then show ?thesis by auto
qed

text \<open>
  C22: the coroutine and the callback version take the same step on every completed read of at
  least one byte. They differ on the body of a message of length 0: the coroutine takes it for a
  disconnected client and ends the session, the callbacks queue the empty message and go on.
\<close>
theorem coroutine_vs_callbacks:
  assumes "world_ok w" and "sessions w a = Some s" and "read_fits a w (Read_bytes bs)"
  shows "if bs \<noteq> [] \<or> phase s \<noteq> Reading_body
    then co_step net a (Read_bytes bs) w = callback_step net a (Read_bytes bs) w
    else \<exists>w1 w2 m. co_step net a (Read_bytes bs) w = Inr w1 \<and>
           callback_step net a (Read_bytes bs) w = Inr w2 \<and> recvMsg s = Some m \<and>
           map_option phase (sessions w1 a) = Some Finished \<and> msgQueue w1 = msgQueue w \<and>
           map_option phase (sessions w2 a) = Some Reading_head \<and>
           msgQueue w2 = (if length (msgQueue w) < MAX_RECV_QUEUE_LEN then msgQueue w @ [(a, m)]
             else msgQueue w)"
proof (cases "phase s")
  case Reading_head
  then have "bs \<noteq> []" using assms(2,3) by (auto simp: read_fits_def read_size_def)
  with Reading_head assms(2) show ?thesis by (simp add: co_step_def callback_step_def)
next
  case Reading_body
  show ?thesis
  proof (cases "bs = []")
    case False
    with Reading_body assms(2) show ?thesis by (simp add: co_step_def callback_step_def)
  next
    case True
    obtain m n where n: "recvMsg s = Some m" "nodes w m = Some n" "node_ok n"
      "read_size a w = unat (totalLen n)"
      using reading_body_node [OF assms(1,2) Reading_body] by blast
    then have "length bs = unat (totalLen n)" using assms(3) by (simp add: read_fits_def)
    from body_step [OF assms(2) n(1-3) this] Reading_body True assms(2) n(1) show ?thesis
      by (simp add: co_step_def callback_step_def co_disconnected_def finish_def ClearHead_def
          read_head_def msgQueue_Post)
  qed
qed (use assms(2) in \<open>simp_all add: co_step_def callback_step_def\<close>)

theorem coroutine_vs_callbacks_witness:
  "co_step swap_ops 0 (Read_bytes [3, 233, 0, 0, 0, 2]) lone_session =
   callback_step swap_ops 0 (Read_bytes [3, 233, 0, 0, 0, 2]) lone_session"
  using coroutine_vs_callbacks [OF lone_session_ok(1) lone_session_simps(1), of "[3, 233, 0, 0, 0, 2]" swap_ops]
  by (simp add: read_fits_def)

end
