(* ===== verification/Base64.thy ===== *)
theory Base64
  imports Net_Prelude
begin

unbundle bit_operations_syntax

text \<open>
  The base64 codec of the upload path, \<open>src/src/05_ftp/base64.cpp\<close>: the two alphabets,
  the inverse table \<open>pos_of_char\<close>, the encoder with its 32-bit loop counter, the line breaking
  of the PEM and MIME forms, and the decoder with its \<open>at()\<close> bounds checks.
  The encoder's loop may run forever (its counter is an \<open>unsigned int\<close>), so it is a partial
  function whose value \<open>None\<close> is "does not return".
\<close>

subsection \<open>The alphabets\<close>

definition base64_chars :: "bool \<Rightarrow> string" where
  "base64_chars url =
     (if url
      then ''ABCDEFGHIJKLMNOPQRSTUVWXYZ'' @ ''abcdefghijklmnopqrstuvwxyz'' @ ''0123456789'' @ ''-_''
      else ''ABCDEFGHIJKLMNOPQRSTUVWXYZ'' @ ''abcdefghijklmnopqrstuvwxyz'' @ ''0123456789'' @ ''+/'')"

definition pos_of_char :: "byte \<Rightarrow> fault + u32" where
  "pos_of_char chr =
     (let c = unat chr; A = of_char (CHR ''A''); Z = of_char (CHR ''Z'');
          a = of_char (CHR ''a''); z = of_char (CHR ''z'');
          n0 = of_char (CHR ''0''); n9 = of_char (CHR ''9'') in
      if A \<le> c \<and> c \<le> Z then Inr (of_nat (c - A))
      else if a \<le> c \<and> c \<le> z then Inr (of_nat (c - a + (Z - A) + 1))
      else if n0 \<le> c \<and> c \<le> n9 then Inr (of_nat (c - n0 + (Z - A) + (z - a) + 2))
      else if c = of_char (CHR ''+'') \<or> c = of_char (CHR ''-'') then Inr 62
      else if c = of_char (CHR ''/'') \<or> c = of_char (CHR ''_'') then Inr 63
      else Inl (Runtime_error ''Input is not valid base64-encoded data.''))"

subsection \<open>Encoding\<close>

text \<open>The byte operands are promoted to 32-bit \<open>int\<close> before the masks and shifts.\<close>

definition enc0 :: "byte \<Rightarrow> u32" where
  "enc0 b0 = drop_bit 2 (ucast b0 AND 0xfc)"

definition enc1 :: "byte \<Rightarrow> byte \<Rightarrow> u32" where
  "enc1 b0 b1 = push_bit 4 (ucast b0 AND 0x03) + drop_bit 4 (ucast b1 AND 0xf0)"

definition enc2 :: "byte \<Rightarrow> byte \<Rightarrow> u32" where
  "enc2 b1 b2 = push_bit 2 (ucast b1 AND 0x0f) + drop_bit 6 (ucast b2 AND 0xc0)"

definition enc3 :: "byte \<Rightarrow> u32" where
  "enc3 b2 = ucast b2 AND 0x3f"

definition enc1_last :: "byte \<Rightarrow> u32" where
  "enc1_last b0 = push_bit 4 (ucast b0 AND 0x03)"

definition enc2_last :: "byte \<Rightarrow> u32" where
  "enc2_last b1 = push_bit 2 (ucast b1 AND 0x0f)"

partial_function (option) encode_loop ::
  "string \<Rightarrow> char \<Rightarrow> bytes \<Rightarrow> u32 \<Rightarrow> string \<Rightarrow> string option" where
  "encode_loop tbl trailing bs pos ret =
     (if unat pos < length bs then
        let b0 = bs ! unat (pos + 0);
            b1 = bs ! unat (pos + 1);
            b2 = bs ! unat (pos + 2);
            ret = ret @ [tbl ! unat (enc0 b0)];
            ret = (if unat (pos + 1) < length bs then
                     (let ret = ret @ [tbl ! unat (enc1 b0 b1)] in
                      if unat (pos + 2) < length bs
                      then ret @ [tbl ! unat (enc2 b1 b2)] @ [tbl ! unat (enc3 b2)]
                      else ret @ [tbl ! unat (enc2_last b1)] @ [trailing])
                   else ret @ [tbl ! unat (enc1_last b0)] @ [trailing] @ [trailing])
        in encode_loop tbl trailing bs (pos + 3) ret
      else Some ret)"

declare encode_loop.simps [code]

definition base64_encode_bytes :: "bytes \<Rightarrow> bool \<Rightarrow> string option" where
  "base64_encode_bytes bs url =
     encode_loop (base64_chars url) (if url then CHR ''.'' else CHR ''='') bs 0 []"

definition base64_encode :: "string \<Rightarrow> bool \<Rightarrow> string option" where
  "base64_encode s url = base64_encode_bytes (bytes_of s) url"

text \<open>\<open>insert_linebreaks\<close>: the loop inserts a newline and advances by \<open>distance + 1\<close>.\<close>

partial_function (option) linebreak_loop :: "string \<Rightarrow> nat \<Rightarrow> nat \<Rightarrow> string option" where
  "linebreak_loop str pos dist =
     (if pos < length str
      then linebreak_loop (str_replace str pos 0 [CHR 10]) (pos + (dist + 1)) dist
      else Some str)"

declare linebreak_loop.simps [code]

definition insert_linebreaks :: "string \<Rightarrow> nat \<Rightarrow> string option" where
  "insert_linebreaks str dist = (if str = [] then Some [] else linebreak_loop str dist dist)"

definition encode_with_line_breaks :: "nat \<Rightarrow> string \<Rightarrow> string option" where
  "encode_with_line_breaks line_length s =
     Option.bind (base64_encode s False) (\<lambda>e. insert_linebreaks e line_length)"

definition base64_encode_pem :: "string \<Rightarrow> string option" where
  "base64_encode_pem s = encode_with_line_breaks 64 s"

definition base64_encode_mime :: "string \<Rightarrow> string option" where
  "base64_encode_mime s = encode_with_line_breaks 76 s"

text \<open>The functions the header declares, for a \<open>std::string\<close> and for a \<open>std::string_view\<close>.\<close>

definition base64_encode_string :: "string \<Rightarrow> bool \<Rightarrow> string option" where
  "base64_encode_string s url = base64_encode s url"

definition base64_encode_pem_string :: "string \<Rightarrow> string option" where
  "base64_encode_pem_string s = base64_encode_pem s"

definition base64_encode_mime_string :: "string \<Rightarrow> string option" where
  "base64_encode_mime_string s = base64_encode_mime s"

definition base64_encode_view :: "string \<Rightarrow> bool \<Rightarrow> string option" where
  "base64_encode_view s url = base64_encode s url"

definition base64_encode_pem_view :: "string \<Rightarrow> string option" where
  "base64_encode_pem_view s = base64_encode_pem s"

definition base64_encode_mime_view :: "string \<Rightarrow> string option" where
  "base64_encode_mime_view s = base64_encode_mime s"

subsection \<open>Decoding\<close>

definition str_at :: "string \<Rightarrow> nat \<Rightarrow> fault + byte" where
  "str_at s i = (if i < length s then Inr (byte_of_char (s ! i)) else Inl Out_of_range)"

text \<open>\<open>pos_of_char(encoded_string.at(i))\<close>\<close>

definition char_pos :: "string \<Rightarrow> nat \<Rightarrow> fault + u32" where
  "char_pos s i = and_then (str_at s i) pos_of_char"

definition to_char :: "u64 \<Rightarrow> char" where
  "to_char w = char_of_byte (ucast w)"

definition dec0 :: "u32 \<Rightarrow> u64 \<Rightarrow> char" where
  "dec0 p0 p1 = to_char (ucast (push_bit 2 p0) + drop_bit 4 (p1 AND 0x30))"

definition dec1 :: "u64 \<Rightarrow> u32 \<Rightarrow> char" where
  "dec1 p1 p2 = to_char (push_bit 4 (p1 AND 0x0f) + ucast (drop_bit 2 (p2 AND 0x3c)))"

definition dec2 :: "u32 \<Rightarrow> u32 \<Rightarrow> char" where
  "dec2 p2 p3 = to_char (ucast (push_bit 6 (p2 AND 0x03) + p3))"

definition is_data :: "string \<Rightarrow> nat \<Rightarrow> bool" where
  "is_data s i = (i < length s \<and> s ! i \<noteq> CHR ''='' \<and> s ! i \<noteq> CHR ''.'')"

text \<open>The body of the decoding loop: the characters one chunk of four emits.\<close>

definition decode_chunk :: "string \<Rightarrow> nat \<Rightarrow> fault + string" where
  "decode_chunk s pos =
     and_then (char_pos s (pos + 1)) (\<lambda>w1. let p1 = ucast w1 in
     and_then (char_pos s (pos + 0)) (\<lambda>p0.
       let out = [dec0 p0 p1] in
       if is_data s (pos + 2) then
         and_then (char_pos s (pos + 2)) (\<lambda>p2.
           let out = out @ [dec1 p1 p2] in
           if is_data s (pos + 3) then
             and_then (char_pos s (pos + 3)) (\<lambda>p3. Inr (out @ [dec2 p2 p3]))
           else Inr out)
       else Inr out))"

function decode_loop :: "string \<Rightarrow> nat \<Rightarrow> string \<Rightarrow> fault + string" where
  "decode_loop s pos ret =
     (if pos < length s
      then and_then (decode_chunk s pos) (\<lambda>out. decode_loop s (pos + 4) (ret @ out))
      else Inr ret)"
  by pat_completeness auto
termination
  by (relation "measure (\<lambda>(s, pos, ret). length s - pos)") auto

declare decode_loop.simps [simp del]

function decode :: "string \<Rightarrow> bool \<Rightarrow> fault + string" where
  "decode encoded_string remove_linebreaks =
     (if encoded_string = [] then Inr []
      else if remove_linebreaks
      then decode (filter (\<lambda>c. c \<noteq> CHR 10) encoded_string) False
      else decode_loop encoded_string 0 [])"
  by pat_completeness auto
termination
  by (relation "measure (\<lambda>(s, rm). if rm then 1 else 0)") auto

declare decode.simps [simp del]

definition base64_decode :: "string \<Rightarrow> bool \<Rightarrow> fault + string" where
  "base64_decode s remove_linebreaks = decode s remove_linebreaks"

definition base64_decode_view :: "string \<Rightarrow> bool \<Rightarrow> fault + string" where
  "base64_decode_view s remove_linebreaks = decode s remove_linebreaks"


subsection \<open>Six bits out of eight, and back\<close>

lemma b64_masks:
  "(0x03 :: u32) = mask 2" "(0xf0 :: u32) = push_bit 4 (mask 4)" "(0xfc :: u32) = push_bit 2 (mask 6)"
  "(0x0f :: u32) = mask 4" "(0xc0 :: u32) = push_bit 6 (mask 2)" "(0x3f :: u32) = mask 6"
  "(0x3c :: u32) = push_bit 2 (mask 4)"
  "(0x30 :: u64) = push_bit 4 (mask 2)" "(0x0f :: u64) = mask 4"
  by (simp_all add: mask_eq_exp_minus_1)

lemma byte_bit_less: "bit (b :: byte) n \<Longrightarrow> n < 8"
  using bit_imp_le_length [of b n] by simp

lemma Suc_minus:
  "2 \<le> n \<Longrightarrow> Suc (Suc (n - 2)) = n"
  "4 \<le> n \<Longrightarrow> Suc (Suc (Suc (Suc (n - 4)))) = n"
  "4 \<le> n \<Longrightarrow> 4 + (n - 4) = n"
  "6 \<le> n \<Longrightarrow> 6 + (n - 6) = n"
  by auto

lemma enc1_or: "enc1 b0 b1 = push_bit 4 (ucast b0 AND 0x03) OR drop_bit 4 (ucast b1 AND 0xf0)"
  unfolding enc1_def b64_masks by (rule disjunctive_add) (auto simp: bit_simps)

lemma enc2_or: "enc2 b1 b2 = push_bit 2 (ucast b1 AND 0x0f) OR drop_bit 6 (ucast b2 AND 0xc0)"
  unfolding enc2_def b64_masks by (rule disjunctive_add) (auto simp: bit_simps)

lemma enc1_last_eq: "enc1_last b0 = enc1 b0 0"
  by (simp add: enc1_last_def enc1_def)

lemma enc2_last_eq: "enc2_last b1 = enc2 b1 0"
  by (simp add: enc2_last_def enc2_def)

lemma dec0_enc: "dec0 (enc0 b0) (ucast (enc1 b0 b1)) = char_of_byte b0"
proof -
  have "ucast (push_bit 2 (enc0 b0)) + drop_bit 4 (ucast (enc1 b0 b1) AND 0x30) =
     ucast (push_bit 2 (enc0 b0)) OR (drop_bit 4 (ucast (enc1 b0 b1) AND 0x30) :: u64)"
    unfolding enc0_def enc1_or b64_masks by (rule disjunctive_add) (auto simp: bit_simps)
  moreover have
    "ucast (ucast (push_bit 2 (enc0 b0)) OR (drop_bit 4 (ucast (enc1 b0 b1) AND 0x30) :: u64)) = b0"
    unfolding enc0_def enc1_or b64_masks
    by (rule bit_eqI) (auto simp: bit_simps Suc_minus dest: byte_bit_less)
  ultimately show ?thesis by (simp only: dec0_def to_char_def)
qed

lemma dec1_enc: "dec1 (ucast (enc1 b0 b1)) (enc2 b1 b2) = char_of_byte b1"
proof -
  have "push_bit 4 (ucast (enc1 b0 b1) AND 0x0f) + ucast (drop_bit 2 (enc2 b1 b2 AND 0x3c)) =
     (push_bit 4 (ucast (enc1 b0 b1) AND 0x0f) OR ucast (drop_bit 2 (enc2 b1 b2 AND 0x3c)) :: u64)"
    unfolding enc2_or enc1_or b64_masks by (rule disjunctive_add) (auto simp: bit_simps)
  moreover have
    "ucast (push_bit 4 (ucast (enc1 b0 b1) AND 0x0f) OR ucast (drop_bit 2 (enc2 b1 b2 AND 0x3c)) :: u64) = b1"
    unfolding enc2_or enc1_or b64_masks
    by (rule bit_eqI) (auto simp: bit_simps Suc_minus dest: byte_bit_less)
  ultimately show ?thesis by (simp only: dec1_def to_char_def)
qed

lemma dec2_enc: "dec2 (enc2 b1 b2) (enc3 b2) = char_of_byte b2"
proof -
  have "push_bit 6 (enc2 b1 b2 AND 0x03) + enc3 b2 = push_bit 6 (enc2 b1 b2 AND 0x03) OR enc3 b2"
    unfolding enc2_or enc3_def b64_masks by (rule disjunctive_add) (auto simp: bit_simps)
  moreover have
    "ucast (ucast (push_bit 6 (enc2 b1 b2 AND 0x03) OR enc3 b2) :: u64) = b2"
    unfolding enc2_or enc3_def b64_masks
    by (rule bit_eqI) (auto simp: bit_simps Suc_minus dest: byte_bit_less)
  ultimately show ?thesis by (simp only: dec2_def to_char_def)
qed

lemma six_bits:
  assumes "\<And>n. bit (w :: u32) n \<Longrightarrow> n < 6"
  shows "unat w < 64"
proof -
  have "take_bit 6 w = w"
    by (rule bit_eqI) (use assms in \<open>auto simp: bit_simps\<close>)
  then have "take_bit 6 (unat w) = unat w"
    by (metis unsigned_take_bit_eq)
  then have "unat w < 2 ^ 6"
    by (simp only: take_bit_nat_eq_self_iff)
  then show ?thesis by simp
qed

lemma enc_less [simp]:
  "unat (enc0 b0) < 64" "unat (enc1 b0 b1) < 64" "unat (enc2 b1 b2) < 64" "unat (enc3 b2) < 64"
proof -
  show "unat (enc0 b0) < 64"
    by (rule six_bits) (auto simp: enc0_def b64_masks bit_simps dest: byte_bit_less)
  show "unat (enc1 b0 b1) < 64"
    by (rule six_bits) (auto simp: enc1_or b64_masks bit_simps dest: byte_bit_less)
  show "unat (enc2 b1 b2) < 64"
    by (rule six_bits) (auto simp: enc2_or b64_masks bit_simps dest: byte_bit_less)
  show "unat (enc3 b2) < 64"
    by (rule six_bits) (auto simp: enc3_def b64_masks bit_simps)
qed

subsection \<open>The alphabet and its inverse\<close>

lemma length_base64_chars [simp]: "length (base64_chars url) = 64"
  by (simp add: base64_chars_def)

lemma base64_chars_table:
  "list_all (\<lambda>(c, i). pos_of_char (byte_of_char c) = Inr (of_nat i) \<and>
     c \<noteq> CHR ''='' \<and> c \<noteq> CHR ''.'' \<and> c \<noteq> CHR 10) (zip (base64_chars url) [0..<64])"
  by (cases url) (simp_all add: base64_chars_def pos_of_char_def upt_rec)

lemma base64_chars_pos:
  assumes "i < 64"
  shows "pos_of_char (byte_of_char (base64_chars url ! i)) = Inr (of_nat i)"
    and "base64_chars url ! i \<noteq> CHR ''=''" and "base64_chars url ! i \<noteq> CHR ''.''"
    and "base64_chars url ! i \<noteq> CHR 10"
  using base64_chars_table [of url] assms by (auto simp: list_all_length)

lemma base64_chars_enc [simp]:
  assumes "unat w < 64"
  shows "pos_of_char (byte_of_char (base64_chars url ! unat w)) = Inr w"
    and "base64_chars url ! unat w \<noteq> CHR ''=''" and "base64_chars url ! unat w \<noteq> CHR ''.''"
    and "base64_chars url ! unat w \<noteq> CHR 10"
  using base64_chars_pos [OF assms] by simp_all

subsection \<open>The encoder against a structural reference\<close>

fun encode_groups :: "bool \<Rightarrow> bytes \<Rightarrow> string" where
  "encode_groups url [] = []"
| "encode_groups url [b0] =
     [base64_chars url ! unat (enc0 b0), base64_chars url ! unat (enc1_last b0)] @
     replicate 2 (if url then CHR ''.'' else CHR ''='')"
| "encode_groups url [b0, b1] =
     [base64_chars url ! unat (enc0 b0), base64_chars url ! unat (enc1 b0 b1),
      base64_chars url ! unat (enc2_last b1), if url then CHR ''.'' else CHR ''='']"
| "encode_groups url (b0 # b1 # b2 # bs) =
     [base64_chars url ! unat (enc0 b0), base64_chars url ! unat (enc1 b0 b1),
      base64_chars url ! unat (enc2 b1 b2), base64_chars url ! unat (enc3 b2)] @
     encode_groups url bs"

lemma length_encode_groups: "length (encode_groups url bs) = (length bs + 2) div 3 * 4"
proof (induction url bs rule: encode_groups.induct)
  case (4 url b0 b1 b2 bs)
  have "(length bs + 5) div 3 = (length bs + 2) div 3 + 1" by presburger
  with 4 show ?case by (simp add: add.commute)
qed simp_all

lemma encode_groups_alphabet:
  "c \<in> set (encode_groups url bs) \<Longrightarrow>
     c \<in> set (base64_chars url) \<or> c = (if url then CHR ''.'' else CHR ''='')"
  by (induction url bs rule: encode_groups.induct)
     (auto simp: enc1_last_eq enc2_last_eq)

lemma unat_pos:
  assumes "p + k < 2 ^ 32"
  shows "unat (of_nat p + of_nat k :: u32) = p + k"
proof -
  have "(of_nat p + of_nat k :: u32) = of_nat (p + k)" by simp
  then show ?thesis using assms by (simp only: unat_of_nat) simp
qed

lemma unat_pos_numeral:
  assumes "p + 2 < 2 ^ 32"
  shows "unat (of_nat p :: u32) = p" "unat (of_nat p + 1 :: u32) = p + 1" "unat (of_nat p + 2 :: u32) = p + 2"
  using unat_pos [of p 0] unat_pos [of p 1] unat_pos [of p 2] assms by simp_all

lemma encode_pos:
  assumes "p mod 3 = 0" and "p < n" and "n < 2 ^ 32"
  shows "unat (of_nat p :: u32) = p" "unat (of_nat p + 1 :: u32) = p + 1"
    "unat (of_nat p + 2 :: u32) = p + 2" "unat (of_nat p + 3 :: u32) = p + 3"
proof -
  have "p + 3 < 2 ^ 32" using assms by (simp, presburger)
  then show "unat (of_nat p :: u32) = p" "unat (of_nat p + 1 :: u32) = p + 1"
    "unat (of_nat p + 2 :: u32) = p + 2" "unat (of_nat p + 3 :: u32) = p + 3"
    using unat_pos [of p 0] unat_pos [of p 1] unat_pos [of p 2] unat_pos [of p 3] by simp_all
qed

lemma encode_loop_stop:
  "length bs \<le> unat pos \<Longrightarrow> encode_loop tbl tr bs pos ret = Some ret"
  by (subst encode_loop.simps) simp

lemma encode_loop_groups:
  assumes "length pre mod 3 = 0" and "length (pre @ bs) < 2 ^ 32"
  shows "encode_loop (base64_chars url) (if url then CHR ''.'' else CHR ''='') (pre @ bs)
           (of_nat (length pre)) ret = Some (ret @ encode_groups url bs)"
  using assms
proof (induction url bs arbitrary: pre ret rule: encode_groups.induct)
  case (1 url)
  then have "unat (of_nat (length pre) :: u32) = length pre"
    using unat_pos [of "length pre" 0] by simp
  then show ?case by (simp add: encode_loop_stop)
next
  case (2 url b0)
  note pos = encode_pos [OF 2(1) _ 2(2), simplified]
  show ?case
    by (subst encode_loop.simps) (simp add: pos encode_loop_stop nth_append numeral_2_eq_2)
next
  case (3 url b0 b1)
  note pos = encode_pos [OF 3(1) _ 3(2), simplified]
  show ?case
    by (subst encode_loop.simps) (simp add: pos encode_loop_stop nth_append)
next
  case (4 url b0 b1 b2 bs)
  note pos = encode_pos [OF 4(2) _ 4(3), simplified]
  have "length (pre @ [b0, b1, b2]) mod 3 = 0" using 4(2) by simp
  with 4(1) [of "pre @ [b0, b1, b2]"] 4(3) show ?case
    by (subst encode_loop.simps) (cases url; simp add: pos nth_append add.commute [of _ 3])
qed

lemma base64_encode_groups:
  "length bs < 2 ^ 32 \<Longrightarrow> base64_encode_bytes bs url = Some (encode_groups url bs)"
  using encode_loop_groups [of "[]" bs url "[]"] by (simp add: base64_encode_bytes_def)

text \<open>The 32-bit counter: an input of \<open>2 ^ 32\<close> bytes or more is never finished.\<close>

lemma encode_loop_returns_short:
  assumes "encode_loop tbl tr bs pos ret = Some r"
  shows "length bs < 2 ^ 32"
proof (rule encode_loop.raw_induct
    [where P = "\<lambda>tbl tr bs pos ret r. length bs < 2 ^ 32", OF _ assms])
  fix f :: "string \<Rightarrow> char \<Rightarrow> bytes \<Rightarrow> u32 \<Rightarrow> string \<Rightarrow> string option"
    and tbl :: string and tr :: char and bs :: bytes and pos :: u32 and ret r :: string
  assume IH: "\<And>tbl tr bs pos ret r. f tbl tr bs pos ret = Some r \<Longrightarrow> length bs < 2 ^ 32"
    and eq: "(if unat pos < length bs then
        let b0 = bs ! unat (pos + 0);
            b1 = bs ! unat (pos + 1);
            b2 = bs ! unat (pos + 2);
            ret = ret @ [tbl ! unat (enc0 b0)];
            ret = (if unat (pos + 1) < length bs then
                     (let ret = ret @ [tbl ! unat (enc1 b0 b1)] in
                      if unat (pos + 2) < length bs
                      then ret @ [tbl ! unat (enc2 b1 b2)] @ [tbl ! unat (enc3 b2)]
                      else ret @ [tbl ! unat (enc2_last b1)] @ [tr])
                   else ret @ [tbl ! unat (enc1_last b0)] @ [tr] @ [tr])
        in f tbl tr bs (pos + 3) ret
      else Some ret) = Some r"
  show "length bs < 2 ^ 32"
  proof (cases "unat pos < length bs")
    case True
    with eq IH show ?thesis by (simp add: Let_def)
  next
    case False
    with unsigned_less [of pos, where 'a = nat] show ?thesis by simp
  qed
qed

subsection \<open>Decoding what was encoded\<close>

lemma decode_loop_stop: "length s \<le> pos \<Longrightarrow> decode_loop s pos ret = Inr ret"
  by (subst decode_loop.simps) simp

lemma decode_loop_groups:
  "decode_loop (pre @ encode_groups url bs) (length pre) ret = Inr (ret @ string_of bs)"
proof (induction url bs arbitrary: pre ret rule: encode_groups.induct)
  case (1 url)
  show ?case by (simp add: decode_loop_stop)
next
  case (2 url b0)
  show ?case
    by (subst decode_loop.simps)
       (simp add: decode_chunk_def char_pos_def str_at_def is_data_def nth_append fault_simps
         decode_loop_stop enc1_last_eq dec0_enc numeral_2_eq_2)
next
  case (3 url b0 b1)
  show ?case
    by (subst decode_loop.simps)
       (simp add: decode_chunk_def char_pos_def str_at_def is_data_def nth_append fault_simps
         decode_loop_stop enc2_last_eq dec0_enc dec1_enc)
next
  case (4 url b0 b1 b2 bs)
  let ?chunk = "[base64_chars url ! unat (enc0 b0), base64_chars url ! unat (enc1 b0 b1),
      base64_chars url ! unat (enc2 b1 b2), base64_chars url ! unat (enc3 b2)]"
  have "decode_chunk (pre @ encode_groups url (b0 # b1 # b2 # bs)) (length pre) =
      Inr [char_of_byte b0, char_of_byte b1, char_of_byte b2]"
    by (simp add: decode_chunk_def char_pos_def str_at_def is_data_def nth_append fault_simps
        dec0_enc dec1_enc dec2_enc)
  moreover have "length (pre @ ?chunk) = length pre + 4" by simp
  with "4" [of "pre @ ?chunk"]
  have "decode_loop (pre @ encode_groups url (b0 # b1 # b2 # bs)) (length pre + 4) ret' =
      Inr (ret' @ string_of bs)" for ret'
    by (metis append.assoc encode_groups.simps(4))
  ultimately show ?case
    by (subst decode_loop.simps) (simp add: fault_simps)
qed

lemma decode_encode_groups: "decode (encode_groups url bs) False = Inr (string_of bs)"
proof (cases "encode_groups url bs = []")
  case True
  then have "bs = []" by (cases "(url, bs)" rule: encode_groups.cases) auto
  then show ?thesis by (simp add: decode.simps)
next
  case False
  then show ?thesis using decode_loop_groups [of "[]" url bs "[]"] by (simp add: decode.simps)
qed

subsection \<open>Line breaks\<close>

text \<open>The lines of the broken text, as a structural reference: full lines of \<open>n\<close> characters,
  each but the last followed by a newline.\<close>

function break_lines :: "nat \<Rightarrow> string \<Rightarrow> string" where
  "break_lines n s =
     (if n = 0 \<or> length s \<le> n then s else take n s @ [CHR 10] @ break_lines n (drop n s))"
  by pat_completeness auto
termination
  by (relation "measure (\<lambda>(n, s). length s)") auto

declare break_lines.simps [simp del]

lemma linebreak_loop_break_lines:
  assumes "0 < n"
  shows "linebreak_loop (pre @ s) (length pre + n) n = Some (pre @ break_lines n s)"
proof (induction s arbitrary: pre rule: length_induct)
  case (1 s)
  show ?case
  proof (cases "length s \<le> n")
    case True
    then show ?thesis by (simp add: linebreak_loop.simps [of "pre @ s"] break_lines.simps [of n s])
  next
    case False
    let ?pre = "pre @ take n s @ [CHR 10]"
    from assms False have "length (drop n s) < length s" by auto
    with 1 have "linebreak_loop (?pre @ drop n s) (length ?pre + n) n =
        Some (?pre @ break_lines n (drop n s))" by blast
    moreover have "length ?pre = length pre + (n + 1)" using False by simp
    ultimately show ?thesis using False assms
      by (simp add: linebreak_loop.simps [of "pre @ s"] break_lines.simps [of n s]
          str_replace_def algebra_simps)
  qed
qed

lemma insert_linebreaks_break_lines:
  assumes "0 < n"
  shows "insert_linebreaks s n = Some (break_lines n s)"
  using linebreak_loop_break_lines [OF assms, of "[]" s]
  by (simp add: insert_linebreaks_def break_lines.simps)

lemma filter_break_lines:
  assumes "CHR 10 \<notin> set s"
  shows "filter (\<lambda>c. c \<noteq> CHR 10) (break_lines n s) = s"
  using assms
proof (induction n s rule: break_lines.induct)
  case (1 n s)
  have id: "CHR 10 \<notin> set t \<Longrightarrow> filter (\<lambda>c. c \<noteq> CHR 10) t = t" for t :: string
    by (auto simp: filter_id_conv)
  have "CHR 10 \<notin> set (take n s)" "CHR 10 \<notin> set (drop n s)"
    using 1(2) by (meson in_set_takeD in_set_dropD)+
  with 1 show ?case by (auto simp: break_lines.simps [of n s] id)
qed

text \<open>Cutting a text at its newlines.\<close>

fun lines_of :: "string \<Rightarrow> string list" where
  "lines_of [] = [[]]"
| "lines_of (c # s) = (if c = CHR 10 then [] # lines_of s
     else case lines_of s of l # ls \<Rightarrow> (c # l) # ls | [] \<Rightarrow> [[c]])"

lemma lines_of_append_newline:
  "CHR 10 \<notin> set l \<Longrightarrow> lines_of (l @ CHR 10 # s) = l # lines_of s"
  by (induction l) auto

lemma lines_of_single: "CHR 10 \<notin> set l \<Longrightarrow> lines_of l = [l]"
  by (induction l) auto

lemma lines_of_break_lines:
  assumes "CHR 10 \<notin> set s" and "0 < n"
  shows "\<forall>l\<in>set (lines_of (break_lines n s)). length l \<le> n"
  using assms
proof (induction n s rule: break_lines.induct)
  case (1 n s)
  have nl: "CHR 10 \<notin> set (take n s)" "CHR 10 \<notin> set (drop n s)"
    using 1(2) by (meson in_set_takeD in_set_dropD)+
  show ?case
  proof (cases "length s \<le> n")
    case True
    with 1 show ?thesis by (simp add: break_lines.simps [of n s] lines_of_single)
  next
    case False
    with 1 nl show ?thesis
      by (simp add: break_lines.simps [of n s] lines_of_append_newline)
  qed
qed

lemma no_newline_encode_groups: "CHR 10 \<notin> set (encode_groups url bs)"
proof
  assume "CHR 10 \<in> set (encode_groups url bs)"
  then have "CHR 10 \<in> set (base64_chars url) \<or> CHR 10 = (if url then CHR ''.'' else CHR ''='')"
    by (rule encode_groups_alphabet)
  then show False by (auto simp: base64_chars_def split: if_splits)
qed

subsection \<open>What the decoder accepts\<close>

definition valid_char :: "char \<Rightarrow> bool" where
  "valid_char c = (c \<in> set (base64_chars False) \<union> set (base64_chars True))"

lemma pos_of_char_ranges:
  "(\<exists>p. pos_of_char b = Inr p) \<longleftrightarrow>
     unat b \<in> {65..90} \<union> {97..122} \<union> {48..57} \<union> {43, 45, 47, 95}"
  by (simp add: pos_of_char_def Let_def)

lemma valid_char_ranges:
  "valid_char c \<longleftrightarrow> of_char c \<in> {65..90} \<union> {97..122} \<union> {48..57} \<union> {43, 45, 47, 95 :: nat}"
proof -
  have inj: "c \<in> S \<longleftrightarrow> (of_char c :: nat) \<in> of_char ` S" for S
    by (auto simp: inj_image_mem_iff [OF inj_of_char])
  have "of_char ` (set (base64_chars False) \<union> set (base64_chars True)) =
      set ([65..<91] @ [97..<123] @ [48..<58] @ [43, 45, 47, 95 :: nat])"
    by (simp add: base64_chars_def upt_rec insert_commute)
  also have "\<dots> = {65..90} \<union> {97..122} \<union> {48..57} \<union> {43, 45, 47, 95}"
    by (simp only: set_append set_upt) auto
  finally show ?thesis by (simp only: valid_char_def inj)
qed

lemma pos_of_char_valid: "(\<exists>p. pos_of_char (byte_of_char c) = Inr p) \<longleftrightarrow> valid_char c"
  by (simp only: pos_of_char_ranges valid_char_ranges unat_byte_of_char)

definition chunk_ok :: "string \<Rightarrow> nat \<Rightarrow> bool" where
  "chunk_ok s p =
     (p + 1 < length s \<and> valid_char (s ! p) \<and> valid_char (s ! (p + 1)) \<and>
      (if is_data s (p + 2)
       then valid_char (s ! (p + 2)) \<and> (if is_data s (p + 3) then valid_char (s ! (p + 3)) else True)
       else True))"

lemma char_pos_ok: "(\<exists>w. char_pos s i = Inr w) \<longleftrightarrow> i < length s \<and> valid_char (s ! i)"
  by (simp add: char_pos_def str_at_def pos_of_char_valid)

lemma is_data_less: "is_data s i \<Longrightarrow> i < length s"
  by (simp add: is_data_def)

lemma and_then_ex:
  "(\<exists>r. and_then m f = Inr r) \<longleftrightarrow> (\<exists>a. m = Inr a \<and> (\<exists>r. f a = Inr r))"
  by (cases m) auto

lemma decode_chunk_ok:
  assumes "p < length s"
  shows "(\<exists>out. decode_chunk s p = Inr out) \<longleftrightarrow> chunk_ok s p"
  using assms
  by (cases "is_data s (p + 2)"; cases "is_data s (p + 3)")
     (auto simp: decode_chunk_def chunk_ok_def Let_def and_then_ex char_pos_ok is_data_less
       simp del: and_then_Inr_iff)

lemma length_decode_chunk:
  assumes "decode_chunk s p = Inr out"
  shows "1 \<le> length out" and "length out \<le> 3"
  using assms by (auto simp: decode_chunk_def Let_def and_then_Inr_iff split: if_splits)

lemma decode_loop_ok:
  "(\<exists>r. decode_loop s pos ret = Inr r) \<longleftrightarrow> (\<forall>k. pos + 4 * k < length s \<longrightarrow> chunk_ok s (pos + 4 * k))"
proof (induction s pos ret rule: decode_loop.induct)
  case (1 s pos ret)
  show ?case
  proof (cases "pos < length s")
    case False
    then show ?thesis by (simp add: decode_loop_stop)
  next
    case True
    have split: "(\<forall>k. pos + 4 * k < length s \<longrightarrow> chunk_ok s (pos + 4 * k)) \<longleftrightarrow>
        chunk_ok s pos \<and> (\<forall>k. pos + 4 + 4 * k < length s \<longrightarrow> chunk_ok s (pos + 4 + 4 * k))"
      (is "(\<forall>k. ?P k) \<longleftrightarrow> ?C \<and> (\<forall>k. ?P' k)")
    proof -
      have "(\<forall>k. ?P k) \<longleftrightarrow> ?P 0 \<and> (\<forall>k. ?P (Suc k))"
        by (metis nat.exhaust)
      then show ?thesis using True by (simp add: algebra_simps)
    qed
    show ?thesis
    proof (cases "decode_chunk s pos")
      case (Inl e)
      then have "\<not> chunk_ok s pos" using decode_chunk_ok [OF True] by simp
      then show ?thesis
        unfolding split using True Inl by (subst decode_loop.simps) simp
    next
      case (Inr out)
      then have "chunk_ok s pos" using decode_chunk_ok [OF True] by blast
      then show ?thesis
        unfolding split using True Inr 1 [OF True, of out] by (subst decode_loop.simps) simp
    qed
  qed
qed

lemma div_four_step:
  assumes "0 < (n :: nat)"
  shows "(n + 3) div 4 = Suc ((n - 4 + 3) div 4)"
proof (cases "4 \<le> n")
  case True
  then obtain m where "n = m + 4" using le_Suc_ex by (metis add.commute)
  then show ?thesis using div_add_self2 [of 4 "m + 3"] by simp
next
  case False
  with assms have "n = 1 \<or> n = 2 \<or> n = 3" by auto
  then show ?thesis by auto
qed

lemma decode_loop_length:
  "decode_loop s pos ret = Inr r \<Longrightarrow>
     length ret \<le> length r \<and> length r \<le> length ret + 3 * ((length s - pos + 3) div 4)"
proof (induction s pos ret rule: decode_loop.induct)
  case (1 s pos ret)
  show ?case
  proof (cases "pos < length s")
    case False
    with 1(2) show ?thesis by (simp add: decode_loop_stop)
  next
    case True
    with 1(2) obtain out where out: "decode_chunk s pos = Inr out"
      "decode_loop s (pos + 4) (ret @ out) = Inr r"
      by (subst (asm) decode_loop.simps) (auto simp: fault_iffs)
    from div_four_step [of "length s - pos"] True
    have "(length s - pos + 3) div 4 = Suc ((length s - (pos + 4) + 3) div 4)" by simp
    moreover have "length (ret @ out) = length ret + length out" by simp
    ultimately show ?thesis using 1(1) [OF True out] length_decode_chunk [OF out(1)] by linarith
  qed
qed

lemma if_Inr_eq_Inl: "(if P then Inr x else y) = Inl e \<longleftrightarrow> \<not> P \<and> y = Inl e"
  by simp

lemma pos_of_char_fault: "pos_of_char b = Inl e \<Longrightarrow> is_exception e"
proof -
  assume "pos_of_char b = Inl e"
  then have "Inl (Runtime_error ''Input is not valid base64-encoded data.'') = (Inl e :: fault + u32)"
    unfolding pos_of_char_def Let_def if_Inr_eq_Inl by (elim conjE)
  then show ?thesis by (simp only: sum.inject) auto
qed

lemma char_pos_fault: "char_pos s i = Inl e \<Longrightarrow> is_exception e"
  by (auto simp: char_pos_def and_then_Inl_iff str_at_def pos_of_char_fault split: if_splits)

lemma decode_chunk_fault: "decode_chunk s p = Inl e \<Longrightarrow> is_exception e"
  by (auto simp: decode_chunk_def Let_def and_then_Inl_iff split: if_splits dest: char_pos_fault)

lemma decode_loop_fault: "decode_loop s pos ret = Inl e \<Longrightarrow> is_exception e"
proof (induction s pos ret rule: decode_loop.induct)
  case (1 s pos ret)
  show ?case
  proof (cases "pos < length s")
    case False
    with 1(2) show ?thesis by (simp add: decode_loop_stop)
  next
    case True
    with 1(2) consider "decode_chunk s pos = Inl e"
      | out where "decode_chunk s pos = Inr out" "decode_loop s (pos + 4) (ret @ out) = Inl e"
      by (subst (asm) decode_loop.simps) (auto simp: and_then_Inl_iff)
    then show ?thesis using 1(1) [OF True] by cases (auto dest: decode_chunk_fault)
  qed
qed

subsection \<open>Properties\<close>

text \<open>
  C12: encoding returns, and decoding what it returns gives the input back, with either alphabet,
  for every input shorter than \<open>2 ^ 32\<close> bytes.
\<close>
theorem base64_roundtrip:
  assumes "length s < 2 ^ 32"
  shows "\<exists>e. base64_encode s url = Some e \<and> base64_decode e False = Inr s \<and>
    length e = (length s + 2) div 3 * 4"
  using base64_encode_groups [of "bytes_of s" url] assms
  by (simp add: base64_encode_def base64_decode_def decode_encode_groups length_encode_groups)

theorem base64_roundtrip_witness:
  "\<exists>e. base64_encode ''Hello'' True = Some e \<and> base64_decode e False = Inr ''Hello'' \<and> length e = 8"
  using base64_roundtrip [of "''Hello''" True] by simp

text \<open>
  C25: the encoder returns exactly on inputs shorter than \<open>2 ^ 32\<close> bytes. Its loop counter
  \<open>pos\<close> is a 32-bit \<open>unsigned int\<close> compared with a \<open>size_t\<close>, so on a longer input it wraps
  and the loop never ends.
\<close>
theorem base64_encode_returns_iff:
  "(\<exists>e. base64_encode s url = Some e) \<longleftrightarrow> length s < 2 ^ 32"
proof
  assume "\<exists>e. base64_encode s url = Some e"
  then obtain e where "base64_encode s url = Some e" ..
  then show "length s < 2 ^ 32"
    by (auto simp: base64_encode_def base64_encode_bytes_def dest: encode_loop_returns_short)
next
  assume "length s < 2 ^ 32"
  then show "\<exists>e. base64_encode s url = Some e"
    using base64_encode_groups [of "bytes_of s" url] by (simp add: base64_encode_def)
qed

text \<open>
  C26: the line-broken forms (PEM with 64 and MIME with 76 characters a line): every line is at most
  that long, and decoding with \<open>remove_linebreaks\<close> gives the input back.
\<close>
theorem base64_linebreaks_roundtrip:
  assumes "length s < 2 ^ 32" and "0 < n"
  shows "\<exists>e. encode_with_line_breaks n s = Some e \<and> base64_decode e True = Inr s \<and>
    (\<forall>l\<in>set (lines_of e). length l \<le> n)"
proof -
  let ?g = "encode_groups False (bytes_of s)"
  have "encode_with_line_breaks n s = Some (break_lines n ?g)"
    using base64_encode_groups [of "bytes_of s" False] assms
    by (simp add: encode_with_line_breaks_def base64_encode_def insert_linebreaks_break_lines)
  moreover have "base64_decode (break_lines n ?g) True = Inr s"
  proof (cases "break_lines n ?g = []")
    case True
    then have "?g = []"
      by (subst (asm) break_lines.simps) (auto split: if_splits)
    then show ?thesis using True decode_encode_groups [of False "bytes_of s"]
      by (simp add: base64_decode_def decode.simps)
  next
    case False
    then show ?thesis
      using decode_encode_groups [of False "bytes_of s"]
        filter_break_lines [OF no_newline_encode_groups, of n False "bytes_of s"]
      by (simp add: base64_decode_def decode.simps [of "break_lines n ?g" True])
  qed
  ultimately show ?thesis
    using lines_of_break_lines [OF no_newline_encode_groups assms(2)] by blast
qed

theorem base64_linebreaks_roundtrip_witness:
  "\<exists>e. base64_encode_pem ''0123456789012345678901234567890123456789012345678901'' = Some e \<and>
    base64_decode e True = Inr ''0123456789012345678901234567890123456789012345678901'' \<and>
    (\<forall>l\<in>set (lines_of e). length l \<le> 64)"
  using base64_linebreaks_roundtrip
    [of "''0123456789012345678901234567890123456789012345678901''" 64]
  by (simp add: base64_encode_pem_def)

text \<open>
  C24: the decoder returns exactly when every chunk of four starts with two alphabet characters and
  continues with alphabet characters up to a pad; otherwise it throws a standard exception
  (never reading out of bounds), and what it returns is at most three bytes a chunk.
\<close>
theorem base64_decode_accepts:
  "((\<exists>r. base64_decode s False = Inr r) \<longleftrightarrow> (\<forall>k. 4 * k < length s \<longrightarrow> chunk_ok s (4 * k))) \<and>
   (\<forall>e. base64_decode s False = Inl e \<longrightarrow> is_exception e) \<and>
   (\<forall>r. base64_decode s False = Inr r \<longrightarrow> length r \<le> 3 * ((length s + 3) div 4))"
  using decode_loop_ok [of s 0 "[]"] decode_loop_fault [of s 0 "[]"] decode_loop_length [of s 0 "[]"]
  by (auto simp: base64_decode_def decode.simps split: if_splits)

theorem base64_decode_accepts_witness:
  "(\<exists>r. base64_decode ''QQ'' False = Inr r) \<and> \<not> (\<exists>r. base64_decode ''QUJDR'' False = Inr r)"
proof -
  have "k = 0" if "4 * k < length ''QQ''" for k :: nat
    using that by simp
  moreover have "chunk_ok ''QQ'' 0"
    by (simp add: chunk_ok_def is_data_def valid_char_def base64_chars_def)
  ultimately have "\<forall>k. 4 * k < length ''QQ'' \<longrightarrow> chunk_ok ''QQ'' (4 * k)"
    by (metis mult_0_right)
  moreover have "\<not> (4 * 1 < length ''QUJDR'' \<longrightarrow> chunk_ok ''QUJDR'' (4 * 1))"
    by (simp add: chunk_ok_def)
  ultimately show ?thesis
    using base64_decode_accepts [of "''QQ''"] base64_decode_accepts [of "''QUJDR''"] by blast
qed

end
