(* ===== verification/Config_Manager.thy ===== *)
theory Config_Manager
  imports Interfaces
begin

text \<open>
  The configuration of the FTP server, \<open>src/src/05_ftp/include/ConfigManager.h\<close>: the sections of
  an INI file as maps of strings, the paths the server writes to, and the constructor that reads
  the file and creates the directories. The INI parser of Boost is a parameter: what it returns
  for a file is the list of sections, each a list of keys with their values, in file order. The
  directories of the file system are a parameter as well (\<open>fs_ops\<close>); paths are strings with the
  POSIX meaning of \<open>operator/\<close>.
\<close>

subsection \<open>Paths\<close>

text \<open>\<open>fs::path::operator/\<close>: an absolute right operand replaces the left one; otherwise a
  separator is added when the left operand ends in a file name.\<close>

definition path_append :: "string \<Rightarrow> string \<Rightarrow> string" where
  "path_append p q =
     (if q \<noteq> [] \<and> hd q = CHR ''/'' then q
      else if p \<noteq> [] \<and> last p \<noteq> CHR ''/'' then p @ ''/'' @ q
      else p @ q)"

record 'f fs_ops =
  current_path :: "'f \<Rightarrow> string"
  fs_exists :: "string \<Rightarrow> 'f \<Rightarrow> bool"
  create_directory :: "string \<Rightarrow> 'f \<Rightarrow> fault + 'f"

text \<open>What the code relies on: a directory that was created exists, and creating one removes none.\<close>

definition fs_laws :: "'f fs_ops \<Rightarrow> bool" where
  "fs_laws fs =
     (\<forall>p f f'. create_directory fs p f = Inr f' \<longrightarrow>
        fs_exists fs p f' \<and> (\<forall>q. fs_exists fs q f \<longrightarrow> fs_exists fs q f'))"

subsection \<open>Sections\<close>

type_synonym section_info = "string \<rightharpoonup> string"

definition SectionInfo :: section_info where
  "SectionInfo = Map.empty"

definition SectionInfo_GetValue :: "section_info \<Rightarrow> string \<Rightarrow> string" where
  "SectionInfo_GetValue datas key = (case datas key of None \<Rightarrow> '''' | Some v \<Rightarrow> v)"

definition SectionInfo_SetValue :: "string \<Rightarrow> string \<Rightarrow> section_info \<Rightarrow> section_info" where
  "SectionInfo_SetValue key v datas = datas(key \<mapsto> v)"

text \<open>\<open>operator[]\<close> reads; assignment copies, and does nothing for the object itself.\<close>

definition SectionInfo_index :: "section_info \<Rightarrow> string \<Rightarrow> string" where
  "SectionInfo_index datas key = SectionInfo_GetValue datas key"

declare SectionInfo_index_def [simp]

definition SectionInfo_assign :: "bool \<Rightarrow> section_info \<Rightarrow> section_info \<Rightarrow> section_info" where
  "SectionInfo_assign same src datas = (if same then datas else src)"

subsection \<open>The configuration\<close>

record config =
  configMap :: "string \<rightharpoonup> section_info"
  staticPath :: string
  binPath :: string

text \<open>\<open>operator[]\<close> inserts an empty section when there is none.\<close>

definition config_section :: "string \<Rightarrow> config \<Rightarrow> section_info \<times> config" where
  "config_section sectionName c =
     (case configMap c sectionName of
        Some info \<Rightarrow> (info, c)
      | None \<Rightarrow> (SectionInfo, c\<lparr>configMap := (configMap c)(sectionName \<mapsto> SectionInfo)\<rparr>))"

definition config_GetValue :: "config \<Rightarrow> string \<Rightarrow> string \<Rightarrow> string" where
  "config_GetValue c sectionName key =
     (case configMap c sectionName of None \<Rightarrow> '''' | Some info \<Rightarrow> SectionInfo_GetValue info key)"

definition GetStaticPath :: "config \<Rightarrow> string" where
  "GetStaticPath c = staticPath c"

definition GetBinPath :: "config \<Rightarrow> string" where
  "GetBinPath c = binPath c"

text \<open>What \<open>PrintConfig\<close> prints, for the sections and keys in the order the maps are iterated in.\<close>

definition PrintConfig :: "(string \<times> (string \<times> string) list) list \<Rightarrow> string" where
  "PrintConfig order =
     ''Config content:'' @ [CHR 10] @
     concat (map (\<lambda>(sectionName, datas). ''['' @ sectionName @ '']'' @ [CHR 10] @
       concat (map (\<lambda>(key, v). key @ '' = '' @ v @ [CHR 10]) datas)) order) @ [CHR 10]"

definition make_directory :: "'f fs_ops \<Rightarrow> string \<Rightarrow> 'f \<Rightarrow> fault + 'f" where
  "make_directory fs p f = (if \<not> fs_exists fs p f then create_directory fs p f else Inr f)"

definition InitPath :: "'f fs_ops \<Rightarrow> config \<Rightarrow> 'f \<Rightarrow> fault + (config \<times> 'f)" where
  "InitPath fs c f =
     (let currentPath = current_path fs f;
          (output, c) = config_section ''Output'' c;
          binDir = SectionInfo_index output ''Path'';
          (static, c) = config_section ''Static'' c;
          staticDir = SectionInfo_index static ''Path'';
          c = c\<lparr>binPath := path_append currentPath binDir\<rparr>;
          c = c\<lparr>staticPath := path_append (path_append currentPath binDir) staticDir\<rparr> in
      and_then (make_directory fs (binPath c) f) (\<lambda>f.
      and_then (make_directory fs (staticPath c) f) (\<lambda>f.
      Inr (c, f))))"

definition load_section :: "(string \<times> string) list \<Rightarrow> section_info" where
  "load_section datas = fold (\<lambda>(key, v). SectionInfo_SetValue key v) datas SectionInfo"

definition save_section :: "string \<Rightarrow> section_info \<Rightarrow> config \<Rightarrow> config" where
  "save_section sectionName info c = c\<lparr>configMap := (configMap c)(sectionName \<mapsto> info)\<rparr>"

definition load_config :: "(string \<times> (string \<times> string) list) list \<Rightarrow> config" where
  "load_config pt =
     fold (\<lambda>(sectionName, datas). save_section sectionName (load_section datas)) pt
       \<lparr>configMap = Map.empty, staticPath = '''', binPath = ''''\<rparr>"

text \<open>The constructor; \<open>read_ini\<close> throws when the file cannot be read or parsed.\<close>

definition ConfigManager ::
  "'f fs_ops \<Rightarrow> (string \<Rightarrow> 'f \<Rightarrow> fault + (string \<times> (string \<times> string) list) list) \<Rightarrow> 'f \<Rightarrow>
     fault + (config \<times> 'f)" where
  "ConfigManager fs read_ini f =
     and_then (read_ini (path_append (current_path fs f) ''config.ini'') f) (\<lambda>pt.
     InitPath fs (load_config pt) f)"

interpretation section_keys: keyed_map "\<lambda>datas key. datas key" SectionInfo_SetValue
  by unfold_locales (simp add: SectionInfo_SetValue_def)

interpretation config_sections: keyed_map configMap save_section
  by unfold_locales (simp add: save_section_def)

subsection \<open>Lookups after loading\<close>

text \<open>The value of a key in the last of the sections of that name, the last one when it is repeated.\<close>

definition ini_value :: "(string \<times> (string \<times> string) list) list \<Rightarrow> string \<Rightarrow> string \<Rightarrow> string" where
  "ini_value pt sectionName key =
     (case map_of (rev pt) sectionName of None \<Rightarrow> ''''
      | Some datas \<Rightarrow> (case map_of (rev datas) key of None \<Rightarrow> '''' | Some v \<Rightarrow> v))"

lemma load_section_lookup: "load_section datas key = map_of (rev datas) key"
  unfolding load_section_def
  by (subst section_keys.lookup_fill) (simp add: SectionInfo_def split: option.splits)

lemma load_config_lookup: "configMap (load_config pt) s = map_option load_section (map_of (rev pt) s)"
proof -
  have "fold (\<lambda>(s, datas). save_section s (load_section datas)) pt c =
      fold (\<lambda>(s, info). save_section s info) (map (\<lambda>(s, datas). (s, load_section datas)) pt) c" for c
    by (induction pt arbitrary: c) auto
  moreover have "map_of (rev (map (\<lambda>(s, datas). (s, load_section datas)) pt)) s =
      map_option load_section (map_of (rev pt) s)"
    by (simp only: rev_map map_of_map o_apply)
  ultimately show ?thesis
    by (simp add: load_config_def config_sections.lookup_fill split: option.splits)
qed

lemma GetValue_load: "config_GetValue (load_config pt) s k = ini_value pt s k"
  by (simp add: config_GetValue_def SectionInfo_GetValue_def load_config_lookup load_section_lookup
      ini_value_def split: option.splits)

lemma config_section_value:
  "SectionInfo_GetValue (fst (config_section s c)) k = config_GetValue c s k"
  by (simp add: config_section_def config_GetValue_def SectionInfo_GetValue_def SectionInfo_def
      split: option.splits)

lemma config_section_GetValue [simp]:
  "config_GetValue (snd (config_section s c)) s' k = config_GetValue c s' k"
  by (simp add: config_section_def config_GetValue_def SectionInfo_GetValue_def SectionInfo_def
      split: option.splits)

lemma config_GetValue_paths [simp]:
  "config_GetValue (c\<lparr>binPath := p\<rparr>) s k = config_GetValue c s k"
  "config_GetValue (c\<lparr>staticPath := p\<rparr>) s k = config_GetValue c s k"
  by (simp_all add: config_GetValue_def)

lemma make_directory_exists:
  "fs_laws fs \<Longrightarrow> make_directory fs p f = Inr f' \<Longrightarrow> fs_exists fs p f' \<and> (fs_exists fs q f \<longrightarrow> fs_exists fs q f')"
  by (auto simp: make_directory_def fs_laws_def split: if_splits)

lemma InitPath_Inr:
  assumes "InitPath fs c f = Inr (c', f')" and "fs_laws fs"
  shows "binPath c' = path_append (current_path fs f) (config_GetValue c ''Output'' ''Path'')"
    and "staticPath c' = path_append (binPath c') (config_GetValue c ''Static'' ''Path'')"
    and "fs_exists fs (binPath c') f'" and "fs_exists fs (staticPath c') f'"
    and "config_GetValue c' s k = config_GetValue c s k"
  using assms make_directory_exists [OF assms(2)]
  by (auto simp: InitPath_def Let_def case_prod_beta config_section_value fault_iffs)

subsection \<open>Properties\<close>

text \<open>
  C29: when the constructor returns, a lookup gives the value the file has for that key (the last
  one, and the empty string for an unknown section or key), the output and the static directory
  are the ones the file names below the working directory, and both exist.
\<close>
theorem ConfigManager_loads:
  assumes "fs_laws fs" and "read_ini (path_append (current_path fs f) ''config.ini'') f = Inr pt"
    and "ConfigManager fs read_ini f = Inr (c, f')"
  shows "config_GetValue c s k = ini_value pt s k \<and>
    GetBinPath c = path_append (current_path fs f) (ini_value pt ''Output'' ''Path'') \<and>
    GetStaticPath c = path_append (GetBinPath c) (ini_value pt ''Static'' ''Path'') \<and>
    fs_exists fs (GetBinPath c) f' \<and> fs_exists fs (GetStaticPath c) f'"
proof -
  have "InitPath fs (load_config pt) f = Inr (c, f')"
    using assms(2,3) by (simp add: ConfigManager_def)
  from InitPath_Inr [OF this assms(1)] show ?thesis
    by (simp add: GetValue_load GetBinPath_def GetStaticPath_def)
qed

text \<open>A file system of directory names, for the witness.\<close>

definition dir_fs :: "string list fs_ops" where
  "dir_fs = \<lparr>current_path = (\<lambda>_. ''/srv''), fs_exists = (\<lambda>p f. p \<in> set f),
     create_directory = (\<lambda>p f. Inr (p # f))\<rparr>"

definition sample_ini :: "(string \<times> (string \<times> string) list) list" where
  "sample_ini = [(''SelfServer'', [(''Port'', ''9090'')]), (''Static'', [(''Path'', ''static'')]),
     (''Output'', [(''Path'', ''bin'')])]"

lemma sample_ini_loads: "\<exists>c f. ConfigManager dir_fs (\<lambda>_ _. Inr sample_ini) [''/srv''] = Inr (c, f)"
proof -
  have "ConfigManager dir_fs (\<lambda>_ _. Inr sample_ini) [''/srv''] \<noteq> Inl e" for e
    by (auto simp: ConfigManager_def InitPath_def Let_def case_prod_beta fault_iffs make_directory_def
        dir_fs_def split: if_splits)
  then show ?thesis by (cases "ConfigManager dir_fs (\<lambda>_ _. Inr sample_ini) [''/srv'']") auto
qed

lemma dir_fs_laws: "fs_laws dir_fs"
  by (auto simp: fs_laws_def dir_fs_def)

theorem ConfigManager_loads_witness:
  "\<exists>c f. ConfigManager dir_fs (\<lambda>_ _. Inr sample_ini) [''/srv''] = Inr (c, f) \<and>
    GetStaticPath c = ''/srv/bin/static'' \<and> config_GetValue c ''SelfServer'' ''Port'' = ''9090'' \<and>
    ''/srv/bin/static'' \<in> set f"
proof -
  obtain c f where run: "ConfigManager dir_fs (\<lambda>_ _. Inr sample_ini) [''/srv''] = Inr (c, f)"
    using sample_ini_loads by blast
  moreover note ConfigManager_loads [OF dir_fs_laws _ run, of sample_ini "''SelfServer''" "''Port''"]
  ultimately show ?thesis
    by (auto simp: sample_ini_def ini_value_def path_append_def GetBinPath_def dir_fs_def)
qed

end
