(* ===== verification/Ftp_Logic.thy ===== *)
theory Ftp_Logic
  imports Ftp_Session_Props Base64 Config_Manager
begin

text \<open>
  The logic system of the FTP server, \<open>src/src/05_ftp/LogicSystem.cpp\<close> and \<open>LogicSystem.h\<close>:
  the queue of received messages, the table of callbacks, the two callbacks and the loop of the
  worker thread. The waiting and waking of that thread is \<open>Monitor\<close>'s subject; here a wake-up
  is one step on the world of \<open>Ftp_Session\<close>.

  The JSON library is a parameter, a record of the operations the callbacks use; any of them may
  throw. Whether an \<open>ofstream\<close> can be opened at a path is a parameter as well. An exception that
  leaves a callback leaves the thread function, which ends the process.
\<close>

subsection \<open>Parameters\<close>

record 'j json_ops =
  json_parse :: "string \<Rightarrow> bool \<times> 'j"      \<comment> \<open>\<open>Reader::parse\<close>: success, and what \<open>root\<close> is then\<close>
  json_null :: "'j"                       \<comment> \<open>a default-constructed value\<close>
  json_get :: "'j \<Rightarrow> string \<Rightarrow> fault + 'j"  \<comment> \<open>\<open>operator[]\<close> as an operand\<close>
  json_set :: "'j \<Rightarrow> string \<Rightarrow> 'j \<Rightarrow> fault + 'j"  \<comment> \<open>assignment through \<open>operator[]\<close>\<close>
  json_str :: "string \<Rightarrow> 'j"
  json_int :: "int \<Rightarrow> 'j"
  asString :: "'j \<Rightarrow> fault + string"
  asInt :: "'j \<Rightarrow> fault + int"
  toStyledString :: "'j \<Rightarrow> string"

record 'j logic_env =
  env_net :: net_ops
  env_json :: "'j json_ops"
  env_config :: config
  can_open :: "string \<Rightarrow> bool"

subsection \<open>The callbacks\<close>

text \<open>A received body as the C string the JSON reader gets: it ends at the first null byte.\<close>

fun c_str :: "char_array \<Rightarrow> fault + string" where
  "c_str [] = Inl Over_read"
| "c_str (None # a) = Inl Uninit_read"
| "c_str (Some b # a) =
     (if b = 0 then Inr [] else and_then (c_str a) (\<lambda>s. Inr (char_of_byte b # s)))"

definition Data_string :: "addr \<Rightarrow> ftp_world \<Rightarrow> fault + string" where
  "Data_string m w = (case nodes w m of None \<Rightarrow> Inl Null_deref | Some n \<Rightarrow> c_str (node_data n))"

definition session_Send :: "net_ops \<Rightarrow> addr \<Rightarrow> string \<Rightarrow> u16 \<Rightarrow> ftp_world \<Rightarrow> fault + ftp_world" where
  "session_Send net a msg msg_id w =
     (case sessions w a of None \<Rightarrow> Inl Null_deref
      | Some s \<Rightarrow> and_then (Send_view net msg msg_id s) (\<lambda>s. Inr (upd_session a (\<lambda>_. s) w)))"

definition TestMsgCallback :: "'j logic_env \<Rightarrow> addr \<Rightarrow> addr \<Rightarrow> ftp_world \<Rightarrow> fault + ftp_world" where
  "TestMsgCallback env a m w =
     (let js = env_json env in
      and_then (Data_string m w) (\<lambda>text.
      let (parsed, root) = json_parse js text in
      and_then (json_set js root ''role'' (json_str js ''server'')) (\<lambda>root.
      and_then (json_set js root ''error'' (json_int js (uint Success))) (\<lambda>root.
      and_then (session_Send (env_net env) a (toStyledString js root) TEST_MSG_SEND w) (\<lambda>w.
      Inr (ClearHead a w))))))"

definition get_str :: "'j json_ops \<Rightarrow> 'j \<Rightarrow> string \<Rightarrow> fault + string" where
  "get_str js root key = and_then (json_get js root key) (asString js)"

definition get_int :: "'j json_ops \<Rightarrow> 'j \<Rightarrow> string \<Rightarrow> fault + int" where
  "get_int js root key = and_then (json_get js root key) (asInt js)"

text \<open>What \<open>outFile\<close> leaves in the file: truncated for the first chunk, appended to otherwise.\<close>

definition write_chunk :: "int \<Rightarrow> string \<Rightarrow> string \<Rightarrow> ftp_world \<Rightarrow> ftp_world" where
  "write_chunk seq filePath decodedData w =
     (if seq = 0 then w\<lparr>files := (files w)(filePath \<mapsto> decodedData)\<rparr>
      else w\<lparr>files := (files w)(filePath \<mapsto>
             (case files w filePath of None \<Rightarrow> [] | Some old \<Rightarrow> old) @ decodedData)\<rparr>)"

definition upload_response :: "'j json_ops \<Rightarrow> string \<Rightarrow> int \<Rightarrow> int \<Rightarrow> int \<Rightarrow> fault + string" where
  "upload_response js name seq totalSize transSize =
     and_then (json_set js (json_null js) ''error'' (json_int js (uint Success))) (\<lambda>response.
     and_then (json_set js response ''name'' (json_str js name)) (\<lambda>response.
     and_then (json_set js response ''seq'' (json_int js seq)) (\<lambda>response.
     and_then (json_set js response ''total_size'' (json_int js totalSize)) (\<lambda>response.
     and_then (json_set js response ''trans_size'' (json_int js transSize)) (\<lambda>response.
     Inr (toStyledString js response))))))"

definition UploadFileCallback :: "'j logic_env \<Rightarrow> addr \<Rightarrow> addr \<Rightarrow> ftp_world \<Rightarrow> fault + ftp_world" where
  "UploadFileCallback env a m w =
     (let js = env_json env in
      and_then (Data_string m w) (\<lambda>text.
      let (parsed, root) = json_parse js text in
      and_then (get_str js root ''data'') (\<lambda>encoded.
      and_then (base64_decode encoded False) (\<lambda>decodedData.
      and_then (get_int js root ''seq'') (\<lambda>seq.
      and_then (get_str js root ''name'') (\<lambda>name.
      and_then (get_int js root ''total_size'') (\<lambda>totalSize.
      and_then (get_int js root ''trans_size'') (\<lambda>transSize.
      let filePath = path_append (GetStaticPath (env_config env)) name in
      if \<not> can_open env filePath then Inr w
      else let w = write_chunk seq filePath decodedData w in
        and_then (upload_response js name seq totalSize transSize) (\<lambda>response.
        session_Send (env_net env) a response UPLOAD_FILE_SEND w)))))))))"

subsection \<open>The worker\<close>

datatype callback = Test_msg_callback | Upload_file_callback

definition RegisterCallbacks :: "u16 \<rightharpoonup> callback" where
  "RegisterCallbacks =
     [TEST_MSG_RECV \<mapsto> Test_msg_callback, UPLOAD_FILE_RECV \<mapsto> Upload_file_callback]"

fun run_callback :: "callback \<Rightarrow> 'j logic_env \<Rightarrow> addr \<Rightarrow> addr \<Rightarrow> ftp_world \<Rightarrow> fault + ftp_world" where
  "run_callback Test_msg_callback env a m w = TestMsgCallback env a m w"
| "run_callback Upload_file_callback env a m w = UploadFileCallback env a m w"

definition pop_msg :: "ftp_world \<Rightarrow> ftp_world" where
  "pop_msg w = w\<lparr>msgQueue := tl (msgQueue w)\<rparr>"

text \<open>\<open>doWork\<close>: pop the front, dispatch on its id; the node's references are released at the end.\<close>

definition dispatch :: "'j logic_env \<Rightarrow> addr \<Rightarrow> addr \<Rightarrow> ftp_world \<Rightarrow> fault + ftp_world" where
  "dispatch env a m w =
     (case nodes w m of None \<Rightarrow> Inl Null_deref
      | Some recvNode \<Rightarrow>
         (case RegisterCallbacks (msgId recvNode) of
            Some cb \<Rightarrow> run_callback cb env a m w
          | None \<Rightarrow> Inr w))"

definition doWork :: "'j logic_env \<Rightarrow> ftp_world \<Rightarrow> fault + ftp_world" where
  "doWork env w =
     (case msgQueue w of [] \<Rightarrow> Inl Empty_pop
      | (a, m) # _ \<Rightarrow> and_then (dispatch env a m (pop_msg w)) (\<lambda>w. Inr (release a w)))"

text \<open>No operation of a callback touches the queue.\<close>

lemma Session_dtor_frame [simp]:
  "msgQueue (Session_dtor a w) = msgQueue w" "files (Session_dtor a w) = files w"
  "next_node (Session_dtor a w) = next_node w" "accepting (Session_dtor a w) = accepting w"
  "next_session (Session_dtor a w) = next_session w"
  by (simp_all add: Session_dtor_def Let_def Clear_def ClearHead_def split: option.splits)

lemma release_frame [simp]:
  "msgQueue (release a w) = msgQueue w" "files (release a w) = files w"
  "next_node (release a w) = next_node w" "accepting (release a w) = accepting w"
  by (simp_all add: release_def)

lemma msgQueue_session_Send: "session_Send net a msg i w = Inr w' \<Longrightarrow> msgQueue w' = msgQueue w"
  by (auto simp: session_Send_def fault_iffs split: option.splits)

lemma write_chunk_frame [simp]:
  "msgQueue (write_chunk k p d w) = msgQueue w" "sessions (write_chunk k p d w) = sessions w"
  "nodes (write_chunk k p d w) = nodes w" "next_node (write_chunk k p d w) = next_node w"
  "session_table (write_chunk k p d w) = session_table w" "accepting (write_chunk k p d w) = accepting w"
  by (simp_all add: write_chunk_def)

lemma msgQueue_run_callback: "run_callback cb env a m w = Inr w' \<Longrightarrow> msgQueue w' = msgQueue w"
  by (cases cb)
     (auto simp: TestMsgCallback_def UploadFileCallback_def Let_def fault_iffs case_prod_beta
       ClearHead_def dest!: msgQueue_session_Send split: if_splits)

lemma msgQueue_doWork: "doWork env w = Inr w' \<Longrightarrow> msgQueue w' = tl (msgQueue w) \<and> msgQueue w \<noteq> []"
  by (auto simp: doWork_def dispatch_def pop_msg_def fault_iffs dest!: msgQueue_run_callback
      split: list.splits option.splits)

text \<open>The drain after \<open>_stop\<close>, and one wake-up of the loop. The size of a world is what its worker has
  left to do.\<close>

instantiation ftp_world_ext :: (type) size
begin

definition size_ftp_world_ext :: "'a ftp_world_scheme \<Rightarrow> nat" where
  "size_ftp_world_ext w = length (msgQueue w)"

instance ..

end

function deal_all :: "'j logic_env \<Rightarrow> ftp_world \<Rightarrow> fault + ftp_world" where
  "deal_all env w = (if msgQueue w = [] then Inr w else and_then (doWork env w) (deal_all env))"
  by pat_completeness auto

termination
  by (relation "measure (\<lambda>(env, w). size w)") (auto simp: size_ftp_world_ext_def dest: msgQueue_doWork)

declare deal_all.simps [simp del]

text \<open>One wake-up: the wait has returned, so the queue is not empty or \<open>_stop\<close> is set. The
  Boolean says whether the thread function returns.\<close>

definition DealMsg_wake :: "'j logic_env \<Rightarrow> bool \<Rightarrow> ftp_world \<Rightarrow> fault + (bool \<times> ftp_world)" where
  "DealMsg_wake env stop w =
     (if stop then and_then (deal_all env w) (\<lambda>w. Inr (True, w))
      else and_then (doWork env w) (\<lambda>w. Inr (False, w)))"

text \<open>\<open>k\<close> wake-ups in a row, while there are messages.\<close>

fun serve_jobs :: "'j logic_env \<Rightarrow> nat \<Rightarrow> ftp_world \<Rightarrow> fault + ftp_world" where
  "serve_jobs env 0 w = Inr w"
| "serve_jobs env (Suc k) w =
     (if msgQueue w = [] then Inr w
      else and_then (DealMsg_wake env False w) (\<lambda>(_, w). serve_jobs env k w))"

text \<open>What becomes of the process when a step of the worker thread ends so.\<close>

datatype 'a outcome = Running 'a | Terminated | Undefined fault

fun thread_outcome :: "fault + 'a \<Rightarrow> 'a outcome" where
  "thread_outcome (Inr a) = Running a"
| "thread_outcome (Inl e) = (if is_exception e then Terminated else Undefined e)"

interpretation logic_queue: job_queue msgQueue "\<lambda>w. length (msgQueue w) < MAX_RECV_QUEUE_LEN"
  PostMsgToQue pop_msg
  by unfold_locales (auto simp: PostMsgToQue_def pop_msg_def)

end
