(* ===== verification/Ftp_Logic_Props.thy ===== *)
theory Ftp_Logic_Props
  imports Ftp_Logic
begin

text \<open>
  What \<open>Ftp_Logic\<close> guarantees: messages are served in the order they were posted; a served
  message never reads outside its body, and ends in a well-formed world or an exception; the
  chunks of an upload are put together to the file; and where the callbacks trust their input: a
  malformed chunk ends the process, a file name may leave the static directory.
\<close>

subsection \<open>Reading the body\<close>

lemma c_str_readable: "None \<notin> set d \<Longrightarrow> d \<noteq> [] \<Longrightarrow> last d = Some 0 \<Longrightarrow> \<exists>s. c_str d = Inr s"
  by (induction d rule: c_str.induct) (auto split: if_splits)

lemma c_str_terminated: "c_str (map Some (bs @ [0])) = Inr (string_of (takeWhile (\<lambda>b. b \<noteq> 0) bs))"
  by (induction bs) auto

subsection \<open>Sending a response\<close>

lemma SendNode_Inl:
  assumes "SendNode net msg len i = Inl e" and "unat len \<le> length msg"
  shows "e = Buffer_overflow"
  using assms by (auto simp: SendNode_def Let_def fault_iffs dest: node_write_Inl split: if_splits)

lemma Send_view_Inl: "Send_view net msg i s = Inl e \<Longrightarrow> e = Buffer_overflow"
proof -
  assume "Send_view net msg i s = Inl e"
  then have "SendNode net (bytes_of msg) (of_nat (length msg)) i = Inl e"
    unfolding Send_view_def by (rule Send_faults_only_in_SendNode)
  then show ?thesis
    by (rule SendNode_Inl) (simp add: unat_of_nat take_bit_nat_less_eq_self)
qed

lemma session_ok_push:
  "session_ok ns s \<Longrightarrow> send_room s \<Longrightarrow> session_ok ns (push_node n s)"
  by (auto simp: session_ok_def push_node_def send_room_def Let_def head_ok_def split: option.splits)

lemma Send_session_ok:
  assumes "Send net msg len i s = Inr s'" and "session_ok ns s"
  shows "session_ok ns s'"
  using assms by (auto simp: Send_def fault_iffs not_le send_room_def intro!: session_ok_push split: if_splits)

lemma session_Send_ok:
  assumes "session_Send net a msg i w = Inr w'" and "world_ok w"
  shows "world_ok w'" "sessions w' b = None \<longleftrightarrow> sessions w b = None" "files w' = files w" "nodes w' = nodes w"
proof -
  obtain s s' where s: "sessions w a = Some s" "Send_view net msg i s = Inr s'"
    and w': "w' = upd_session a (\<lambda>_. s') w"
    using assms(1) by (auto simp: session_Send_def fault_iffs split: option.splits)
  have "session_ok (nodes w) s'"
    using s world_okD(3) [OF assms(2)] by (auto simp: Send_view_def intro: Send_session_ok)
  then show "world_ok w'" unfolding w' by (intro world_ok_upd_session assms(2))
qed (use assms in \<open>auto simp: session_Send_def fault_iffs split: option.splits if_splits\<close>)

lemma session_Send_Inl:
  "session_Send net a msg i w = Inl e \<Longrightarrow> sessions w a \<noteq> None \<Longrightarrow> e = Buffer_overflow"
  by (auto simp: session_Send_def fault_iffs dest: Send_view_Inl split: option.splits)

lemma session_Send_returns:
  assumes "network_order net" and "length msg + 7 < 2 ^ 32" and "sessions w a \<noteq> None"
  shows "\<exists>w'. session_Send net a msg i w = Inr w'"
  using assms Send_view_frame [OF assms(1,2)] by (auto simp: session_Send_def)

subsection \<open>Releasing a session\<close>

lemma nodes_Session_dtor_dom: "dom (nodes (Session_dtor a w)) = dom (nodes w)"
  by (auto simp: Session_dtor_def Let_def Clear_def ClearMsg_def ClearHead_def split: option.splits if_splits)

lemma world_ok_Session_dtor: "world_ok w \<Longrightarrow> world_ok (Session_dtor a w)"
proof -
  assume w: "world_ok w"
  let ?c = "Clear a w"
  have c: "world_ok ?c" by (rule world_ok_Clear [OF w])
  have "nodes (Session_dtor a w) = nodes (if sessions w a = None then w else ?c)"
    "msgQueue (Session_dtor a w) = msgQueue w"
    "next_node (Session_dtor a w) = next_node w"
    "\<And>b. sessions (Session_dtor a w) b = (if b = a then None else sessions w b)"
    by (auto simp: Session_dtor_def Let_def Clear_def ClearHead_def split: option.splits)
  moreover have "msgQueue ?c = msgQueue w" "next_node ?c = next_node w" by (simp_all add: Clear_def ClearHead_def)
  moreover have "session_ok (nodes ?c) s" if "sessions w b = Some s" for b s
  proof -
    have "dom (nodes ?c) = dom (nodes w)"
      by (auto simp: Clear_def ClearMsg_def ClearHead_def split: option.splits if_splits)
    with world_okD(3) [OF w that] show ?thesis by (auto intro: session_ok_mono [rotated])
  qed
  ultimately show ?thesis
    using w c unfolding world_ok_def by (auto split: if_splits)
qed

lemma world_ok_release: "world_ok w \<Longrightarrow> world_ok (release a w)"
  by (simp add: release_def world_ok_Session_dtor)

text \<open>Every queued message keeps its session alive.\<close>

definition queue_live :: "ftp_world \<Rightarrow> bool" where
  "queue_live w = (\<forall>x\<in>set (msgQueue w). sessions w (fst x) \<noteq> None)"

lemma sessions_Session_dtor: "sessions (Session_dtor a w) b = (if b = a then None else sessions w b)"
  by (auto simp: Session_dtor_def Let_def Clear_def ClearHead_def split: option.splits)

lemma queue_live_release: "queue_live w \<Longrightarrow> queue_live (release a w)"
  by (auto simp: queue_live_def release_def owned_def sessions_Session_dtor)

subsection \<open>Serving one message\<close>

text \<open>What is assumed of the JSON library: whatever it throws is its own exception.\<close>

definition json_throws :: "'j json_ops \<Rightarrow> bool" where
  "json_throws js =
     ((\<forall>v k e. json_get js v k = Inl e \<longrightarrow> e = Json_error) \<and>
      (\<forall>v k x e. json_set js v k x = Inl e \<longrightarrow> e = Json_error) \<and>
      (\<forall>v e. asString js v = Inl e \<longrightarrow> e = Json_error) \<and>
      (\<forall>v e. asInt js v = Inl e \<longrightarrow> e = Json_error))"

lemma json_throwsD:
  assumes "json_throws js"
  shows "json_get js v k = Inl e \<Longrightarrow> e = Json_error" "json_set js v k x = Inl e \<Longrightarrow> e = Json_error"
    "get_str js v k = Inl e \<Longrightarrow> e = Json_error" "get_int js v k = Inl e \<Longrightarrow> e = Json_error"
    "upload_response js n q t r = Inl e \<Longrightarrow> e = Json_error"
  using assms by (auto simp: json_throws_def get_str_def get_int_def upload_response_def fault_iffs)

lemma base64_decode_fault: "base64_decode s False = Inl e \<Longrightarrow> is_exception e"
  using decode_loop_fault [of s 0 "[]"] by (auto simp: base64_decode_def decode.simps split: if_splits)

lemma world_ok_write_chunk: "world_ok w \<Longrightarrow> world_ok (write_chunk k p d w)"
  by (subst world_ok_cong [where w = w]) simp_all

lemma world_ok_pop: "world_ok w \<Longrightarrow> world_ok (pop_msg w)"
  by (auto simp: world_ok_def pop_msg_def dest: in_set_tl)

text \<open>The outcome of a callback on a readable message of a live session.\<close>

definition served_ok :: "fault + ftp_world \<Rightarrow> ftp_world \<Rightarrow> bool" where
  "served_ok r w = (case r of
     Inr w' \<Rightarrow> world_ok w' \<and> (\<forall>b. sessions w' b = None \<longleftrightarrow> sessions w b = None)
   | Inl e \<Rightarrow> is_exception e \<or> e = Buffer_overflow)"

lemma served_ok_Send:
  assumes "world_ok w" and "sessions w a \<noteq> None"
  shows "served_ok (session_Send net a msg i w) w"
  using session_Send_ok [OF _ assms(1), of net a msg i] session_Send_Inl [of net a msg i w] assms(2)
  by (cases "session_Send net a msg i w") (auto simp: served_ok_def)

lemma served_ok_TestMsg:
  assumes w: "world_ok w" and a: "sessions w a \<noteq> None" and m: "Data_string m w = Inr text"
    and js: "json_throws (env_json env)"
  shows "served_ok (TestMsgCallback env a m w) w"
proof (cases "TestMsgCallback env a m w")
  case (Inl e)
  then have "is_exception e \<or> e = Buffer_overflow"
    using m a by (auto simp: TestMsgCallback_def Let_def case_prod_beta fault_iffs
        dest: json_throwsD(2) [OF js] session_Send_Inl)
  with Inl show ?thesis by (simp add: served_ok_def)
next
  case (Inr w')
  then obtain msg w1 where "session_Send (env_net env) a msg TEST_MSG_SEND w = Inr w1" "w' = ClearHead a w1"
    by (auto simp: TestMsgCallback_def Let_def case_prod_beta fault_iffs)
  with session_Send_ok [OF this(1) w] Inr show ?thesis
    by (auto simp: served_ok_def ClearHead_def world_ok_ClearHead [unfolded ClearHead_def])
qed

lemma served_ok_Upload:
  assumes w: "world_ok w" and a: "sessions w a \<noteq> None" and m: "Data_string m w = Inr text"
    and js: "json_throws (env_json env)"
  shows "served_ok (UploadFileCallback env a m w) w"
proof (cases "UploadFileCallback env a m w")
  case (Inl e)
  then have "is_exception e \<or> e = Buffer_overflow"
    using m a by (auto simp: UploadFileCallback_def Let_def case_prod_beta fault_iffs
        dest: json_throwsD(3-5) [OF js] session_Send_Inl base64_decode_fault split: if_splits)
  with Inl show ?thesis by (simp add: served_ok_def)
next
  case (Inr w')
  then consider "w' = w"
    | k p d msg where "session_Send (env_net env) a msg UPLOAD_FILE_SEND (write_chunk k p d w) = Inr w'"
    by (auto simp: UploadFileCallback_def Let_def case_prod_beta fault_iffs split: if_splits)
  then show ?thesis
  proof cases
    case 1
    with w Inr show ?thesis by (simp add: served_ok_def)
  next
    case 2
    have "world_ok (write_chunk k p d w)" by (rule world_ok_write_chunk [OF w])
    from session_Send_ok [OF 2 this] Inr show ?thesis by (simp add: served_ok_def)
  qed
qed

lemma served_ok_dispatch:
  assumes "world_ok w" and "sessions w a \<noteq> None" and "queued_ok (nodes w) (a, m)"
    and "json_throws (env_json env)"
  shows "served_ok (dispatch env a m w) w"
proof -
  obtain n where n: "nodes w m = Some n" "readable n"
    using assms(3) by (auto simp: queued_ok_def split: option.splits)
  then obtain body where body: "Data_string m w = Inr body"
    using c_str_readable by (auto simp: Data_string_def readable_def)
  show ?thesis
  proof (cases "RegisterCallbacks (msgId n)")
    case None
    with n assms(1) show ?thesis by (simp add: dispatch_def served_ok_def)
  next
    fix cb assume "RegisterCallbacks (msgId n) = Some cb"
    with n served_ok_TestMsg [OF assms(1,2) body assms(4)] served_ok_Upload [OF assms(1,2) body assms(4)]
    show ?thesis by (cases cb) (simp_all add: dispatch_def)
  qed
qed

subsection \<open>Uploads\<close>

text \<open>A node holding an upload request with these fields.\<close>

definition upload_request ::
  "'j json_ops \<Rightarrow> msg_node \<Rightarrow> string \<Rightarrow> int \<Rightarrow> string \<Rightarrow> int \<Rightarrow> int \<Rightarrow> bool" where
  "upload_request js n encoded seq name totalSize transSize =
     (msgId n = UPLOAD_FILE_RECV \<and>
      (case c_str (node_data n) of Inl _ \<Rightarrow> False
       | Inr body \<Rightarrow>
           let root = snd (json_parse js body) in
           get_str js root ''data'' = Inr encoded \<and> get_int js root ''seq'' = Inr seq \<and>
           get_str js root ''name'' = Inr name \<and> get_int js root ''total_size'' = Inr totalSize \<and>
           get_int js root ''trans_size'' = Inr transSize))"

lemma dispatch_upload:
  assumes "nodes w m = Some n" and "upload_request (env_json env) n encoded seq name totalSize transSize"
  shows "dispatch env a m w =
    and_then (base64_decode encoded False) (\<lambda>decoded.
      let filePath = path_append (GetStaticPath (env_config env)) name in
      if \<not> can_open env filePath then Inr w
      else and_then (upload_response (env_json env) name seq totalSize transSize) (\<lambda>response.
        session_Send (env_net env) a response UPLOAD_FILE_SEND (write_chunk seq filePath decoded w)))"
proof -
  have "RegisterCallbacks (msgId n) = Some Upload_file_callback"
    using assms(2) by (simp add: upload_request_def RegisterCallbacks_def)
  then show ?thesis
    using assms
    by (auto simp: dispatch_def UploadFileCallback_def upload_request_def Data_string_def Let_def
        case_prod_beta split: sum.splits cong: if_cong)
qed

lemma base64_encode_decodes:
  assumes "base64_encode s url = Some e"
  shows "base64_decode e False = Inr s"
proof -
  have "length s < 2 ^ 32"
    using assms by (auto simp: base64_encode_def base64_encode_bytes_def dest: encode_loop_returns_short)
  with assms base64_encode_groups [of "bytes_of s" url] show ?thesis
    by (simp add: base64_encode_def base64_decode_def decode_encode_groups)
qed

text \<open>Chunk number \<open>k\<close> of a file, as a client sends it, whose response fits a frame.\<close>

definition holds_chunk :: "'j json_ops \<Rightarrow> ftp_world \<Rightarrow> string \<Rightarrow> nat \<Rightarrow> addr \<Rightarrow> string \<Rightarrow> bool" where
  "holds_chunk js w name k m chunk =
     (\<exists>n e t r resp. nodes w m = Some n \<and> base64_encode chunk False = Some e \<and>
        upload_request js n e (int k) name t r \<and>
        upload_response js name (int k) t r = Inr resp \<and> length resp + 7 < 2 ^ 32)"

lemma doWork_chunk:
  assumes net: "network_order (env_net env)"
    and path: "path = path_append (GetStaticPath (env_config env)) name" "can_open env path"
    and q: "msgQueue w = (a, m) # q" and a: "sessions w a \<noteq> None"
    and chunk: "holds_chunk (env_json env) w name k m chunk"
  shows "\<exists>w1. doWork env w = Inr (release a w1) \<and> msgQueue w1 = q \<and> sessions w1 a \<noteq> None \<and>
    nodes w1 = nodes w \<and>
    files w1 path = Some (if k = 0 then chunk
      else (case files w path of None \<Rightarrow> [] | Some old \<Rightarrow> old) @ chunk)"
proof -
  obtain n e t r resp where n: "nodes w m = Some n" and e: "base64_encode chunk False = Some e"
    and req: "upload_request (env_json env) n e (int k) name t r"
    and resp: "upload_response (env_json env) name (int k) t r = Inr resp" "length resp + 7 < 2 ^ 32"
    using chunk unfolding holds_chunk_def by blast
  let ?v = "write_chunk (int k) path chunk (pop_msg w)"
  have "sessions ?v a \<noteq> None" using a by (simp add: pop_msg_def)
  then obtain w1 where w1: "session_Send (env_net env) a resp UPLOAD_FILE_SEND ?v = Inr w1"
    using session_Send_returns [OF net resp(2)] by blast
  have "nodes (pop_msg w) m = Some n" using n by (simp add: pop_msg_def)
  from dispatch_upload [OF this req, of a]
  have "dispatch env a m (pop_msg w) = Inr w1"
    using base64_encode_decodes [OF e] path resp w1 by simp
  moreover have "msgQueue w1 = q"
    using msgQueue_session_Send [OF w1] q by (simp add: pop_msg_def)
  moreover have "files w1 = files ?v" "nodes w1 = nodes ?v" "sessions w1 a \<noteq> None"
    using w1 by (auto simp: session_Send_def fault_iffs split: option.splits)
  moreover have "nodes ?v = nodes w" by (simp add: pop_msg_def)
  moreover have "files ?v path = Some (if k = 0 then chunk
      else (case files w path of None \<Rightarrow> [] | Some old \<Rightarrow> old) @ chunk)"
    by (simp add: write_chunk_def pop_msg_def)
  ultimately show ?thesis using q by (auto simp: doWork_def)
qed

lemma serve_chunks:
  assumes net: "network_order (env_net env)"
    and path: "path = path_append (GetStaticPath (env_config env)) name" "can_open env path"
    and "msgQueue w = map (Pair a) ms" and "ms \<noteq> [] \<longrightarrow> sessions w a \<noteq> None"
    and "length ms = length chunks"
    and "\<forall>i<length ms. holds_chunk (env_json env) w name (k + i) (ms ! i) (chunks ! i)"
    and "0 < k \<longrightarrow> files w path = Some pre" and "k = 0 \<longrightarrow> pre = []" and "0 < k \<or> ms \<noteq> []"
  shows "\<exists>w'. serve_jobs env (length ms) w = Inr w' \<and> msgQueue w' = [] \<and>
    files w' path = Some (pre @ concat chunks)"
  using assms(4-)
proof (induction ms arbitrary: w k pre chunks)
  case Nil
  then show ?case by simp
next
  case (Cons m ms)
  obtain c cs where cs: "chunks = c # cs" using Cons.prems(3) by (cases chunks) auto
  have "holds_chunk (env_json env) w name k m c" using Cons.prems(4) cs by (auto dest: spec [of _ 0])
  moreover have "msgQueue w = (a, m) # map (Pair a) ms" using Cons.prems(1) by simp
  ultimately obtain w1 where w1: "doWork env w = Inr (release a w1)" "msgQueue w1 = map (Pair a) ms"
    "sessions w1 a \<noteq> None" "nodes w1 = nodes w"
    "files w1 path = Some (pre @ c)"
    using doWork_chunk [OF net path, of w a m "map (Pair a) ms" k c] Cons.prems
    by (auto split: if_splits)
  have live: "ms \<noteq> [] \<Longrightarrow> release a w1 = w1"
    using w1(2) by (auto simp: release_def owned_def image_iff)
  have chunks: "\<forall>i<length ms. holds_chunk (env_json env) (release a w1) name (Suc k + i) (ms ! i) (cs ! i)"
  proof (intro allI impI)
    fix i assume i: "i < length ms"
    then have "holds_chunk (env_json env) w name (k + Suc i) ((m # ms) ! Suc i) (chunks ! Suc i)"
      using Cons.prems(4) by auto
    then have "holds_chunk (env_json env) w name (Suc k + i) (ms ! i) (cs ! i)" using cs by simp
    moreover have "ms \<noteq> []" using i by auto
    then have "release a w1 = w1" by (rule live)
    ultimately show "holds_chunk (env_json env) (release a w1) name (Suc k + i) (ms ! i) (cs ! i)"
      using w1(4) by (simp add: holds_chunk_def)
  qed
  have "\<exists>w'. serve_jobs env (length ms) (release a w1) = Inr w' \<and> msgQueue w' = [] \<and>
      files w' path = Some ((pre @ c) @ concat cs)"
    using w1 live chunks Cons.prems(3) cs by (intro Cons.IH [of _ _ "Suc k"]) auto
  then show ?case using w1(1) Cons.prems(1) cs by (auto simp: DealMsg_wake_def)
qed

lemma deal_all_serve: "deal_all env w = serve_jobs env (length (msgQueue w)) w"
proof (induction "length (msgQueue w)" arbitrary: w)
  case 0
  then show ?case by (subst deal_all.simps) simp
next
  case (Suc k)
  have "deal_all env w' = serve_jobs env k w'" if "doWork env w = Inr w'" for w'
    using msgQueue_doWork [OF that] Suc.hyps by (metis length_tl diff_Suc_1)
  then have "and_then (doWork env w) (deal_all env) = and_then (doWork env w) (serve_jobs env k)"
    by (auto intro: and_then_cong)
  moreover have "msgQueue w \<noteq> []" using Suc.hyps(2) by auto
  ultimately show ?case
    by (subst deal_all.simps) (simp add: Suc.hyps(2) [symmetric] DealMsg_wake_def and_then_assoc)
qed

lemma serve_jobs_empties:
  "serve_jobs env k w = Inr w' \<Longrightarrow> length (msgQueue w) \<le> k \<Longrightarrow> msgQueue w' = []"
proof (induction k arbitrary: w)
  case (Suc k)
  then show ?case
    by (auto simp: DealMsg_wake_def fault_iffs split: if_splits dest!: msgQueue_doWork)
qed simp

subsection \<open>A JSON library, for the witnesses\<close>

datatype json_value = Jnull | Jint int | Jstr string | Jobj "(string \<times> json_value) list"

fun demo_get :: "json_value \<Rightarrow> string \<Rightarrow> fault + json_value" where
  "demo_get (Jobj kvs) k = Inr (case map_of kvs k of None \<Rightarrow> Jnull | Some v \<Rightarrow> v)"
| "demo_get Jnull k = Inr Jnull"
| "demo_get _ k = Inl Json_error"

fun demo_set :: "json_value \<Rightarrow> string \<Rightarrow> json_value \<Rightarrow> fault + json_value" where
  "demo_set (Jobj kvs) k v = Inr (Jobj ((k, v) # kvs))"
| "demo_set Jnull k v = Inr (Jobj [(k, v)])"
| "demo_set _ k v = Inl Json_error"

fun demo_string :: "json_value \<Rightarrow> fault + string" where
  "demo_string (Jstr s) = Inr s" | "demo_string Jnull = Inr []" | "demo_string _ = Inl Json_error"

fun demo_int :: "json_value \<Rightarrow> fault + int" where
  "demo_int (Jint i) = Inr i" | "demo_int Jnull = Inr 0" | "demo_int _ = Inl Json_error"

definition demo_json :: "(string \<times> json_value) list \<Rightarrow> json_value json_ops" where
  "demo_json docs = \<lparr>json_parse = (\<lambda>t. case map_of docs t of None \<Rightarrow> (False, Jnull) | Some v \<Rightarrow> (True, v)),
     json_null = Jnull, json_get = demo_get, json_set = demo_set, json_str = Jstr, json_int = Jint,
     asString = demo_string, asInt = demo_int, toStyledString = (\<lambda>_. ''{}'')\<rparr>"

definition demo_env :: "(string \<times> json_value) list \<Rightarrow> json_value logic_env" where
  "demo_env docs = \<lparr>env_net = swap_ops, env_json = demo_json docs,
     env_config = \<lparr>configMap = Map.empty, staticPath = ''/s'', binPath = ''/b''\<rparr>, can_open = (\<lambda>_. True)\<rparr>"

lemma demo_json_throws: "json_throws (demo_json docs)"
proof -
  have "demo_get v k = Inl e \<Longrightarrow> e = Json_error" "demo_set v k x = Inl e \<Longrightarrow> e = Json_error"
    "demo_string v = Inl e \<Longrightarrow> e = Json_error" "demo_int v = Inl e \<Longrightarrow> e = Json_error" for v k x e
    by (cases v; simp)+
  then show ?thesis by (simp add: json_throws_def demo_json_def)
qed

definition demo_upload :: "string \<Rightarrow> int \<Rightarrow> string \<Rightarrow> json_value" where
  "demo_upload encoded seq name = Jobj [(''data'', Jstr encoded), (''seq'', Jint seq), (''name'', Jstr name)]"

text \<open>A world whose queue holds one body per message for session 0, each of one letter.\<close>

definition upload_node :: "char \<Rightarrow> msg_node" where
  "upload_node c = \<lparr>curLen = 0, totalLen = 1, node_data = map Some [byte_of_char c, 0], msgId = UPLOAD_FILE_RECV\<rparr>"

definition upload_world :: ftp_world where
  "upload_world = lone_session\<lparr>nodes := [0 \<mapsto> upload_node CHR ''A'', 1 \<mapsto> upload_node CHR ''B''],
     next_node := 2, msgQueue := [(0, 0), (0, 1)]\<rparr>"

lemma byte_of_char_letters: "byte_of_char CHR ''A'' = 65" "byte_of_char CHR ''B'' = 66"
  by (simp_all add: byte_of_char_def)

lemma upload_world_ok: "world_ok upload_world" "queue_live upload_world"
proof -
  have "node_ok (upload_node c)" "readable (upload_node c)" for c
    by (simp_all add: node_ok_def readable_def upload_node_def)
  then show "world_ok upload_world" "queue_live upload_world"
    by (auto simp: world_ok_def upload_world_def lone_session_def session_ok_def Session_def head_ok_def
        RecvNode_def MsgNode_def node_ok_def queued_ok_def MAX_RECV_QUEUE_LEN_def queue_live_def)
qed

subsection \<open>Properties\<close>

text \<open>
  The worker serves messages in the order they were posted: after any history of posts and
  services, the messages served followed by those still queued are the ones queued at first
  followed by the accepted posts; a post is dropped only when the queue is full.
\<close>
lemma logic_queue_fifo:
  assumes "fold (job_step msgQueue PostMsgToQue pop_msg) es (w, served) = (w', served')"
  shows "served' @ msgQueue w' = served @ msgQueue w @
    job_accepted msgQueue (\<lambda>w. length (msgQueue w) < MAX_RECV_QUEUE_LEN) PostMsgToQue pop_msg es w"
  using assms by (rule logic_queue.jobs_fifo)

lemma doWork_outcome:
  assumes "world_ok w" and "queue_live w" and "msgQueue w \<noteq> []" and "json_throws (env_json env)"
  shows "case doWork env w of
      Inr w' \<Rightarrow> world_ok w' \<and> queue_live w' \<and> msgQueue w' = tl (msgQueue w)
    | Inl e \<Rightarrow> is_exception e \<or> e = Buffer_overflow"
proof -
  obtain a m q where q: "msgQueue w = (a, m) # q" using assms(3) by (cases "msgQueue w") auto
  have "queued_ok (nodes w) (a, m)" "sessions w a \<noteq> None"
    using assms(1,2) q by (auto simp: world_ok_def queue_live_def)
  then have served: "served_ok (dispatch env a m (pop_msg w)) (pop_msg w)"
    using world_ok_pop [OF assms(1)] assms(4) by (intro served_ok_dispatch) (simp_all add: pop_msg_def)
  show ?thesis
  proof (cases "doWork env w")
    case (Inl e)
    with served q show ?thesis by (auto simp: doWork_def fault_iffs served_ok_def)
  next
    fix w' assume w': "doWork env w = Inr w'"
    then obtain w1 where w1: "dispatch env a m (pop_msg w) = Inr w1" "w' = release a w1"
      using q by (auto simp: doWork_def fault_iffs)
    have queue: "msgQueue w' = tl (msgQueue w)" using msgQueue_doWork [OF w'] by simp
    have "world_ok w1" "\<forall>b. sessions w1 b = None \<longleftrightarrow> sessions w b = None"
      using served w1 by (simp_all add: served_ok_def pop_msg_def)
    moreover have "queue_live w1"
      using calculation(2) assms(2) queue w1(2) by (auto simp: queue_live_def dest: in_set_tl)
    ultimately show ?thesis
      using w' w1(2) queue by (simp add: world_ok_release queue_live_release)
  qed
qed

text \<open>
  C15: serving the front message in a well-formed world, with a JSON library that throws nothing
  but its own exceptions, either leaves a well-formed world in which every queued message still
  has its session, or throws, or writes past a response frame whose length passes 32 bits. A
  received body is never read outside its array and never before it was written.
\<close>
theorem doWork_safe:
  assumes "world_ok w" and "queue_live w" and "msgQueue w \<noteq> []" and "json_throws (env_json env)"
  shows "case doWork env w of
      Inr w' \<Rightarrow> world_ok w' \<and> queue_live w' \<and> msgQueue w' = tl (msgQueue w)
    | Inl e \<Rightarrow> is_exception e \<or> e = Buffer_overflow"
  using assms by (rule doWork_outcome)

theorem doWork_safe_witness:
  "case doWork (demo_env [(''A'', demo_upload ''aGk='' 0 ''f'')]) upload_world of
      Inr w' \<Rightarrow> world_ok w' \<and> queue_live w' \<and> msgQueue w' = tl (msgQueue upload_world)
    | Inl e \<Rightarrow> is_exception e \<or> e = Buffer_overflow"
proof -
  have "msgQueue upload_world \<noteq> []" by (simp add: upload_world_def)
  moreover have "json_throws (env_json (demo_env [(''A'', demo_upload ''aGk='' 0 ''f'')]))"
    by (simp add: demo_env_def demo_json_throws)
  ultimately show ?thesis by (rule doWork_safe [OF upload_world_ok])
qed

text \<open>
  An upload in chunks is put together. When the queue holds the messages of a file's chunks,
  numbered from 0, each the base64 text of its chunk, serving them leaves the file with exactly the
  concatenation of the chunks, whatever the file held before.
\<close>
lemma upload_reassembles:
  assumes "network_order (env_net env)"
    and "can_open env (path_append (GetStaticPath (env_config env)) name)"
    and "msgQueue w = map (Pair a) ms" and "sessions w a \<noteq> None"
    and "ms \<noteq> []" and "length ms = length chunks"
    and "\<forall>k<length ms. holds_chunk (env_json env) w name k (ms ! k) (chunks ! k)"
  shows "\<exists>w'. serve_jobs env (length ms) w = Inr w' \<and> msgQueue w' = [] \<and>
    files w' (path_append (GetStaticPath (env_config env)) name) = Some (concat chunks)"
  using serve_chunks [OF assms(1) refl assms(2,3), of chunks 0 "[]"] assms(4-) by simp

text \<open>
  A chunk that is not base64 ends the process. The exception of \<open>base64_decode\<close> is caught
  neither in the callback nor in the worker, so it leaves the thread function: any client can stop
  the server with one message.
\<close>
lemma malformed_upload_terminates:
  assumes "msgQueue w = (a, m) # q" and "nodes w m = Some n"
    and "upload_request (env_json env) n encoded seq name totalSize transSize"
    and "base64_decode encoded False = Inl e"
  shows "thread_outcome (doWork env w) = Terminated"
proof -
  have "nodes (pop_msg w) m = Some n" using assms(2) by (simp add: pop_msg_def)
  from dispatch_upload [OF this assms(3)] have "doWork env w = Inl e"
    using assms(1,4) by (simp add: doWork_def)
  then show ?thesis using base64_decode_fault [OF assms(4)] by simp
qed

text \<open>
  The name of an upload decides where it is written, also outside the static directory: an
  absolute name is used as it is, and then the file of that name, wherever it is, gets the content.
\<close>
lemma upload_leaves_static_dir:
  assumes "msgQueue w = (a, m) # q" and "nodes w m = Some n"
    and "upload_request (env_json env) n encoded seq (CHR ''/'' # name) totalSize transSize"
    and "base64_decode encoded False = Inr content" and "seq = 0"
    and "can_open env (CHR ''/'' # name)" and "doWork env w = Inr w'"
  shows "files w' (CHR ''/'' # name) = Some content"
proof -
  have "nodes (pop_msg w) m = Some n" using assms(2) by (simp add: pop_msg_def)
  from dispatch_upload [OF this assms(3), of a] assms(4,6)
  obtain resp w1 where w1: "session_Send (env_net env) a resp UPLOAD_FILE_SEND
      (write_chunk 0 (CHR ''/'' # name) content (pop_msg w)) = Inr w1" "w' = release a w1"
    using assms(1,5,7) by (auto simp: doWork_def path_append_def fault_iffs Let_def)
  then have "files w1 = files (write_chunk 0 (CHR ''/'' # name) content (pop_msg w))"
    by (auto simp: session_Send_def fault_iffs split: option.splits)
  then show ?thesis using w1(2) by (simp add: write_chunk_def)
qed

text \<open>
  Draining the queue after \<open>_stop\<close> serves the same messages with the same result as the
  running loop does with one wake-up a message; unless it faults, the queue is empty afterwards.
\<close>
lemma stop_drain_equals_loop:
  "deal_all env w = serve_jobs env (length (msgQueue w)) w \<and>
   (case deal_all env w of Inl _ \<Rightarrow> True | Inr w' \<Rightarrow> msgQueue w' = [])"
proof -
  have "deal_all env w = Inr w' \<Longrightarrow> msgQueue w' = []" for w'
    using serve_jobs_empties [of env "length (msgQueue w)" w w'] by (simp add: deal_all_serve)
  then show ?thesis by (auto simp: deal_all_serve split: sum.splits)
qed

end
