(* ===== verification/Ftp_Server.thy ===== *)
theory Ftp_Server
  imports Ftp_Logic_Props
begin

text \<open>
  The FTP server as a whole: \<open>src/src/05_ftp/Server.cpp\<close>, \<open>Server.h\<close> and the signal handler of
  \<open>Run_FtpServer.cpp\<close>. The acceptor's thread, the threads of the pool and the logic thread run
  their handlers against the one world of \<open>Ftp_Session\<close>; \<open>srv_step\<close> interleaves them. A handler
  of the pool is one step; \<open>HandlerAccept\<close> is three, since the session it starts runs on another
  thread than the acceptor's: the session may be served before it is saved in the table. A session
  makes a step only while its context is not stopped.

  A UUID that was drawn before is not drawn again; \<open>remote_endpoint\<close> of an accepted socket that
  throws is an argument of \<open>HandlerAccept\<close>.
\<close>

subsection \<open>Operations\<close>

definition empty_world :: "io_pool \<Rightarrow> ftp_world" where
  "empty_world p = \<lparr>sessions = Map.empty, next_session = 0, nodes = Map.empty, next_node = 0,
     session_table = [], accepting = None, msgQueue = [], pool = p, files = Map.empty\<rparr>"

definition StartAccept :: "string \<Rightarrow> ftp_world \<Rightarrow> fault + ftp_world" where
  "StartAccept uuid w =
     and_then (GetIOService (pool w)) (\<lambda>(ioc, p).
     Inr (w\<lparr>pool := p, sessions := (sessions w)(next_session w \<mapsto> Session uuid ioc),
            accepting := Some (next_session w), next_session := next_session w + 1\<rparr>))"

definition Server :: "string \<Rightarrow> io_pool \<Rightarrow> fault + ftp_world" where
  "Server uuid p = StartAccept uuid (empty_world p)"

text \<open>The parts of \<open>HandlerAccept\<close>: the socket is open when the handler is called without an error.\<close>

definition accept_start :: "addr \<Rightarrow> ftp_world \<Rightarrow> ftp_world" where
  "accept_start a w = Start a (upd_session a (\<lambda>s. s\<lparr>sock_open := True\<rparr>) w)"

definition accept_save :: "addr \<Rightarrow> ftp_world \<Rightarrow> ftp_world" where
  "accept_save a w =
     (case sessions w a of None \<Rightarrow> w
      | Some s \<Rightarrow> w\<lparr>session_table := save_session (ses_id s) a (session_table w)\<rparr>)"

text \<open>\<open>StartAccept\<close>, then the end of the handler, which drops its reference to the session.\<close>

definition accept_next :: "addr \<Rightarrow> string \<Rightarrow> ftp_world \<Rightarrow> fault + ftp_world" where
  "accept_next a uuid w = and_then (StartAccept uuid w) (\<lambda>w. Inr (release a w))"

definition HandlerAccept :: "addr \<Rightarrow> bool \<Rightarrow> bool \<Rightarrow> string \<Rightarrow> ftp_world \<Rightarrow> fault + ftp_world" where
  "HandlerAccept a ec peer_known uuid w =
     (if ec then accept_next a uuid w
      else if \<not> peer_known then Inl System_error
      else accept_next a uuid (accept_save a (accept_start a w)))"

text \<open>\<open>Server::Stop\<close>: a session that dies while the table is cleared erases itself from it.\<close>

definition server_Stop :: "ftp_world \<Rightarrow> fault + ftp_world" where
  "server_Stop w =
     (let as = map snd (session_table w);
          w = fold session_Stop as w;
          cleared = w\<lparr>session_table := []\<rparr>
      in if \<forall>a\<in>set as. owned a cleared then Inr cleared else Inl Reentrant_erase)"

text \<open>The signal handler of \<open>main\<close>: \<open>None\<close> is a stop that never returns.\<close>

definition on_signal :: "ftp_world \<Rightarrow> fault + ftp_world option" where
  "on_signal w =
     and_then (ftp_pool_Stop (\<lambda>_. True) (pool w)) (\<lambda>r.
     Inr (map_option (\<lambda>p. w\<lparr>pool := p\<rparr>) r))"

subsection \<open>The interleaving\<close>

datatype accept_pc = Waiting | Started | Saved | Refused

record server_state =
  srv_world :: ftp_world
  acceptor :: accept_pc

text \<open>Whether the thread that runs a session's handlers is still running.\<close>

definition can_run :: "ftp_world \<Rightarrow> addr \<Rightarrow> bool" where
  "can_run w a =
     (case sessions w a of None \<Rightarrow> False
      | Some s \<Rightarrow> ses_ioc s < length (ioServices (pool w)) \<and> \<not> ioServices (pool w) ! ses_ioc s)"

definition fresh_id :: "string \<Rightarrow> ftp_world \<Rightarrow> bool" where
  "fresh_id uuid w =
     ((\<forall>a s. sessions w a = Some s \<longrightarrow> ses_id s \<noteq> uuid) \<and> uuid \<notin> fst ` set (session_table w))"

inductive srv_step :: "'j logic_env \<Rightarrow> server_state \<Rightarrow> server_state \<Rightarrow> bool" for env where
  accepted: "acceptor s = Waiting \<Longrightarrow> accepting (srv_world s) = Some a \<Longrightarrow>
    srv_step env s (s\<lparr>srv_world := accept_start a (srv_world s), acceptor := Started\<rparr>)"
| saved: "acceptor s = Started \<Longrightarrow> accepting (srv_world s) = Some a \<Longrightarrow>
    srv_step env s (s\<lparr>srv_world := accept_save a (srv_world s), acceptor := Saved\<rparr>)"
| refused: "acceptor s = Waiting \<Longrightarrow> srv_step env s (s\<lparr>acceptor := Refused\<rparr>)"
| next_accept: "acceptor s \<in> {Saved, Refused} \<Longrightarrow> accepting (srv_world s) = Some a \<Longrightarrow>
    fresh_id uuid (srv_world s) \<Longrightarrow> accept_next a uuid (srv_world s) = Inr w \<Longrightarrow>
    srv_step env s (s\<lparr>srv_world := w, acceptor := Waiting\<rparr>)"
| received: "can_run (srv_world s) a \<Longrightarrow>
    sessions (srv_world s) a = Some ses \<Longrightarrow> phase ses \<in> {Reading_head, Reading_body} \<Longrightarrow>
    read_fits a (srv_world s) r \<Longrightarrow> co_step (env_net env) a r (srv_world s) = Inr w \<Longrightarrow>
    srv_step env s (s\<lparr>srv_world := release a w\<rparr>)"
| written: "can_run (srv_world s) a \<Longrightarrow>
    sessions (srv_world s) a = Some ses \<Longrightarrow> writing ses \<noteq> None \<Longrightarrow>
    HandlerWrite a ec (srv_world s) = Inr w \<Longrightarrow>
    srv_step env s (s\<lparr>srv_world := release a w\<rparr>)"
| served: "msgQueue (srv_world s) \<noteq> [] \<Longrightarrow> doWork env (srv_world s) = Inr w \<Longrightarrow>
    srv_step env s (s\<lparr>srv_world := w\<rparr>)"

inductive srv_reach :: "'j logic_env \<Rightarrow> server_state \<Rightarrow> bool" for env where
  server: "0 < n \<Longrightarrow> Server uuid (IOServicePool n) = Inr w \<Longrightarrow>
    srv_reach env \<lparr>srv_world = w, acceptor = Waiting\<rparr>"
| step: "srv_reach env s \<Longrightarrow> srv_step env s s' \<Longrightarrow> srv_reach env s'"

inductive_cases srv_stepE: "srv_step env s s'"

end
