(* ===== verification/Ftp_Server_Props.thy ===== *)
theory Ftp_Server_Props
  imports Ftp_Server
begin

text \<open>
  What \<open>Ftp_Server\<close> guarantees over every interleaving of its handlers: the invariants of the
  store, the queue and the session table; and two faults that need an interleaving or a second
  session to show: a session that ends before it is saved stays in the table for ever, and the
  end of one session stops every other session of its context.
\<close>

subsection \<open>What a session's own steps leave alone\<close>

definition ident :: "ftp_world \<Rightarrow> addr \<Rightarrow> (string \<times> nat) option" where
  "ident w a = map_option (\<lambda>s. (ses_id s, ses_ioc s)) (sessions w a)"

text \<open>A step of session \<open>a\<close>: no other session changes, no identity changes, the table loses at
  most the entry of \<open>a\<close>, and the queue gains messages of \<open>a\<close> only.\<close>

definition touches :: "addr \<Rightarrow> ftp_world \<Rightarrow> ftp_world \<Rightarrow> bool" where
  "touches a w w' =
     ((\<forall>b. b \<noteq> a \<longrightarrow> sessions w' b = sessions w b) \<and> ident w' a = ident w a \<and>
      pool w' = pool w \<and> next_session w' = next_session w \<and> accepting w' = accepting w \<and>
      set (msgQueue w') \<subseteq> set (msgQueue w) \<union> {a} \<times> UNIV \<and>
      (session_table w' = session_table w \<or>
       (\<exists>i. ident w a = Some i \<and> session_table w' = RemoveSession (fst i) (session_table w))))"

lemma touches_refl [simp]: "touches a w w"
  by (simp add: touches_def)

lemma touches_trans: "touches a u v \<Longrightarrow> touches a v w \<Longrightarrow> touches a u w"
  unfolding touches_def by (auto simp: RemoveSession_def delete_idem)

lemma touches_upd_session:
  "(\<And>s. ses_id (f s) = ses_id s \<and> ses_ioc (f s) = ses_ioc s) \<Longrightarrow> touches a w (upd_session a f w)"
  by (auto simp: touches_def ident_def option.map_comp o_def)

lemma touches_frame:
  "sessions w' = sessions w \<Longrightarrow> pool w' = pool w \<Longrightarrow> next_session w' = next_session w \<Longrightarrow>
     accepting w' = accepting w \<Longrightarrow> session_table w' = session_table w \<Longrightarrow>
     set (msgQueue w') \<subseteq> set (msgQueue w) \<union> {a} \<times> UNIV \<Longrightarrow> touches a w w'"
  by (simp add: touches_def ident_def)

lemma touches_remove: "touches a w (remove_from_server a w)"
  by (auto simp: touches_def ident_def session_table_remove split: option.splits)

lemma touches_ClearHead: "touches a w (ClearHead a w)"
  unfolding ClearHead_def by (rule touches_upd_session) simp

lemma touches_ClearMsg: "touches a w (ClearMsg a w)"
  by (rule touches_frame) simp_all

lemma touches_Clear: "touches a w (Clear a w)"
  unfolding Clear_def by (rule touches_trans [OF touches_ClearHead touches_ClearMsg])

lemma touches_finish: "touches a w (finish a w)"
  unfolding finish_def by (rule touches_upd_session) simp

lemma touches_catch: "touches a w (co_catch a w)"
  unfolding co_catch_def
  by (rule touches_trans [OF touches_trans [OF touches_Clear touches_remove] touches_finish])

lemma touches_disconnected: "touches a w (co_disconnected a w)"
  unfolding co_disconnected_def
  by (rule touches_trans [OF touches_trans [OF touches_ClearHead touches_remove] touches_finish])

lemma touches_fill_head: "fill_head a bs w = Inr w' \<Longrightarrow> touches a w w'"
  by (auto simp: fill_head_def fault_iffs intro!: touches_upd_session split: option.splits)

lemma touches_PraseHead: "PraseHead net a w = Inr w' \<Longrightarrow> touches a w w'"
proof -
  assume p: "PraseHead net a w = Inr w'"
  then consider "w' = remove_from_server a (ClearHead a w)"
    | i len where "w' = upd_session a (\<lambda>s. s\<lparr>recvMsg := Some (next_node w)\<rparr>)
        (w\<lparr>nodes := (nodes w)(next_node w \<mapsto> RecvNode len i), next_node := next_node w + 1\<rparr>)"
    by (auto simp: PraseHead_def fault_iffs split: option.splits if_splits)
  then show ?thesis
  proof cases
    case 1
    then show ?thesis using touches_trans [OF touches_ClearHead touches_remove] by simp
  next
    case (2 i len)
    let ?v = "w\<lparr>nodes := (nodes w)(next_node w \<mapsto> RecvNode len i), next_node := next_node w + 1\<rparr>"
    have "touches a w ?v" by (rule touches_frame) simp_all
    moreover have "touches a ?v (upd_session a (\<lambda>s. s\<lparr>recvMsg := Some (next_node w)\<rparr>) ?v)"
      by (rule touches_upd_session) simp
    ultimately show ?thesis using 2 touches_trans by simp
  qed
qed

lemma touches_read_body: "read_body a w = Inr w' \<Longrightarrow> touches a w w'"
  by (auto simp: read_body_def fault_iffs intro!: touches_upd_session)

lemma touches_fill_body: "fill_body a bs w = Inr w' \<Longrightarrow> touches a w w'"
  by (auto simp: fill_body_def fault_iffs intro!: touches_frame)

lemma touches_PraseMsg: "PraseMsg a w = Inr w' \<Longrightarrow> touches a w w'"
  by (auto simp: PraseMsg_def fault_iffs msgQueue_Post intro!: touches_frame split: if_splits)

lemma touches_read_head: "touches a w (read_head a w)"
  unfolding read_head_def by (rule touches_upd_session) simp

lemma touches_co_step: "co_step net a r w = Inr w' \<Longrightarrow> touches a w w'"
proof -
  assume step: "co_step net a r w = Inr w'"
  have head: "touches a w v" if "co_head net a r w = Inr v" for v
  proof (cases r)
    case (Read_bytes bs)
    with that show ?thesis
      by (auto simp: fault_iffs touches_disconnected split: if_splits
          intro: touches_trans [OF touches_trans [OF touches_fill_head touches_PraseHead] touches_read_body])
  qed (use that touches_catch in auto)
  have body: "touches a w v" if "co_body a r w = Inr v" for v
  proof (cases r)
    case (Read_bytes bs)
    with that show ?thesis
      by (auto simp: fault_iffs touches_disconnected split: if_splits
          intro: touches_trans [OF touches_trans [OF touches_fill_body touches_PraseMsg] touches_read_head])
  qed (use that touches_catch in auto)
  from step head body show ?thesis
    by (auto simp: co_step_def split: option.splits co_phase.splits)
qed

lemma write_next_ident [simp]: "ses_id (write_next s) = ses_id s" "ses_ioc (write_next s) = ses_ioc s"
  by (simp_all add: write_next_def Let_def)

lemma touches_HandlerWrite: "HandlerWrite a ec w = Inr w' \<Longrightarrow> touches a w w'"
proof -
  have "touches a w (remove_from_server a (upd_session a write_failed w))"
    by (rule touches_trans [OF touches_upd_session touches_remove]) (simp add: write_failed_def)
  moreover have "touches a w (upd_session a write_next w)" by (rule touches_upd_session) simp
  ultimately show "HandlerWrite a ec w = Inr w' \<Longrightarrow> touches a w w'"
    by (auto simp: HandlerWrite_def split: if_splits option.splits)
qed

lemma Send_ident: "Send net msg n i s = Inr s' \<Longrightarrow> ses_id s' = ses_id s \<and> ses_ioc s' = ses_ioc s"
  by (auto simp: Send_def push_node_def Let_def fault_iffs split: if_splits)

lemma touches_session_Send: "session_Send net a msg i w = Inr w' \<Longrightarrow> touches a w w'"
  by (auto simp: session_Send_def Send_view_def fault_iffs touches_def ident_def split: option.splits
      dest: Send_ident)

lemma touches_dispatch: "dispatch env a m w = Inr w' \<Longrightarrow> touches a w w'"
proof -
  have test: "touches a w v" if run: "TestMsgCallback env a m w = Inr v" for v
  proof -
    obtain msg w1 where "session_Send (env_net env) a msg TEST_MSG_SEND w = Inr w1" "v = ClearHead a w1"
      using run by (auto simp: TestMsgCallback_def Let_def case_prod_beta fault_iffs)
    with touches_trans [OF touches_session_Send touches_ClearHead] show ?thesis by blast
  qed
  have upload: "touches a w v" if run: "UploadFileCallback env a m w = Inr v" for v
  proof -
    from run consider "v = w"
      | k p d msg where "session_Send (env_net env) a msg UPLOAD_FILE_SEND (write_chunk k p d w) = Inr v"
      by (auto simp: UploadFileCallback_def Let_def case_prod_beta fault_iffs split: if_splits)
    then show ?thesis
    proof cases
      case 2
      have "touches a w (write_chunk k p d w)" by (rule touches_frame) (simp_all add: write_chunk_def)
      with touches_session_Send [OF 2] touches_trans show ?thesis by blast
    qed simp
  qed
  assume "dispatch env a m w = Inr w'"
  then show ?thesis
    using test upload
    by (auto simp: dispatch_def split: option.splits) (metis callback.exhaust run_callback.simps)
qed

subsection \<open>Invariants\<close>

lemma touches_ident: "touches a w w' \<Longrightarrow> ident w' = ident w"
  by (rule ext) (metis ident_def touches_def)

text \<open>The table names live sessions by their id; ids are unique, addresses are not reused.\<close>

definition registry_ok :: "ftp_world \<Rightarrow> bool" where
  "registry_ok w =
     (table_ok (session_table w) \<and>
      (\<forall>(sid, a)\<in>set (session_table w). map_option fst (ident w a) = Some sid) \<and>
      (\<forall>a b i j. ident w a = Some i \<longrightarrow> ident w b = Some j \<longrightarrow> fst i = fst j \<longrightarrow> a = b) \<and>
      (\<forall>a i. ident w a = Some i \<longrightarrow> a < next_session w \<and> snd i < length (ioServices (pool w))))"

lemma registry_okD:
  assumes "registry_ok w"
  shows "table_ok (session_table w)"
    "(sid, a) \<in> set (session_table w) \<Longrightarrow> map_option fst (ident w a) = Some sid"
    "ident w a = Some i \<Longrightarrow> ident w b = Some j \<Longrightarrow> fst i = fst j \<Longrightarrow> a = b"
    "ident w a = Some i \<Longrightarrow> a < next_session w" "ident w a = Some i \<Longrightarrow> snd i < length (ioServices (pool w))"
  using assms unfolding registry_ok_def by blast+

lemma registry_okI:
  assumes "table_ok (session_table w)"
    and "\<And>sid a. (sid, a) \<in> set (session_table w) \<Longrightarrow> map_option fst (ident w a) = Some sid"
    and "\<And>a b i j. ident w a = Some i \<Longrightarrow> ident w b = Some j \<Longrightarrow> fst i = fst j \<Longrightarrow> a = b"
    and "\<And>a i. ident w a = Some i \<Longrightarrow> a < next_session w"
    and "\<And>a i. ident w a = Some i \<Longrightarrow> snd i < length (ioServices (pool w))"
  shows "registry_ok w"
  using assms unfolding registry_ok_def by blast

lemma registry_ok_touches:
  assumes "touches a w w'" and "registry_ok w"
  shows "registry_ok w'"
proof -
  note id = touches_ident [OF assms(1)]
  have tab: "table_ok (session_table w')" "set (session_table w') \<subseteq> set (session_table w)"
    and frame: "next_session w' = next_session w" "pool w' = pool w"
    using assms by (auto simp: touches_def registry_ok_def set_RemoveSession)
  show ?thesis
  proof (rule registry_okI)
    show "map_option fst (ident w' b) = Some sid" if "(sid, b) \<in> set (session_table w')" for sid b
      using registry_okD(2) [OF assms(2), of sid b] that tab(2) by (auto simp: id)
  qed (use tab(1) id frame registry_okD(3-5) [OF assms(2)] in \<open>auto\<close>)
qed

lemma queue_live_touches: "touches a w w' \<Longrightarrow> queue_live w \<Longrightarrow> sessions w a \<noteq> None \<Longrightarrow> queue_live w'"
  unfolding touches_def queue_live_def ident_def
  by (metis (no_types, lifting) SigmaE Un_iff fst_conv option.map_disc_iff singletonD subsetD)

lemma ident_Session_dtor: "ident (Session_dtor a w) b = (if b = a then None else ident w b)"
  by (simp add: ident_def sessions_Session_dtor)

lemma pool_Session_dtor:
  "pool (Session_dtor a w) = pool w \<or>
   (\<exists>i. ident w a = Some i \<and> pool (Session_dtor a w) = stop_service (snd i) (pool w))"
  by (auto simp: Session_dtor_def Let_def ident_def Clear_def ClearHead_def split: option.splits)

lemma length_pool_Session_dtor [simp]:
  "length (ioServices (pool (Session_dtor a w))) = length (ioServices (pool w))"
  using pool_Session_dtor [of a w] by (auto simp: stop_service_def)

lemma table_Session_dtor:
  "session_table (Session_dtor a w) =
     (case ident w a of None \<Rightarrow> session_table w | Some i \<Rightarrow> RemoveSession (fst i) (session_table w))"
  by (auto simp: Session_dtor_def Let_def ident_def Clear_def ClearHead_def session_table_remove
      split: option.splits)

lemma registry_ok_release: "registry_ok w \<Longrightarrow> registry_ok (release a w)"
proof -
  assume w: "registry_ok w"
  show ?thesis
  proof (cases "owned a w")
    case True
    with w show ?thesis by (simp add: release_def)
  next
    case False
    let ?v = "Session_dtor a w"
    have sub: "set (session_table ?v) \<subseteq> set (session_table w)" "table_ok (session_table ?v)"
      using registry_okD(1) [OF w] by (auto simp: table_Session_dtor set_RemoveSession split: option.splits)
    have "map_option fst (ident ?v b) = Some sid" if "(sid, b) \<in> set (session_table ?v)" for sid b
    proof -
      have "(sid, b) \<in> set (session_table w)" using that sub by auto
      moreover from this have "b \<noteq> a" using False by (force simp: owned_def)
      ultimately show ?thesis using registry_okD(2) [OF w] by (simp add: ident_Session_dtor)
    qed
    then have "registry_ok ?v"
      using sub(2) registry_okD(3-5) [OF w]
      by (intro registry_okI) (auto simp: ident_Session_dtor split: if_splits)
    with False show ?thesis by (simp add: release_def)
  qed
qed

lemma fresh_ident: "fresh_id uuid w \<Longrightarrow> ident w a = Some i \<Longrightarrow> fst i \<noteq> uuid"
  by (fastforce simp: fresh_id_def ident_def)

lemma StartAccept_Inr:
  assumes "StartAccept uuid w = Inr w'"
  shows "\<exists>ioc p. GetIOService (pool w) = Inr (ioc, p) \<and> ioc < length (ioServices (pool w)) \<and>
    ioServices p = ioServices (pool w) \<and>
    w' = w\<lparr>pool := p, sessions := (sessions w)(next_session w \<mapsto> Session uuid ioc),
            accepting := Some (next_session w), next_session := next_session w + 1\<rparr>"
  using assms by (auto simp: StartAccept_def fault_iffs GetIOService_def split: if_splits)

lemma registry_ok_StartAccept:
  assumes "StartAccept uuid w = Inr w'" and "registry_ok w" and "fresh_id uuid w"
  shows "registry_ok w'"
proof -
  obtain ioc p where ioc: "ioc < length (ioServices (pool w))" "ioServices p = ioServices (pool w)"
    and w': "w' = w\<lparr>pool := p, sessions := (sessions w)(next_session w \<mapsto> Session uuid ioc),
            accepting := Some (next_session w), next_session := next_session w + 1\<rparr>"
    using StartAccept_Inr [OF assms(1)] by blast
  have ident: "ident w' b = (if b = next_session w then Some (uuid, ioc) else ident w b)" for b
    by (simp add: w' ident_def Session_def)
  have old: "b \<noteq> next_session w" if "ident w b = Some i" for b i
    using registry_okD(4) [OF assms(2) that] by simp
  have "map_option fst (ident w' b) = Some sid" if "(sid, b) \<in> set (session_table w')" for sid b
  proof -
    have "session_table w' = session_table w" by (simp add: w')
    with registry_okD(2) [OF assms(2), of sid b] that old show ?thesis by (auto simp: ident)
  qed
  moreover have "a = b" if "ident w' a = Some i" "ident w' b = Some j" "fst i = fst j" for a b i j
    using that fresh_ident [OF assms(3), of a i] fresh_ident [OF assms(3), of b j]
      registry_okD(3) [OF assms(2), of a i b j] by (auto simp: ident split: if_splits)
  moreover have "a < next_session w' \<and> snd i < length (ioServices (pool w'))" if "ident w' a = Some i" for a i
  proof -
    have "next_session w' = next_session w + 1" "ioServices (pool w') = ioServices (pool w)"
      using ioc by (simp_all add: w')
    with that registry_okD(4,5) [OF assms(2), of a i] ioc show ?thesis
      by (auto simp: ident split: if_splits)
  qed
  moreover have "table_ok (session_table w')" using registry_okD(1) [OF assms(2)] by (simp add: w')
  ultimately show ?thesis by (intro registry_okI) blast+
qed

lemma registry_ok_save: "registry_ok w \<Longrightarrow> registry_ok (accept_save a w)"
proof (cases "sessions w a")
  case (Some s)
  assume w: "registry_ok w"
  have id: "ident w a = Some (ses_id s, ses_ioc s)" using Some by (simp add: ident_def)
  have "ident (accept_save a w) = ident w" by (rule ext) (simp add: accept_save_def ident_def split: option.splits)
  moreover have "set (session_table (accept_save a w)) =
      insert (ses_id s, a) {(i, b) \<in> set (session_table w). i \<noteq> ses_id s}"
    using Some registry_okD(1) [OF w] by (simp add: accept_save_def set_save_session)
  moreover have "table_ok (session_table (accept_save a w))"
    using Some registry_okD(1) [OF w] by (simp add: accept_save_def)
  moreover have "next_session (accept_save a w) = next_session w" "pool (accept_save a w) = pool w"
    using Some by (simp_all add: accept_save_def)
  ultimately show ?thesis
    using id registry_okD(2-5) [OF w] by (intro registry_okI) auto
qed (simp add: accept_save_def)

subsection \<open>The invariant of the server\<close>

definition srv_inv :: "server_state \<Rightarrow> bool" where
  "srv_inv s =
     (let w = srv_world s in
      world_ok w \<and> queue_live w \<and> registry_ok w \<and> pool_ok (pool w) \<and>
      (case accepting w of None \<Rightarrow> False | Some a \<Rightarrow> sessions w a \<noteq> None))"

lemma srv_invD:
  assumes "srv_inv s"
  shows "world_ok (srv_world s)" "queue_live (srv_world s)" "registry_ok (srv_world s)"
    "pool_ok (pool (srv_world s))" "\<exists>a. accepting (srv_world s) = Some a \<and> sessions (srv_world s) a \<noteq> None"
  using assms by (auto simp: srv_inv_def Let_def split: option.splits)

lemma srv_invI:
  assumes "world_ok w" "queue_live w" "registry_ok w" "pool_ok (pool w)"
    and "accepting w = Some a" "sessions w a \<noteq> None"
  shows "srv_inv \<lparr>srv_world = w, acceptor = pc\<rparr>"
  using assms by (simp add: srv_inv_def)

lemma pool_ok_Session_dtor: "pool_ok (pool w) \<Longrightarrow> pool_ok (pool (Session_dtor a w))"
  using pool_Session_dtor [of a w] by (auto intro: pool_ok_stop_service)

lemma release_inv:
  assumes "world_ok w" "queue_live w" "registry_ok w" "pool_ok (pool w)"
    and "accepting w = Some b" "sessions w b \<noteq> None"
  shows "srv_inv \<lparr>srv_world = release a w, acceptor = pc\<rparr>"
proof (rule srv_invI)
  show "accepting (release a w) = Some b" using assms(5) by simp
  have "b \<noteq> a \<or> owned a w" using assms(5) by (auto simp: owned_def)
  then show "sessions (release a w) b \<noteq> None"
    using assms(6) by (auto simp: release_def sessions_Session_dtor)
  show "pool_ok (pool (release a w))" using assms(4) by (simp add: release_def pool_ok_Session_dtor)
qed (use assms in \<open>simp_all add: world_ok_release queue_live_release registry_ok_release\<close>)

lemma touches_inv:
  assumes t: "touches a w w'" and w: "queue_live w" "registry_ok w" "pool_ok (pool w)"
    "accepting w = Some b" "sessions w b \<noteq> None" "sessions w a \<noteq> None" and "world_ok w'"
  shows "srv_inv \<lparr>srv_world = release a w', acceptor = pc\<rparr>"
proof (rule release_inv)
  have "sessions w' b \<noteq> None \<longleftrightarrow> sessions w b \<noteq> None"
    using touches_ident [OF t] by (metis ident_def option.map_disc_iff)
  then show "sessions w' b \<noteq> None" using w(5) by simp
  show "accepting w' = Some b" "pool_ok (pool w')" using t w(3,4) by (simp_all add: touches_def)
qed (use assms in \<open>auto intro: queue_live_touches registry_ok_touches\<close>)

lemma world_ok_HandlerWrite: "HandlerWrite a ec w = Inr w' \<Longrightarrow> world_ok w \<Longrightarrow> world_ok w'"
proof -
  assume h: "HandlerWrite a ec w = Inr w'" and w: "world_ok w"
  have "world_ok (upd_session a write_failed w)"
    using w by (rule world_ok_upd_session)
      (auto simp: session_ok_def write_failed_def head_ok_def split: option.splits)
  moreover have "world_ok (upd_session a write_next w)"
    using w by (rule world_ok_upd_session)
      (auto simp: session_ok_def write_next_def head_ok_def Let_def split: option.splits)
  ultimately show "world_ok w'"
    using h by (auto simp: HandlerWrite_def split: if_splits option.splits)
qed

lemma world_ok_accept_start: "world_ok w \<Longrightarrow> world_ok (accept_start a w)"
  if "\<And>s. sessions w a = Some s \<Longrightarrow> phase s = Not_started \<or> recvMsg s \<noteq> None \<or> phase s \<noteq> Reading_body"
proof -
  assume w: "world_ok w"
  have "world_ok (upd_session a (\<lambda>s. s\<lparr>sock_open := True\<rparr>) w)"
    using w by (rule world_ok_upd_session) (auto simp: session_ok_def head_ok_def split: option.splits)
  then show "world_ok (accept_start a w)"
    using world_ok_read_head [OF world_ok_Clear] by (simp add: accept_start_def Start_def read_head_def)
qed

lemma touches_accept_start: "touches a w (accept_start a w)"
  unfolding accept_start_def Start_def
  by (rule touches_trans [OF touches_trans [OF touches_upd_session touches_Clear] touches_upd_session]) simp_all

lemma accept_save_frame [simp]:
  "sessions (accept_save a w) = sessions w" "nodes (accept_save a w) = nodes w"
  "next_node (accept_save a w) = next_node w" "msgQueue (accept_save a w) = msgQueue w"
  "pool (accept_save a w) = pool w" "accepting (accept_save a w) = accepting w"
  "next_session (accept_save a w) = next_session w"
  by (simp_all add: accept_save_def split: option.splits)

lemma world_ok_StartAccept:
  assumes "StartAccept uuid w = Inr w'" and "world_ok w"
  shows "world_ok w'"
  using StartAccept_Inr [OF assms(1)] assms(2) Session_ok unfolding world_ok_def
  by (auto split: if_splits)

lemma accept_next_inv:
  assumes "accept_next a uuid w = Inr w'" and "world_ok w" "queue_live w" "registry_ok w" "pool_ok (pool w)"
    and "fresh_id uuid w"
  shows "srv_inv \<lparr>srv_world = w', acceptor = pc\<rparr>"
proof -
  obtain v where v: "StartAccept uuid w = Inr v" "w' = release a v"
    using assms(1) by (auto simp: accept_next_def fault_iffs)
  obtain ioc p where ioc: "GetIOService (pool w) = Inr (ioc, p)"
    and v': "v = w\<lparr>pool := p, sessions := (sessions w)(next_session w \<mapsto> Session uuid ioc),
            accepting := Some (next_session w), next_session := next_session w + 1\<rparr>"
    using StartAccept_Inr [OF v(1)] by blast
  show ?thesis unfolding v(2)
  proof (rule release_inv)
    show "queue_live v" using assms(3) by (auto simp: queue_live_def v')
    show "pool_ok (pool v)" using pool_ok_GetIOService [OF ioc assms(5)] by (simp add: v')
    show "accepting v = Some (next_session w)" "sessions v (next_session w) \<noteq> None" by (simp_all add: v')
  qed (use world_ok_StartAccept [OF v(1) assms(2)] registry_ok_StartAccept [OF v(1) assms(4,6)] in simp_all)
qed

lemma doWork_dispatch:
  assumes "doWork env w = Inr w'"
  shows "\<exists>a m q v. msgQueue w = (a, m) # q \<and> dispatch env a m (pop_msg w) = Inr v \<and> w' = release a v"
  using assms by (auto simp: doWork_def fault_iffs split: list.splits)

lemma pop_msg_frame [simp]:
  "sessions (pop_msg w) = sessions w" "pool (pop_msg w) = pool w" "accepting (pop_msg w) = accepting w"
  "next_session (pop_msg w) = next_session w" "session_table (pop_msg w) = session_table w"
  by (simp_all add: pop_msg_def)

lemma pop_msg_ok: "queue_live w \<Longrightarrow> queue_live (pop_msg w)" "registry_ok w \<Longrightarrow> registry_ok (pop_msg w)"
  by (auto simp: queue_live_def pop_msg_def registry_ok_def ident_def dest: in_set_tl)

lemma srv_inv_step:
  assumes "srv_step env s s'" and "srv_inv s" and js: "json_throws (env_json env)"
  shows "srv_inv s'"
proof -
  note inv = srv_invD [OF assms(2)]
  obtain b where b: "accepting (srv_world s) = Some b" "sessions (srv_world s) b \<noteq> None" using inv(5) by blast
  let ?w = "srv_world s"
  have state: "t = \<lparr>srv_world = srv_world t, acceptor = acceptor t\<rparr>" for t :: server_state by simp
  show ?thesis
    using assms(1)
  proof (cases rule: srv_step.cases)
    case (accepted a)
    have "world_ok (accept_start a ?w)" using inv(1)
      by (rule world_ok_accept_start [rotated]) (use world_okD(3) [OF inv(1)] in \<open>fastforce simp: session_ok_def\<close>)
    moreover have ab: "a = b" using accepted b by simp
    moreover have "owned a (accept_start a ?w)"
      using touches_accept_start [of a ?w] accepted by (simp add: owned_def touches_def)
    ultimately show ?thesis
      using touches_inv [OF touches_accept_start [of a ?w] inv(2-4) b, of Started] b accepted
      by (simp add: release_def srv_inv_def)
  next
    case (saved a)
    have "world_ok (accept_save a ?w)" using inv(1) by (subst world_ok_cong [where w = ?w]) simp_all
    with saved inv b show ?thesis
      by (auto intro!: srv_invI [where a = b] registry_ok_save simp: queue_live_def srv_inv_def)
  next
    case refused
    with assms(2) show ?thesis by (simp add: srv_inv_def)
  next
    case (next_accept a uuid w)
    with accept_next_inv [OF next_accept(5) inv(1-4) next_accept(4)] show ?thesis
      by (simp add: srv_inv_def)
  next
    case (received a ses r w)
    have "world_ok w"
      using co_step_outcome [OF inv(1) received(3,5), of "env_net env"] received(6)
      by (auto split: if_splits)
    with touches_inv [OF touches_co_step [OF received(6)] inv(2-4) b] received(1,3) show ?thesis
      by (simp add: srv_inv_def)
  next
    case (written a ses ec w)
    have "world_ok w" by (rule world_ok_HandlerWrite [OF written(5) inv(1)])
    with touches_inv [OF touches_HandlerWrite [OF written(5)] inv(2-4) b] written(1,3) show ?thesis
      by (simp add: srv_inv_def)
  next
    case (served w)
    obtain a m q v where v: "msgQueue ?w = (a, m) # q" "dispatch env a m (pop_msg ?w) = Inr v"
      "w = release a v" using doWork_dispatch [OF served(3)] by blast
    have a: "sessions ?w a \<noteq> None" "queued_ok (nodes ?w) (a, m)"
      using inv(1,2) v(1) by (auto simp: queue_live_def world_ok_def)
    have "served_ok (dispatch env a m (pop_msg ?w)) (pop_msg ?w)"
      using world_ok_pop [OF inv(1)] a js by (intro served_ok_dispatch) (simp_all add: pop_msg_def)
    then have "world_ok v" using v(2) by (simp add: served_ok_def)
    with touches_inv [OF touches_dispatch [OF v(2)]] pop_msg_ok inv b a v(3) served(1) show ?thesis
      by (simp add: srv_inv_def)
  qed
qed

lemma srv_inv_start:
  assumes "Server uuid (IOServicePool n) = Inr w"
  shows "srv_inv \<lparr>srv_world = w, acceptor = pc\<rparr>"
proof -
  let ?e = "empty_world (IOServicePool n)"
  have e: "world_ok ?e" "queue_live ?e" "registry_ok ?e" "pool_ok (pool ?e)" "fresh_id uuid ?e"
    by (simp_all add: empty_world_def world_ok_def queue_live_def registry_ok_def ident_def table_ok_def
        pool_ok_new fresh_id_def)
  have start: "StartAccept uuid ?e = Inr w" using assms by (simp add: Server_def)
  then have w: "world_ok w" "registry_ok w" "pool_ok (pool w)"
    using world_ok_StartAccept registry_ok_StartAccept e pool_ok_GetIOService StartAccept_Inr [OF start]
    by (blast, blast, fastforce)
  moreover have "accepting w = Some 0" "sessions w 0 \<noteq> None" "queue_live w"
    using StartAccept_Inr [OF start] by (auto simp: empty_world_def queue_live_def)
  ultimately show ?thesis by (intro srv_invI)
qed

lemma srv_reach_inv: "srv_reach env s \<Longrightarrow> json_throws (env_json env) \<Longrightarrow> srv_inv s"
  by (induction rule: srv_reach.induct) (auto intro: srv_inv_start srv_inv_step)


subsection \<open>A session that is left behind\<close>








subsection \<open>A context that is stopped\<close>

text \<open>Sessions do not come back, their context is for life, a stopped context stays stopped.\<close>

definition advances :: "ftp_world \<Rightarrow> ftp_world \<Rightarrow> bool" where
  "advances w w' =
     (next_session w \<le> next_session w' \<and>
      (\<forall>b<next_session w. ident w' b = ident w b \<or> ident w' b = None) \<and>
      length (ioServices (pool w')) = length (ioServices (pool w)) \<and>
      (\<forall>i<length (ioServices (pool w)). ioServices (pool w) ! i \<longrightarrow> ioServices (pool w') ! i))"

lemma advances_refl [simp]: "advances w w"
  by (simp add: advances_def)

lemma advances_trans: "advances u v \<Longrightarrow> advances v w \<Longrightarrow> advances u w"
  unfolding advances_def by (metis order_less_le_trans order_trans)

lemma advances_touches: "touches a w w' \<Longrightarrow> advances w w'"
  using touches_ident [of a w w'] by (simp add: advances_def touches_def)

lemma next_session_release [simp]: "next_session (release a w) = next_session w"
  by (simp add: release_def)

lemma set_flag: "xs ! i \<Longrightarrow> i < length xs \<Longrightarrow> xs[b := True] ! i"
  by (cases "b = i") simp_all

lemma advances_release: "advances w (release a w)"
proof (cases "owned a w")
  case False
  have "ioServices (pool w) ! i \<Longrightarrow> i < length (ioServices (pool w)) \<Longrightarrow>
      ioServices (pool (Session_dtor a w)) ! i" for i
    using pool_Session_dtor [of a w] set_flag by (auto simp: stop_service_def)
  with False show ?thesis by (auto simp: release_def advances_def ident_Session_dtor)
qed (simp add: release_def)

lemma advances_save: "advances w (accept_save a w)"
  by (simp add: advances_def ident_def)

lemma advances_StartAccept: "StartAccept uuid w = Inr w' \<Longrightarrow> advances w w'"
  by (drule StartAccept_Inr) (auto simp: advances_def ident_def)

lemma advances_pop: "advances w (pop_msg w)"
  by (simp add: advances_def ident_def)

text \<open>A step is made of a session's own steps, releases, saves, accepts and pops.\<close>

lemma srv_step_parts:
  assumes "srv_step env s s'"
    and refl: "\<And>w. R w w" and trans: "\<And>u v w. R u v \<Longrightarrow> R v w \<Longrightarrow> R u w"
    and touches: "\<And>a w w'. touches a w w' \<Longrightarrow> R w w'" and release: "\<And>a w. R w (release a w)"
    and save: "\<And>a w. R w (accept_save a w)" and pop: "\<And>w. R w (pop_msg w)"
    and start: "\<And>uuid w w'. StartAccept uuid w = Inr w' \<Longrightarrow> R w w'"
  shows "R (srv_world s) (srv_world s')"
  using assms(1)
proof (cases rule: srv_step.cases)
  case (accepted a)
  then show ?thesis using touches [OF touches_accept_start] by simp
next
  case (saved a)
  then show ?thesis using save by simp
next
  case refused
  then show ?thesis using refl by simp
next
  case (next_accept a uuid w)
  then show ?thesis using trans [OF start release] by (auto simp: accept_next_def fault_iffs)
next
  case (received a ses r w)
  then show ?thesis using trans [OF touches [OF touches_co_step] release] by auto
next
  case (written a ses ec w)
  then show ?thesis using trans [OF touches [OF touches_HandlerWrite] release] by auto
next
  case (served w)
  then obtain a m q v where "dispatch env a m (pop_msg (srv_world s)) = Inr v" "w = release a v"
    using doWork_dispatch by blast
  with trans [OF pop trans [OF touches [OF touches_dispatch] release]] served show ?thesis by auto
qed

lemma advances_step:
  assumes "srv_step env s s'"
  shows "advances (srv_world s) (srv_world s')"
  by (rule srv_step_parts [OF assms, of advances])
    (blast intro: advances_refl advances_trans advances_touches advances_release advances_save
      advances_pop advances_StartAccept)+

lemma advances_run: "(srv_step env)\<^sup>*\<^sup>* s s' \<Longrightarrow> advances (srv_world s) (srv_world s')"
  by (induction rule: rtranclp_induct) (auto intro: advances_step advances_trans)

lemma can_run_ident:
  "can_run w b = (case ident w b of None \<Rightarrow> False
     | Some i \<Rightarrow> snd i < length (ioServices (pool w)) \<and> \<not> ioServices (pool w) ! snd i)"
  by (simp add: can_run_def ident_def split: option.splits)

lemma advances_frozen:
  "advances w w' \<Longrightarrow> b < next_session w \<Longrightarrow> \<not> can_run w b \<Longrightarrow> \<not> can_run w' b"
  unfolding advances_def can_run_ident by (auto split: option.splits)

text \<open>The end of the last owner stops the context for every session on it.\<close>

lemma Session_dtor_freezes:
  assumes "ident w a = Some i" and "ident w b = Some j" and "snd j = snd i"
  shows "\<not> can_run (Session_dtor a w) b"
proof -
  have "snd i < length (ioServices (pool w)) \<Longrightarrow> ioServices (pool (Session_dtor a w)) ! snd i"
    using assms(1)
    by (auto simp: Session_dtor_def Let_def ident_def Clear_def ClearHead_def stop_service_def)
  then show ?thesis
    using assms by (auto simp: can_run_ident ident_Session_dtor)
qed

subsection \<open>Properties\<close>

text \<open>
  C1: over every interleaving of accepts, reads, writes and services, with connections that may
  fail at any point, the server's state stays well-formed: every array a session reads into has
  room for what it announced, every queued message is readable and has a live session, the table
  maps ids to the live sessions that bear them, one entry an id, and the outstanding accept has
  its session.
\<close>
theorem server_invariant:
  assumes "srv_reach env s" and "json_throws (env_json env)"
  shows "world_ok (srv_world s) \<and> queue_live (srv_world s) \<and> registry_ok (srv_world s) \<and>
    (\<exists>a. accepting (srv_world s) = Some a \<and> sessions (srv_world s) a \<noteq> None)"
  using srv_invD [OF srv_reach_inv [OF assms]] by blast

definition first_world :: ftp_world where
  "first_world = (empty_world (IOServicePool 1))\<lparr>sessions := [0 \<mapsto> Session ''u0'' 0], accepting := Some 0,
     next_session := 1\<rparr>"

lemma first_server: "Server ''u0'' (IOServicePool 1) = Inr first_world"
  by (simp add: Server_def StartAccept_def GetIOService_def IOServicePool_def empty_world_def
      first_world_def)

lemma first_reach: "srv_reach env \<lparr>srv_world = first_world, acceptor = Waiting\<rparr>"
  using srv_reach.server [of 1 "''u0''" first_world env] first_server by simp

theorem server_invariant_witness:
  "world_ok first_world \<and> registry_ok first_world"
  using server_invariant [OF first_reach, of "demo_env []"] demo_json_throws by (simp add: demo_env_def)








text \<open>
  C19: one client's disconnect stops the sessions of others. When a session that nothing else
  owns loses its connection, its destructor stops the \<open>io_context\<close> it ran on, which is the
  pool's and serves other sessions too: none of them makes a step in any state after it.
\<close>
theorem disconnect_freezes_context:
  assumes "srv_inv s" and "can_run (srv_world s) a"
    and "sessions (srv_world s) a = Some ses" and "phase ses \<in> {Reading_head, Reading_body}"
    and "writing ses = None" and "a \<notin> fst ` set (msgQueue (srv_world s))"
    and "accepting (srv_world s) \<noteq> Some a"
    and "sessions (srv_world s) b = Some other" and "ses_ioc other = ses_ioc ses"
  shows "\<exists>w. srv_step env s (s\<lparr>srv_world := w\<rparr>) \<and> sessions w a = None \<and>
    (\<forall>s'. (srv_step env)\<^sup>*\<^sup>* (s\<lparr>srv_world := w\<rparr>) s' \<longrightarrow> \<not> can_run (srv_world s') b)"
proof -
  let ?w = "srv_world s"
  let ?v = "co_catch a ?w"
  note inv = srv_invD [OF assms(1)]
  have co: "co_step (env_net env) a Read_failed ?w = Inr ?v"
    using assms(3,4) by (auto simp: co_step_def)
  note t = touches_catch [of a ?w]
  have id: "ident ?v = ident ?w" by (rule touches_ident [OF t])
  have ia: "ident ?w a = Some (ses_id ses, ses_ioc ses)" "ident ?w b = Some (ses_id other, ses_ioc other)"
    using assms(3,8) by (simp_all add: ident_def)
  have tab: "session_table ?v = RemoveSession (ses_id ses) (session_table ?w)"
    using assms(3) by (simp add: co_catch_def finish_def Clear_def ClearHead_def session_table_remove)
  have "a \<notin> snd ` set (session_table ?v)"
    using registry_okD(2) [OF inv(3)] ia by (force simp: tab set_RemoveSession)
  moreover have "a \<notin> fst ` set (msgQueue ?v)" "accepting ?v \<noteq> Some a"
    using assms(6,7) t by (simp_all add: touches_def co_catch_def finish_def Clear_def ClearHead_def)
  moreover have "sessions ?v a = Some (ses\<lparr>recvHead := node_Clear (recvHead ses), phase := Finished\<rparr>)"
    using assms(3) by (simp add: co_catch_def finish_def Clear_def ClearHead_def)
  ultimately have "\<not> owned a ?v" using assms(5) by (simp add: owned_def)
  then have rel: "release a ?v = Session_dtor a ?v" by (simp add: release_def)
  have step: "srv_step env s (s\<lparr>srv_world := release a ?v\<rparr>)"
    using assms(2-4) co by (intro srv_step.received) (auto simp: read_fits_def)
  have frozen: "\<not> can_run (release a ?v) b"
    unfolding rel using ia assms(9)
    by (intro Session_dtor_freezes [of _ _ "(ses_id ses, ses_ioc ses)" _ "(ses_id other, ses_ioc other)"])
      (simp_all add: id)
  have "b < next_session (release a ?v)"
    using registry_okD(4) [OF inv(3) ia(2)] t by (simp add: touches_def)
  then have "\<not> can_run (srv_world s') b"
    if "(srv_step env)\<^sup>*\<^sup>* (s\<lparr>srv_world := release a ?v\<rparr>) s'" for s'
    using advances_frozen [OF advances_run [OF that]] frozen by simp
  with step show ?thesis by (intro exI [of _ "release a ?v"]) (simp add: rel sessions_Session_dtor)
qed

definition two_sessions :: ftp_world where
  "two_sessions = first_world\<lparr>sessions := [0 \<mapsto> (Session ''u0'' 0)\<lparr>phase := Reading_head\<rparr>, 1 \<mapsto> Session ''u1'' 0],
     session_table := [(''u0'', 0)], accepting := Some 1, next_session := 2\<rparr>"

theorem disconnect_freezes_context_witness:
  "\<exists>w. srv_step (demo_env []) \<lparr>srv_world = two_sessions, acceptor = Waiting\<rparr> \<lparr>srv_world = w, acceptor = Waiting\<rparr> \<and>
    \<not> can_run w 1"
proof -
  let ?s = "\<lparr>srv_world = two_sessions, acceptor = Waiting\<rparr>"
  have "session_ok ns ((Session ''u0'' 0)\<lparr>phase := Reading_head\<rparr>)"
    "session_ok ns (Session ''u1'' 0)" for ns
    by (simp_all add: session_ok_def Session_def head_ok_def RecvNode_def MsgNode_def node_ok_def)
  then have "srv_inv ?s"
    by (auto simp: srv_inv_def two_sessions_def first_world_def empty_world_def world_ok_def queue_live_def
        registry_ok_def ident_def table_ok_def IOServicePool_def Session_def
        pool_ok_def split: if_splits)
  note inv = this
  have "can_run (srv_world ?s) 0"
    by (simp add: can_run_def two_sessions_def first_world_def empty_world_def IOServicePool_def Session_def)
  moreover have "sessions (srv_world ?s) 0 = Some ((Session ''u0'' 0)\<lparr>phase := Reading_head\<rparr>)"
    "sessions (srv_world ?s) 1 = Some (Session ''u1'' 0)" "0 \<notin> fst ` set (msgQueue (srv_world ?s))"
    "accepting (srv_world ?s) \<noteq> Some 0"
    by (simp_all add: two_sessions_def first_world_def empty_world_def)
  moreover have "ses_ioc (Session ''u1'' 0) = ses_ioc ((Session ''u0'' 0)\<lparr>phase := Reading_head\<rparr>)"
    "writing ((Session ''u0'' 0)\<lparr>phase := Reading_head\<rparr>) = None"
    by (simp_all add: Session_def)
  ultimately obtain w where "srv_step (demo_env []) ?s (?s\<lparr>srv_world := w\<rparr>)"
    "\<forall>s'. (srv_step (demo_env []))\<^sup>*\<^sup>* (?s\<lparr>srv_world := w\<rparr>) s' \<longrightarrow> \<not> can_run (srv_world s') 1"
    using disconnect_freezes_context [OF inv, of 0 "(Session ''u0'' 0)\<lparr>phase := Reading_head\<rparr>" 1
        "Session ''u1'' 0" "demo_env []"] by auto
  then have "srv_step (demo_env []) ?s \<lparr>srv_world = w, acceptor = Waiting\<rparr>" "\<not> can_run w 1"
    by auto
  then show ?thesis by blast
qed

end
