(* ===== verification/Std_Numbers.thy ===== *)
theory Std_Numbers
  imports Net_Prelude
begin

text \<open>
  Numbers and their decimal text in the standard library: \<open>std::to_string\<close> and \<open>operator<<\<close> for
  unsigned numbers, as the HTTP server prints its counter, and \<open>std::stoi\<close>, with which the upload
  server reads its port from the configuration. The lemmas relate the two.
\<close>

fun show_nat :: "nat \<Rightarrow> string" where
  "show_nat n = (if n < 10 then [char_of (48 + n)] else show_nat (n div 10) @ [char_of (48 + n mod 10)])"

declare show_nat.simps [simp del]

definition is_digit :: "char \<Rightarrow> bool" where
  "is_digit c = (48 \<le> (of_char c :: nat) \<and> (of_char c :: nat) \<le> 57)"

text \<open>\<open>std::isspace\<close> in the C locale.\<close>

definition is_space :: "char \<Rightarrow> bool" where
  "is_space c = ((of_char c :: nat) = 32 \<or> 9 \<le> (of_char c :: nat) \<and> (of_char c :: nat) \<le> 13)"

definition digits_value :: "string \<Rightarrow> nat" where
  "digits_value ds = foldl (\<lambda>n c. 10 * n + (of_char c - 48)) 0 ds"

text \<open>
  \<open>std::stoi(s)\<close>: white space, an optional sign, and as many digits as follow; what comes behind
  them is ignored. \<open>std::invalid_argument\<close> without a digit, \<open>std::out_of_range\<close> when the number is
  not an \<open>int\<close>.
\<close>

definition stoi :: "string \<Rightarrow> fault + int" where
  "stoi s =
     (let s = dropWhile is_space s;
          negative = (s \<noteq> [] \<and> hd s = CHR ''-'');
          s = (if s \<noteq> [] \<and> hd s \<in> {CHR ''-'', CHR ''+''} then tl s else s);
          ds = takeWhile is_digit s;
          v = (if negative then - int (digits_value ds) else int (digits_value ds))
      in if ds = [] then Inl (Invalid_argument ''stoi'')
         else if v < - (2 ^ 31) \<or> 2 ^ 31 \<le> v then Inl Out_of_range
         else Inr v)"

lemma show_nat_step:
  "n < 10 \<Longrightarrow> show_nat n = [char_of (48 + n)]"
  "10 \<le> n \<Longrightarrow> show_nat n = show_nat (n div 10) @ [char_of (48 + n mod 10)]"
  by (simp_all add: show_nat.simps [of n])

lemma digit_char:
  assumes "d < 10"
  shows "(of_char (char_of (48 + d)) :: nat) = 48 + d" "is_digit (char_of (48 + d))"
  using assms by (simp_all add: is_digit_def)

lemma show_nat_digits:
  "show_nat n \<noteq> [] \<and> (\<forall>c\<in>set (show_nat n). is_digit c) \<and> digits_value (show_nat n) = n"
proof (induction n rule: show_nat.induct)
  case (1 n)
  show ?case
  proof (cases "n < 10")
    case True
    then show ?thesis using digit_char [OF True] by (simp add: show_nat_step digits_value_def)
  next
    case False
    then show ?thesis
      using 1 digit_char [of "n mod 10"] by (simp add: show_nat_step digits_value_def)
  qed
qed

lemma digit_not_space: "is_digit c \<Longrightarrow> \<not> is_space c \<and> c \<noteq> CHR ''-'' \<and> c \<noteq> CHR ''+''"
  by (auto simp: is_digit_def is_space_def)

lemma takeWhile_show_nat:
  assumes "rest = [] \<or> \<not> is_digit (hd rest)"
  shows "takeWhile is_digit (show_nat n @ rest) = show_nat n"
  using assms show_nat_digits [of n] by (cases rest) (simp_all add: takeWhile_append2)

text \<open>Reading back a printed number, with white space in front of it and other text behind.\<close>

lemma stoi_show_nat:
  assumes "\<forall>c\<in>set space. is_space c" and "rest = [] \<or> \<not> is_digit (hd rest)"
  shows "stoi (space @ show_nat n @ rest) = (if n < 2 ^ 31 then Inr (int n) else Inl Out_of_range)"
proof -
  obtain c cs where c: "show_nat n = c # cs" "is_digit c" "digits_value (show_nat n) = n"
    using show_nat_digits [of n] by (cases "show_nat n") auto
  have "dropWhile is_space (space @ show_nat n @ rest) = show_nat n @ rest"
    using assms(1) digit_not_space [OF c(2)] c(1) by (simp add: dropWhile_append2)
  moreover have "takeWhile is_digit (show_nat n @ rest) = show_nat n"
    by (rule takeWhile_show_nat [OF assms(2)])
  moreover have "show_nat n @ rest \<noteq> []" "hd (show_nat n @ rest) = c" "show_nat n \<noteq> []" using c(1) by simp_all
  ultimately show ?thesis
    using digit_not_space [OF c(2)] c(3)
    unfolding stoi_def Let_def by simp
qed

lemma stoi_no_number:
  assumes "\<forall>c\<in>set space. is_space c" and "rest \<noteq> [] \<longrightarrow> hd rest \<notin> {CHR ''-'', CHR ''+''} \<and> \<not> is_digit (hd rest) \<and> \<not> is_space (hd rest)"
  shows "stoi (space @ rest) = Inl (Invalid_argument ''stoi'')"
proof -
  have "dropWhile is_space (space @ rest) = rest"
    using assms by (cases rest) (simp_all add: dropWhile_append2)
  with assms(2) show ?thesis unfolding stoi_def Let_def by (cases rest) (simp_all only: simp_thms list.simps, auto)
qed

text \<open>\<open>stoi\<close> faults with its two exceptions only.\<close>

lemma stoi_faults: "stoi s = Inl e \<Longrightarrow> e = Invalid_argument ''stoi'' \<or> e = Out_of_range"
  by (auto simp: stoi_def Let_def split: if_splits)

end
