(* ===== verification/Async_Log.thy ===== *)
theory Async_Log
  imports Config_Manager
begin

text \<open>
  The asynchronous logger, \<open>src/src/05_ftp/include/AsyncLogSystem.h\<close>: the formatting of a
  message with its \<open>{}\<close> placeholders, the log call, the worker that writes what it pops to the
  console and to the file, construction and destruction. The arguments of a log call are the
  strings their stream output gives, and the current time is a parameter. How the worker waits is
  \<open>Monitor\<close>'s subject (\<open>log_queue\<close>).
\<close>

datatype LogLevel = DEBUG | INFO | WARN | ERROR

fun level_string :: "LogLevel \<Rightarrow> string" where
  "level_string DEBUG = ''DEBUG''"
| "level_string INFO = ''INFO''"
| "level_string WARN = ''WARN''"
| "level_string ERROR = ''ERROR''"

subsection \<open>Formatting\<close>

lemma placeholder_closer:
  "str_find fmt ''{}'' (p + 2) = Some q \<Longrightarrow> length fmt - q < length fmt - p"
  using str_find_SomeD(1,2) [of fmt "''{}''" "p + 2" q] by simp

text \<open>The loop over the placeholders: \<open>argIndex\<close>, \<open>pos\<close>, the placeholder found, the stream.\<close>

function format_loop ::
  "string \<Rightarrow> string list \<Rightarrow> nat \<Rightarrow> nat \<Rightarrow> nat option \<Rightarrow> string \<Rightarrow> fault + (nat \<times> nat \<times> string)" where
  "format_loop fmt argStr argIndex pos None oss = Inr (argIndex, pos, oss)"
| "format_loop fmt argStr argIndex pos (Some placeholder) oss =
     and_then (substr fmt pos (placeholder - pos)) (\<lambda>piece.
     let oss = oss @ piece in
     if argIndex < length argStr
     then format_loop fmt argStr (argIndex + 1) (placeholder + 2)
            (str_find fmt ''{}'' (placeholder + 2)) (oss @ argStr ! argIndex)
     else format_loop fmt argStr argIndex (placeholder + 2)
            (str_find fmt ''{}'' (placeholder + 2)) (oss @ ''{}''))"
  by pat_completeness auto

termination
proof (relation "measure (\<lambda>(fmt, _, _, _, placeholder, _).
    case placeholder of None \<Rightarrow> 0 | Some p \<Rightarrow> Suc (length fmt - p))")
  show "wf (measure (\<lambda>(fmt :: string, _ :: string list, _ :: nat, _ :: nat, placeholder, _ :: string).
    case placeholder of None \<Rightarrow> 0 | Some p \<Rightarrow> Suc (length fmt - p)))" by simp
qed (auto split: option.splits dest: placeholder_closer [simplified])

definition FormatMessage :: "string \<Rightarrow> LogLevel \<Rightarrow> string \<Rightarrow> string list \<Rightarrow> fault + string" where
  "FormatMessage now level fmt argStr =
     (let oss = ''['' @ level_string level @ ''] '' @ now @ '': '' in
      and_then (format_loop fmt argStr 0 0 (str_find fmt ''{}'' 0) oss) (\<lambda>(argIndex, pos, oss).
      and_then (substr fmt pos (length fmt)) (\<lambda>piece.
      Inr (oss @ piece @ concat (drop argIndex argStr)))))"

text \<open>\<open>getCurrentTime\<close>, with the text \<open>strftime\<close> makes of the format: it is written to an array of
  1024 characters only when it fits with its terminator, and the array is read in any case.\<close>

definition getCurrentTime :: "string \<Rightarrow> fault + string" where
  "getCurrentTime text = (if length text < 1024 then Inr text else Inl Uninit_read)"

subsection \<open>The logger\<close>

record log_system =
  log_que :: "string list"
  log_console :: string        \<comment> \<open>what the worker has written\<close>
  log_file :: string
  log_toConsole :: bool
  log_toFile :: bool
  log_isShutDown :: bool
  log_file_open :: bool


definition LogQueue_Push :: "string \<Rightarrow> log_system \<Rightarrow> log_system" where
  "LogQueue_Push msg l = l\<lparr>log_que := log_que l @ [msg]\<rparr>"


text \<open>One turn of the worker on a non-empty queue: \<open>Pop\<close>, then the two outputs.\<close>

definition log_worker :: "log_system \<Rightarrow> log_system" where
  "log_worker l =
     (let msg = hd (log_que l);
          l = l\<lparr>log_que := tl (log_que l)\<rparr>;
          l = (if log_toConsole l then l\<lparr>log_console := log_console l @ msg @ [CHR 10]\<rparr> else l)
      in if log_toFile l then l\<lparr>log_file := log_file l @ msg @ [CHR 10]\<rparr> else l)"



definition log_submit :: "string \<Rightarrow> log_system \<Rightarrow> log_system" where
  "log_submit msg l = (if log_isShutDown l then l else LogQueue_Push msg l)"

interpretation logger: job_queue log_que "\<lambda>l. \<not> log_isShutDown l" log_submit log_worker
  by unfold_locales (auto simp: log_submit_def LogQueue_Push_def log_worker_def Let_def)

subsection \<open>What the formatting does\<close>

text \<open>The placeholders filled from left to right; surplus arguments at the end.\<close>

fun fill :: "string \<Rightarrow> string list \<Rightarrow> string" where
  "fill [] as = concat as"
| "fill [c] as = c # concat as"
| "fill (c # d # s) as =
     (if c = CHR ''{'' \<and> d = CHR ''}'' then
        (case as of [] \<Rightarrow> ''{}'' @ fill s [] | a # as \<Rightarrow> a @ fill s as)
      else c # fill (d # s) as)"

lemma prefix_braces: "prefix ''{}'' (c # d # s) \<longleftrightarrow> c = CHR ''{'' \<and> d = CHR ''}''"
  by (simp, blast)

lemma fill_plain: "(\<forall>k\<le>length s. \<not> prefix ''{}'' (drop k s)) \<Longrightarrow> fill s as = s @ concat as"
proof (induction s "as" rule: fill.induct)
  case (3 c d s "as")
  have "\<not> (c = CHR ''{'' \<and> d = CHR ''}'')"
    using 3(4) [rule_format, of 0] by (simp add: prefix_braces del: Cons_prefix_Cons)
  moreover have "\<not> prefix ''{}'' (drop k (d # s))" if "k \<le> length (d # s)" for k
    using 3(4) [rule_format, of "Suc k"] that by simp
  ultimately show ?case using 3(3) by auto
qed simp_all

lemma fill_step:
  assumes "prefix ''{}'' (drop j s)" and "\<forall>k<j. \<not> prefix ''{}'' (drop k s)"
  shows "fill s as = take j s @
    (case as of [] \<Rightarrow> ''{}'' @ fill (drop (j + 2) s) [] | a # as \<Rightarrow> a @ fill (drop (j + 2) s) as)"
  using assms
proof (induction j arbitrary: s)
  case 0
  then obtain s' where "s = CHR ''{'' # CHR ''}'' # s'" by (auto simp: prefix_def)
  then show ?case by (simp split: list.splits)
next
  case (Suc j)
  from Suc.prems(1) have "length (drop (Suc j) s) \<ge> 2" by (auto dest: prefix_length_le)
  then obtain c d t where s: "s = c # d # t"
    by (cases s; cases "tl s") auto
  have "\<not> (c = CHR ''{'' \<and> d = CHR ''}'')"
    using Suc.prems(2) [rule_format, of 0] s by (simp add: prefix_braces del: Cons_prefix_Cons)
  then have "fill s as = c # fill (d # t) as" using s by auto
  moreover have "\<forall>k<j. \<not> prefix ''{}'' (drop k (d # t))"
  proof (intro allI impI)
    fix k assume "k < j"
    then show "\<not> prefix ''{}'' (drop k (d # t))"
      using Suc.prems(2) [rule_format, of "Suc k"] s by simp
  qed
  then have "fill (d # t) as = take j (d # t) @
      (case as of [] \<Rightarrow> ''{}'' @ fill (drop (j + 2) (d # t)) [] | a # as \<Rightarrow> a @ fill (drop (j + 2) (d # t)) as)"
    using Suc.prems(1) s by (intro Suc.IH) simp_all
  moreover have "take (Suc j) s = c # take j (d # t)" "drop (Suc j + 2) s = drop (j + 2) (d # t)"
    using s by simp_all
  ultimately show ?case by (simp only: append_Cons)
qed

lemma format_loop_fill:
  assumes "pos \<le> length fmt"
  shows "\<exists>i' pos' oss'. format_loop fmt args i pos (str_find fmt ''{}'' pos) oss = Inr (i', pos', oss') \<and>
    pos' \<le> length fmt \<and>
    oss' @ drop pos' fmt @ concat (drop i' args) = oss @ fill (drop pos fmt) (drop i args)"
  using assms
proof (induction "length fmt - pos" arbitrary: pos i oss rule: less_induct)
  case less
  have shorter: "length fmt - (p + 2) < length fmt - pos" if "pos \<le> p" "p + 2 \<le> length fmt" for p
    using that by linarith
  show ?case
  proof (cases "str_find fmt ''{}'' pos")
    case None
    have "\<not> prefix ''{}'' (drop k (drop pos fmt))" if "k \<le> length (drop pos fmt)" for k
      using str_find_NoneD [OF None, of "pos + k"] less.prems that by (simp add: add.commute)
    then have "fill (drop pos fmt) (drop i args) = drop pos fmt @ concat (drop i args)"
      by (intro fill_plain) blast
    with None less.prems show ?thesis by simp
  next
    fix p assume p: "str_find fmt ''{}'' pos = Some p"
    note f = str_find_SomeD [OF p]
    have le: "pos \<le> p" "p + 2 \<le> length fmt" using f(1,2) by simp_all
    have piece: "substr fmt pos (p - pos) = Inr (take (p - pos) (drop pos fmt))"
      using less.prems by (simp add: substr_def)
    have at: "prefix ''{}'' (drop (p - pos) (drop pos fmt))" using f(3) le by simp
    have before: "\<forall>k<p - pos. \<not> prefix ''{}'' (drop k (drop pos fmt))"
      using f(4) by (auto simp: add.commute)
    have rest: "drop (p - pos + 2) (drop pos fmt) = drop (p + 2) fmt" using le by simp
    note fill = fill_step [OF at before, of "drop i args", unfolded rest]
    show ?thesis
    proof (cases "i < length args")
      case True
      then have as: "drop i args = args ! i # drop (i + 1) args" by (simp add: Cons_nth_drop_Suc)
      obtain i' pos' oss' where
        "format_loop fmt args (i + 1) (p + 2) (str_find fmt ''{}'' (p + 2))
          (oss @ take (p - pos) (drop pos fmt) @ args ! i) = Inr (i', pos', oss')"
        "pos' \<le> length fmt"
        "oss' @ drop pos' fmt @ concat (drop i' args) =
          (oss @ take (p - pos) (drop pos fmt) @ args ! i) @ fill (drop (p + 2) fmt) (drop (i + 1) args)"
        using less.hyps [of "p + 2" "i + 1" "oss @ take (p - pos) (drop pos fmt) @ args ! i"] shorter [OF le] le(2) by auto
      with fill as True show ?thesis by (simp add: p piece Let_def)
    next
      case False
      then have as: "drop i args = []" by simp
      obtain i' pos' oss' where
        "format_loop fmt args i (p + 2) (str_find fmt ''{}'' (p + 2))
          (oss @ take (p - pos) (drop pos fmt) @ ''{}'') = Inr (i', pos', oss')"
        "pos' \<le> length fmt"
        "oss' @ drop pos' fmt @ concat (drop i' args) =
          (oss @ take (p - pos) (drop pos fmt) @ ''{}'') @ fill (drop (p + 2) fmt) (drop i args)"
        using less.hyps [of "p + 2" i "oss @ take (p - pos) (drop pos fmt) @ ''{}''"] shorter [OF le] le(2) by auto
      with fill as False show ?thesis by (simp add: p piece Let_def)
    qed
  qed
qed

lemma FormatMessage_fill:
  "FormatMessage now level fmt argStr =
     Inr (''['' @ level_string level @ ''] '' @ now @ '': '' @ fill fmt argStr)"
proof -
  let ?oss = "''['' @ level_string level @ ''] '' @ now @ '': ''"
  obtain i' pos' oss' where
    "format_loop fmt argStr 0 0 (str_find fmt ''{}'' 0) ?oss = Inr (i', pos', oss')" "pos' \<le> length fmt"
    "oss' @ drop pos' fmt @ concat (drop i' argStr) = ?oss @ fill fmt argStr"
    using format_loop_fill [of 0 fmt argStr 0 ?oss] by auto
  then show ?thesis by (simp add: FormatMessage_def Let_def substr_def)
qed





subsection \<open>Properties\<close>

text \<open>
  C28: a message is formatted as its level, the time and its format string with the placeholders
  replaced from left to right by the arguments, a placeholder without an argument kept and surplus
  arguments appended; the search loop never cuts a substring outside the string.
\<close>
theorem FormatMessage_fills:
  "FormatMessage now level fmt argStr =
     Inr (''['' @ level_string level @ ''] '' @ now @ '': '' @ fill fmt argStr)"
  by (rule FormatMessage_fill)



end
