(* ===== verification/Ftp_Main.thy ===== *)
theory Ftp_Main
  imports Ftp_Server_Props Std_Numbers Async_Log
begin

text \<open>
  The upload server's \<open>main\<close>, \<open>src/src/05_ftp/Run_FtpServer.cpp\<close>, from the configuration to the
  destruction of what it built: the port, the server, the run of the acceptor's context, the signal
  handler, the \<open>catch\<close>, and what is destroyed on the way out. The destructors the compiler
  generates are part of the program: the local objects of the \<open>try\<close> block are destroyed in the
  reverse order of their declaration (\<open>signals\<close>, \<open>server\<close>, \<open>ioc\<close>), and the pool, a static object,
  when \<open>main\<close> has returned.
\<close>

subsection \<open>Starting\<close>





subsection \<open>Leaving\<close>

text \<open>The destructor of the server destroys its table: a session that nothing else owns erases
  itself from the table that is being destroyed.\<close>

definition Server_dtor :: "ftp_world \<Rightarrow> fault + ftp_world" where
  "Server_dtor w =
     (let gone = w\<lparr>session_table := []\<rparr>
      in if \<forall>a\<in>snd ` set (session_table w). owned a gone then Inr gone else Inl Reentrant_erase)"

text \<open>The destructor of the acceptor's context destroys the handler of the outstanding accept and
  with it a session; the session's destructor calls \<open>RemoveSession\<close> of the server that is gone.\<close>

definition ioc_dtor :: "ftp_world \<Rightarrow> fault + ftp_world" where
  "ioc_dtor w =
     (case accepting w of None \<Rightarrow> Inr w
      | Some a \<Rightarrow>
          let w = w\<lparr>accepting := None\<rparr>
          in if owned a w then Inr w else Inl Use_after_free)"

definition main_leave :: "ftp_world \<Rightarrow> process_end" where
  "main_leave w =
     (case and_then (Server_dtor w) ioc_dtor of
        Inl e \<Rightarrow> Misbehaves e | Inr w \<Rightarrow> pool_exit (pool w))"

text \<open>A signal: the handler stops the context and the pool, \<open>run\<close> returns.\<close>

definition main_signalled :: "ftp_world \<Rightarrow> process_end" where
  "main_signalled w =
     (case on_signal w of
        Inl e \<Rightarrow> Misbehaves e | Inr None \<Rightarrow> Hangs | Inr (Some w) \<Rightarrow> main_leave w)"



subsection \<open>The pool while the server runs\<close>

definition pool_running :: "io_pool \<Rightarrow> bool" where
  "pool_running p = (pool_ok p \<and> ioServices p \<noteq> [] \<and>
     set (works p) \<subseteq> {True} \<and> set (pool_threads p) \<subseteq> {True})"

lemma pool_running_new: "0 < n \<Longrightarrow> pool_running (IOServicePool n)"
  using pool_ok_new [of n] by (simp add: pool_running_def IOServicePool_def)

lemma pool_running_GetIOService: "GetIOService p = Inr (i, p') \<Longrightarrow> pool_running p \<Longrightarrow> pool_running p'"
  using pool_ok_GetIOService [of p i p'] by (auto simp: pool_running_def GetIOService_def split: if_splits)

lemma pool_running_stop_service: "pool_running p \<Longrightarrow> pool_running (stop_service i p)"
  using pool_ok_stop_service [of p i] by (auto simp: pool_running_def stop_service_def)

lemma pool_running_release: "pool_running (pool w) \<Longrightarrow> pool_running (pool (release a w))"
  using pool_Session_dtor [of a w] by (auto simp: release_def intro: pool_running_stop_service)

lemma pool_running_step:
  assumes "srv_step env s s'" and "pool_running (pool (srv_world s))"
  shows "pool_running (pool (srv_world s'))"
proof -
  have "pool_running (pool (srv_world s)) \<longrightarrow> pool_running (pool (srv_world s'))"
    by (rule srv_step_parts [OF assms(1), of "\<lambda>w w'. pool_running (pool w) \<longrightarrow> pool_running (pool w')"])
      (auto simp: touches_def pool_running_release dest!: StartAccept_Inr intro: pool_running_GetIOService)
  with assms(2) show ?thesis by blast
qed

text \<open>Stopping a running pool: every context is stopped and every thread joined.\<close>

lemma ftp_pool_Stop_running:
  assumes "pool_running p"
  shows "\<exists>p'. ftp_pool_Stop outstanding p = Inr (Some p') \<and> set (ioServices p') \<subseteq> {True} \<and>
    length (ioServices p') = length (ioServices p) \<and> set (pool_threads p') \<subseteq> {False}"
proof -
  let ?n = "length (ioServices p)"
  have len: "length (works p) = ?n" "length (pool_threads p) = ?n"
    using assms by (simp_all add: pool_running_def pool_ok_def)
  let ?p = "p\<lparr>ioServices := replicate ?n True, works := replicate ?n False\<rparr>"
  have all: "fold (\<lambda>i xs. xs[i := c]) [0..<?n] xs = replicate ?n c" if "length xs = ?n" for c and xs :: "bool list"
    using fold_update_all [of ?n xs c] that by simp
  have "works p ! i" if "i < ?n" for i
    using assms that len(1) nth_mem [of i "works p"] unfolding pool_running_def
    by (metis empty_iff insert_iff subsetD)
  then have "stop_works True [0..<?n] p = Inr ?p"
    using stop_works_returns [of "[0..<?n]" p True] len all by simp
  moreover have "join_threads outstanding [0..<?n] ?p = Some (?p\<lparr>pool_threads := replicate ?n False\<rparr>)"
    using join_threads_returns [of "[0..<?n]" ?p outstanding] len all by (simp add: run_returns_def)
  ultimately show ?thesis
    using len by (auto simp: ftp_pool_Stop_def IOServicePool_Stop_def)
qed

subsection \<open>The outstanding accept\<close>

text \<open>While the acceptor waits, the session it will accept is owned by nothing but the accept.\<close>

definition unserved :: "addr \<Rightarrow> ftp_world \<Rightarrow> bool" where
  "unserved a w =
     ((case sessions w a of None \<Rightarrow> False | Some ses \<Rightarrow> phase ses = Not_started \<and> writing ses = None) \<and>
      a \<notin> fst ` set (msgQueue w) \<and> a \<notin> snd ` set (session_table w))"

lemma unserved_owned: "unserved a w \<Longrightarrow> owned a w \<longleftrightarrow> accepting w = Some a"
  by (auto simp: unserved_def owned_def split: option.splits)

lemma unserved_touches:
  assumes "touches b w w'" and "b \<noteq> a" and "unserved a w"
  shows "unserved a w'"
proof -
  have "sessions w' a = sessions w a" "set (msgQueue w') \<subseteq> set (msgQueue w) \<union> {b} \<times> UNIV"
    "set (session_table w') \<subseteq> set (session_table w)"
    using assms(1,2) by (auto simp: touches_def set_RemoveSession)
  then show ?thesis using assms(2,3) unfolding unserved_def by auto
qed

lemma unserved_pop: "unserved a w \<Longrightarrow> unserved a (pop_msg w)"
  by (auto simp: unserved_def pop_msg_def dest: in_set_tl)

lemma unserved_release:
  assumes "unserved a w" and "b \<noteq> a \<or> owned b w"
  shows "unserved a (release b w)"
proof (cases "owned b w")
  case False
  then have "b \<noteq> a" using assms(2) by simp
  with assms(1) have "unserved a (Session_dtor b w)"
    using release_frame(1) [of b w] False
    by (auto simp: unserved_def release_def sessions_Session_dtor table_Session_dtor set_RemoveSession
        split: option.splits)
  with False show ?thesis by (simp add: release_def)
qed (use assms in \<open>simp add: release_def\<close>)

lemma unserved_StartAccept:
  assumes "StartAccept uuid w = Inr w'" and "registry_ok w" and "queue_live w"
  shows "unserved (next_session w) w' \<and> accepting w' = Some (next_session w)"
proof -
  have gone: "sessions w (next_session w) = None"
    using registry_okD(4) [OF assms(2), of "next_session w"]
    by (cases "sessions w (next_session w)") (auto simp: ident_def)
  then have "next_session w \<notin> snd ` set (session_table w)"
    using registry_okD(2) [OF assms(2)] by (fastforce simp: ident_def)
  moreover have "next_session w \<notin> fst ` set (msgQueue w)"
    using assms(3) gone by (auto simp: queue_live_def)
  ultimately show ?thesis
    using StartAccept_Inr [OF assms(1)] by (auto simp: unserved_def Session_def)
qed

definition accept_inv :: "server_state \<Rightarrow> bool" where
  "accept_inv s = (acceptor s \<in> {Waiting, Refused} \<longrightarrow>
     (\<forall>a. accepting (srv_world s) = Some a \<longrightarrow> unserved a (srv_world s)))"

lemma accept_inv_own_step:
  assumes "touches b w w'" and "accept_inv s" and "srv_world s = w"
    and "\<And>a. unserved a w \<Longrightarrow> b \<noteq> a"
  shows "accept_inv (s\<lparr>srv_world := release b w'\<rparr>)"
proof -
  have acc: "accepting w' = accepting w" using assms(1) by (simp add: touches_def)
  show ?thesis
    unfolding accept_inv_def
    using assms(2,3,4) acc unserved_touches [OF assms(1)] unserved_release [of _ w' b]
    by (auto simp: accept_inv_def)
qed

lemma accept_inv_step:
  assumes "srv_step env s s'" and "srv_inv s" and "accept_inv s"
  shows "accept_inv s'"
  using assms(1)
proof (cases rule: srv_step.cases)
  case (next_accept a uuid w)
  note inv = srv_invD [OF assms(2)]
  obtain v where v: "StartAccept uuid (srv_world s) = Inr v" "w = release a v"
    using next_accept by (auto simp: accept_next_def fault_iffs)
  have "a \<noteq> next_session (srv_world s)"
    using next_accept(3) inv(5) registry_okD(4) [OF inv(3), of a] by (fastforce simp: ident_def)
  then have "unserved (next_session (srv_world s)) w" "accepting w = Some (next_session (srv_world s))"
    using unserved_StartAccept [OF v(1) inv(3,2)] v(2) by (auto intro: unserved_release)
  then show ?thesis using next_accept by (simp add: accept_inv_def)
next
  case (received a ses r w)
  have "a \<noteq> b" if "unserved b (srv_world s)" for b
    using that received by (auto simp: unserved_def)
  with accept_inv_own_step [OF touches_co_step [OF received(6)] assms(3)] received(1) show ?thesis by blast
next
  case (written a ses ec w)
  have "a \<noteq> b" if "unserved b (srv_world s)" for b
    using that written by (auto simp: unserved_def)
  with accept_inv_own_step [OF touches_HandlerWrite [OF written(5)] assms(3)] written(1) show ?thesis by blast
next
  case (served w)
  then obtain a m q v where v: "msgQueue (srv_world s) = (a, m) # q"
      "dispatch env a m (pop_msg (srv_world s)) = Inr v" "w = release a v"
    using doWork_dispatch by blast
  have "a \<noteq> b" if "unserved b (srv_world s)" for b using that v(1) by (auto simp: unserved_def)
  moreover have "touches a (srv_world s) v"
  proof (rule touches_trans [OF touches_frame touches_dispatch [OF v(2)]])
    show "set (msgQueue (pop_msg (srv_world s))) \<subseteq> set (msgQueue (srv_world s)) \<union> {a} \<times> UNIV"
      by (auto simp: pop_msg_def dest: in_set_tl)
  qed simp_all
  ultimately show ?thesis using accept_inv_own_step [OF _ assms(3)] served(1) v(3) by blast
qed (use assms(3) in \<open>auto simp: accept_inv_def\<close>)

subsection \<open>What holds until the process ends\<close>

definition main_inv :: "server_state \<Rightarrow> bool" where
  "main_inv s = (srv_inv s \<and> accept_inv s \<and> pool_running (pool (srv_world s)))"

lemma main_inv_start:
  assumes "Server uuid (IOServicePool n) = Inr w"
  shows "main_inv \<lparr>srv_world = w, acceptor = Waiting\<rparr>"
proof -
  let ?e = "empty_world (IOServicePool n)"
  have start: "StartAccept uuid ?e = Inr w" using assms by (simp add: Server_def)
  obtain ioc p where p: "GetIOService (IOServicePool n) = Inr (ioc, p)" "pool w = p"
    using StartAccept_Inr [OF start] by (auto simp: empty_world_def)
  then have "0 < n" by (auto simp: GetIOService_def IOServicePool_def split: if_splits)
  then have "pool_running (pool w)" using pool_running_GetIOService [OF p(1) pool_running_new] p(2) by simp
  moreover have "registry_ok ?e" "queue_live ?e"
    by (simp_all add: empty_world_def queue_live_def registry_ok_def ident_def table_ok_def)
  then have "accept_inv \<lparr>srv_world = w, acceptor = Waiting\<rparr>"
    using unserved_StartAccept [OF start] by (simp add: accept_inv_def)
  ultimately show ?thesis using srv_inv_start [OF assms] by (simp add: main_inv_def)
qed

lemma main_inv_step: "srv_step env s s' \<Longrightarrow> json_throws (env_json env) \<Longrightarrow> main_inv s \<Longrightarrow> main_inv s'"
  unfolding main_inv_def using srv_inv_step accept_inv_step pool_running_step by blast


lemma main_inv_reach: "srv_reach env s \<Longrightarrow> json_throws (env_json env) \<Longrightarrow> main_inv s"
  by (induction rule: srv_reach.induct) (auto intro: main_inv_start main_inv_step)

lemma main_invD:
  assumes "main_inv s" and "acceptor s = Waiting"
  shows "pool_running (pool (srv_world s))"
    and "\<exists>a. accepting (srv_world s) = Some a \<and> unserved a (srv_world s)"
  using assms srv_invD(5) [of s] by (auto simp: main_inv_def accept_inv_def)

lemma on_signal_running:
  assumes "pool_running (pool w)"
  shows "\<exists>p. on_signal w = Inr (Some (w\<lparr>pool := p\<rparr>)) \<and> True \<notin> set (pool_threads p) \<and>
    (\<forall>a. \<not> can_run (w\<lparr>pool := p\<rparr>) a)"
proof -
  obtain p where p: "ftp_pool_Stop (\<lambda>_. True) (pool w) = Inr (Some p)" "set (ioServices p) \<subseteq> {True}"
      "set (pool_threads p) \<subseteq> {False}"
    using ftp_pool_Stop_running [OF assms] by blast
  have "\<not> can_run (w\<lparr>pool := p\<rparr>) a" for a
    using p(2) by (auto simp: can_run_def split: option.splits dest!: nth_mem)
  with p show ?thesis by (intro exI [of _ p]) (auto simp: on_signal_def)
qed

text \<open>A session only the table owns, as the one left behind by a client that was gone too early.\<close>

definition table_only :: "ftp_world \<Rightarrow> bool" where
  "table_only w = (\<exists>a\<in>snd ` set (session_table w). \<not> owned a (w\<lparr>session_table := []\<rparr>))"

lemma table_only_pool [simp]: "table_only (w\<lparr>pool := p\<rparr>) = table_only w"
  by (simp add: table_only_def owned_def)

lemma Server_dtor_outcome:
  "Server_dtor w = (if table_only w then Inl Reentrant_erase else Inr (w\<lparr>session_table := []\<rparr>))"
  by (auto simp: Server_dtor_def table_only_def Let_def)

lemma main_leave_accepting:
  assumes "accepting w = Some a" and "unserved a w"
  shows "main_leave w = Misbehaves (if table_only w then Reentrant_erase else Use_after_free)"
proof -
  have "\<not> owned a (w\<lparr>session_table := [], accepting := None\<rparr>)"
    using assms(2) by (auto simp: unserved_def owned_def split: option.splits)
  with assms(1) show ?thesis by (simp add: main_leave_def Server_dtor_outcome ioc_dtor_def)
qed






subsection \<open>Properties\<close>

text \<open>
  C6: a signal stops the upload server, but never cleanly. In every reachable state the handler
  returns with every context stopped, every thread of the pool joined and no session able to make
  a step; and what \<open>main\<close> destroys then is always undefined behaviour: either a session that only
  the table owned erases itself from the table while it is destroyed, or the session of the
  outstanding accept, destroyed with \<open>ioc\<close>, calls the server that was destroyed before it.
\<close>
theorem signal_stops:
  assumes "srv_reach env s" and "json_throws (env_json env)" and "acceptor s = Waiting"
  shows "\<exists>w. on_signal (srv_world s) = Inr (Some w) \<and> True \<notin> set (pool_threads (pool w)) \<and>
    (\<forall>a. \<not> can_run w a) \<and>
    main_signalled (srv_world s) =
      Misbehaves (if table_only (srv_world s) then Reentrant_erase else Use_after_free)"
proof -
  note inv = main_inv_reach [OF assms(1,2)]
  obtain a where a: "accepting (srv_world s) = Some a" "unserved a (srv_world s)"
    using main_invD(2) [OF inv assms(3)] by blast
  obtain p where p: "on_signal (srv_world s) = Inr (Some ((srv_world s)\<lparr>pool := p\<rparr>))"
      "True \<notin> set (pool_threads p)" "\<forall>a. \<not> can_run ((srv_world s)\<lparr>pool := p\<rparr>) a"
    using on_signal_running [OF main_invD(1) [OF inv assms(3)]] by blast
  have "unserved a ((srv_world s)\<lparr>pool := p\<rparr>)" using a(2) by (simp add: unserved_def)
  with main_leave_accepting [of "(srv_world s)\<lparr>pool := p\<rparr>" a] a(1) p show ?thesis
    by (simp add: main_signalled_def)
qed

theorem signal_stops_witness:
  "\<exists>w. on_signal first_world = Inr (Some w) \<and> \<not> can_run w 0 \<and> main_signalled first_world = Misbehaves Use_after_free"
proof -
  have "\<not> table_only first_world" by (simp add: table_only_def first_world_def empty_world_def)
  then show ?thesis
    using signal_stops [OF first_reach, of "demo_env []"] demo_json_throws by (auto simp: demo_env_def)
qed






end
