(* ===== verification/Ftp_Reader.thy ===== *)
theory Ftp_Reader
  imports Ftp_Session_Props
begin

text \<open>
  What the reading loop of a session (\<open>Session.cpp\<close>, \<open>co_handler\<close> with \<open>PraseHead\<close> and \<open>PraseMsg\<close>)
  makes of a whole stream of bytes: an abstract receiver, \<open>receive\<close>, a function of the bytes alone,
  and the proof that the coroutine, run on any stream, refines it. The receiver knows nothing of
  nodes, addresses and phases: it keeps the messages it has built, which of them were posted in which
  order, and whether the session was taken off the server's table. It shows the flaws of the loop for
  what they are: a message of length 0 hangs up, a length that is refused leaves the receiver reading
  into the message before, and into nothing when there is none.
\<close>

subsection \<open>The abstract receiver\<close>

record inbox =
  cells :: "(u16 \<times> bytes) list"   \<comment> \<open>the messages built, in order\<close>
  posts :: "nat list"             \<comment> \<open>the cells posted to the logic system, in order\<close>
  unlisted :: bool                \<comment> \<open>the session was erased from the server's table\<close>

datatype verdict = Wants_head | Wants_body | Hung_up | Crashed

definition post :: "nat \<Rightarrow> nat \<Rightarrow> inbox \<Rightarrow> inbox" where
  "post cap k ib = (if length (posts ib) < cap then ib\<lparr>posts := posts ib @ [k]\<rparr> else ib)"

definition post_new :: "nat \<Rightarrow> u16 \<times> bytes \<Rightarrow> inbox \<Rightarrow> inbox" where
  "post_new cap m ib = post cap (length (cells ib)) (ib\<lparr>cells := cells ib @ [m]\<rparr>)"

definition post_over :: "nat \<Rightarrow> bytes \<Rightarrow> inbox \<Rightarrow> inbox" where
  "post_over cap body ib =
     (let k = length (cells ib) - 1
      in post cap k (ib\<lparr>cells := (cells ib)[k := (fst (cells ib ! k), body)]\<rparr>))"

function receive :: "nat \<Rightarrow> bytes \<Rightarrow> inbox \<Rightarrow> inbox \<times> verdict" where
  "receive cap bs ib =
     (if length bs < 6 then (ib, Wants_head)
      else
        let i = short_of (rev (take 2 bs));
            len = uint_of (rev (take 4 (drop 2 bs)));
            rest = drop 6 bs in
        if len \<le> MAX_LEN then
          if len = 0 then (ib\<lparr>unlisted := True\<rparr>, Hung_up)
          else if length rest < unat len then (ib, Wants_body)
          else receive cap (drop (unat len) rest) (post_new cap (i, take (unat len) rest) ib)
        else if cells ib = [] then (ib, Crashed)
        else
          let n = length (snd (last (cells ib)));
              ib = ib\<lparr>unlisted := True\<rparr> in
          if length rest < n then (ib, Wants_body)
          else receive cap (drop n rest) (post_over cap (take n rest) ib))"
  by pat_completeness auto
termination
  by (relation "measure (\<lambda>(_, bs, _). length bs)") auto

declare receive.simps [simp del]

subsection \<open>The relation\<close>

text \<open>Cell \<open>k\<close> is the node at \<open>b + k\<close>; \<open>q\<close> and \<open>tab\<close> are the queue and the table the session found.\<close>

definition holds_inbox ::
  "addr \<Rightarrow> (addr \<times> addr) list \<Rightarrow> session_table \<Rightarrow> addr \<Rightarrow> string \<Rightarrow> ftp_world \<Rightarrow> inbox \<Rightarrow> bool" where
  "holds_inbox b q tab a sid w ib =
     ((\<forall>k<length (cells ib). holds_msg w a (cells ib ! k) (a, b + k)) \<and>
      (\<forall>(i, body)\<in>set (cells ib). body \<noteq> [] \<and> length body \<le> 2147483647) \<and>
      msgQueue w = q @ map (\<lambda>k. (a, b + k)) (posts ib) \<and>
      session_table w = (if unlisted ib then RemoveSession sid tab else tab))"

definition in_phase :: "addr \<Rightarrow> string \<Rightarrow> co_phase \<Rightarrow> ftp_world \<Rightarrow> bool" where
  "in_phase a sid ph w = (\<exists>s. sessions w a = Some s \<and> ses_id s = sid \<and> phase s = ph)"

definition at_head :: "addr \<Rightarrow> addr \<Rightarrow> string \<Rightarrow> ftp_world \<Rightarrow> inbox \<Rightarrow> bool" where
  "at_head b a sid w ib =
     (next_node w = b + length (cells ib) \<and>
      (\<exists>s. sessions w a = Some s \<and> ses_id s = sid \<and> phase s = Reading_head \<and> head_ok s \<and>
         recvMsg s = (if cells ib = [] then None else Some (b + length (cells ib) - 1))))"

fun phase_of :: "verdict \<Rightarrow> co_phase" where
  "phase_of Wants_head = Reading_head"
| "phase_of Wants_body = Reading_body"
| "phase_of Hung_up = Finished"
| "phase_of Crashed = Finished"

subsection \<open>Heads\<close>

lemma take_six:
  assumes "6 \<le> length bs"
  shows "take 6 bs = be16 (short_of (rev (take 2 bs))) @ be32 (uint_of (rev (take 4 (drop 2 bs))))"
proof -
  have "take (2 + 4) bs = take 2 bs @ take 4 (drop 2 bs)" by (rule take_add)
  with assms show ?thesis by (simp add: be16_of be32_of)
qed

lemma announced_be:
  assumes "network_order net"
  shows "announced net (be16 i @ be32 len) = len"
  using network_orderD(4) [OF assms, of len] by (simp add: announced_def)

text \<open>\<open>co_step_head\<close>, with the head given by its two fields.\<close>

lemma head_accepted:
  assumes "network_order net" and "sessions w a = Some s" "phase s = Reading_head" "head_ok s"
    and "len \<le> MAX_LEN"
  shows "\<exists>h. co_step net a (Read_bytes (be16 i @ be32 len)) w =
      Inr (upd_session a (\<lambda>s. s\<lparr>recvHead := h, recvMsg := Some (next_node w), phase := Reading_body\<rparr>)
        (w\<lparr>nodes := (nodes w)(next_node w \<mapsto> RecvNode len i), next_node := next_node w + 1\<rparr>)) \<and>
    node_ok h \<and> totalLen h = 6"
proof -
  let ?msg = "replicate (unat len) (0 :: byte)"
  have len: "of_nat (length ?msg) = len" by simp
  have "take 6 (frame i ?msg) = be16 i @ be32 len" by (simp add: frame_def)
  with co_step_head [OF assms(1-4), of ?msg i] assms(5) len show ?thesis by simp
qed

lemma read_size_head [simp]:
  "sessions w a = Some s \<Longrightarrow> phase s = Reading_head \<Longrightarrow> read_size a w = 6"
  by (simp add: read_size_def)

lemma read_size_body:
  "sessions w a = Some s \<Longrightarrow> phase s = Reading_body \<Longrightarrow> recvMsg s = Some m \<Longrightarrow> nodes w m = Some n \<Longrightarrow>
     read_size a w = unat (totalLen n)"
  by (simp add: read_size_def recv_node_def)

lemma feed_finished:
  assumes "sessions w a = Some s" and "phase s = Finished"
  shows "feed net a k bs w = Inr (bs, w)"
  using assms by (induction k) (simp_all add: read_size_def co_step_def Let_def)

lemma unat_of_nat_length: "length (msg :: bytes) \<le> 2147483647 \<Longrightarrow> unat (of_nat (length msg) :: u32) = length msg"
  using unat_of_nat [where 'a = 32, of "length msg"] by simp

lemma RemoveSession_idem: "RemoveSession sid (RemoveSession sid tab) = RemoveSession sid tab"
  by (simp add: RemoveSession_def delete_idem)

text \<open>A head that is refused.\<close>

lemma head_refused:
  assumes net: "network_order net" and s: "sessions w a = Some s" "phase s = Reading_head" "head_ok s"
    and len: "MAX_LEN < len"
  shows "if recvMsg s = None then co_step net a (Read_bytes (be16 i @ be32 len)) w = Inl Null_deref
    else nodes w (the (recvMsg s)) \<noteq> None \<longrightarrow>
      (\<exists>h. node_ok h \<and> totalLen h = 6 \<and> co_step net a (Read_bytes (be16 i @ be32 len)) w =
         Inr (upd_session a (\<lambda>s. s\<lparr>phase := Reading_body\<rparr>) (remove_from_server a
               (upd_session a (\<lambda>s. s\<lparr>recvHead := h\<rparr>) w))))"
proof -
  let ?hdr = "be16 i @ be32 len"
  have l: "length ?hdr = 6" and ne: "?hdr \<noteq> []" by (simp_all add: be16_def)
  obtain h rest where h: "fill_head a ?hdr w = Inr (upd_session a (\<lambda>s. s\<lparr>recvHead := h\<rparr>) w)"
    "node_ok h" "totalLen h = 6" "node_data h = map Some ?hdr @ rest"
    using fill_head_frame [OF s(1,3) l] by blast
  obtain j where "head_id net h = Inr j" using head_node_fields(1) [OF h(4) l, of net] by blast
  moreover have "head_len net h = Inr len"
    using head_node_fields(2) [OF h(4) l, of net] announced_be [OF net] by simp
  ultimately have j: "head_id net h = Inr j" "head_len net h = Inr len" by simp_all
  let ?w = "upd_session a (\<lambda>s. s\<lparr>recvHead := h\<rparr>) w"
  let ?w1 = "remove_from_server a (upd_session a (\<lambda>s. s\<lparr>recvHead := node_Clear h\<rparr>) w)"
  have p: "PraseHead net a ?w = Inr ?w1"
    using s j len by (simp add: PraseHead_def ClearHead_def)
  show ?thesis
  proof (cases "recvMsg s")
    case None
    then have "read_body a ?w1 = Inl Null_deref"
      using s by (simp add: read_body_def recv_node_def)
    with None h(1) p ne s show ?thesis by (simp add: co_step_def)
  next
    case (Some m)
    have "node_ok (node_Clear h) \<and> totalLen (node_Clear h) = 6"
      using h(2,3) by (simp add: node_Clear_def node_ok_def)
    moreover have "nodes w m = Some n \<Longrightarrow>
        read_body a ?w1 = Inr (upd_session a (\<lambda>s. s\<lparr>phase := Reading_body\<rparr>) ?w1)" for n
      using s Some by (simp add: read_body_def recv_node_def)
    ultimately show ?thesis
      using Some h(1) p ne s by (auto simp: co_step_def intro!: exI [of _ "node_Clear h"])
  qed
qed

text \<open>A body that is complete: what the step leaves.\<close>

lemma body_done:
  assumes "sessions w a = Some s" "phase s = Reading_body" "recvMsg s = Some m" "nodes w m = Some n"
    and "node_ok n" "length body = unat (totalLen n)" "body \<noteq> []"
  shows "\<exists>w'. co_step net a (Read_bytes body) w = Inr w' \<and>
    nodes w' = (nodes w)(m \<mapsto> n\<lparr>node_data := map Some (body @ [0])\<rparr>) \<and> next_node w' = next_node w \<and>
    session_table w' = session_table w \<and> sessions w' a = Some (s\<lparr>phase := Reading_head\<rparr>) \<and>
    msgQueue w' = (if length (msgQueue w) < MAX_RECV_QUEUE_LEN then msgQueue w @ [(a, m)] else msgQueue w)"
  using co_step_body [OF assms] assms(1) by (simp add: read_head_def msgQueue_Post)

lemma posts_queue:
  assumes "msgQueue w = q @ map (\<lambda>k. (a, b + k)) (posts ib)" and "cap = MAX_RECV_QUEUE_LEN - length q"
  shows "(if length (msgQueue w) < MAX_RECV_QUEUE_LEN then msgQueue w @ [(a, b + k)] else msgQueue w) =
    q @ map (\<lambda>k. (a, b + k)) (posts (post cap k ib))"
  using assms by (auto simp: post_def)

lemma post_cells [simp]: "cells (post cap k ib) = cells ib" "unlisted (post cap k ib) = unlisted ib"
  by (simp_all add: post_def)

subsection \<open>One message\<close>

text \<open>A head that is accepted, and the state in which its body is read.\<close>

lemma reads_head:
  assumes net: "network_order net" and A: "at_head b a sid w ib" and H: "holds_inbox b q tab a sid w ib"
    and len: "len \<le> MAX_LEN"
  shows "\<exists>w1 s1. co_step net a (Read_bytes (be16 i @ be32 len)) w = Inr w1 \<and> holds_inbox b q tab a sid w1 ib \<and>
    sessions w1 a = Some s1 \<and> ses_id s1 = sid \<and> phase s1 = Reading_body \<and> head_ok s1 \<and>
    recvMsg s1 = Some (b + length (cells ib)) \<and> nodes w1 (b + length (cells ib)) = Some (RecvNode len i) \<and>
    next_node w1 = b + length (cells ib) + 1"
proof -
  obtain s where s: "sessions w a = Some s" "ses_id s = sid" "phase s = Reading_head" "head_ok s"
    and nx: "next_node w = b + length (cells ib)"
    using A by (auto simp: at_head_def)
  obtain h where "co_step net a (Read_bytes (be16 i @ be32 len)) w =
      Inr (upd_session a (\<lambda>s. s\<lparr>recvHead := h, recvMsg := Some (next_node w), phase := Reading_body\<rparr>)
        (w\<lparr>nodes := (nodes w)(next_node w \<mapsto> RecvNode len i), next_node := next_node w + 1\<rparr>))"
    and "node_ok h" "totalLen h = 6"
    using head_accepted [OF net s(1,3,4) len] by blast
  moreover have "holds_msg (w\<lparr>nodes := (nodes w)(next_node w \<mapsto> n), next_node := l\<rparr>) a m (a, b + k)"
    if "k < length (cells ib)" "holds_msg w a m (a, b + k)" for n l m k
    using that nx by (simp add: holds_msg_def)
  ultimately show ?thesis
    using s nx H by (simp add: holds_inbox_def holds_msg_def head_ok_def)
qed

lemma reads_new:
  assumes net: "network_order net" and A: "at_head b a sid w ib" and H: "holds_inbox b q tab a sid w ib"
    and len: "len \<le> MAX_LEN" "length body = unat len" "body \<noteq> []" and cap: "cap = MAX_RECV_QUEUE_LEN - length q"
  shows "\<exists>w'. feed net a (Suc (Suc k)) ((be16 i @ be32 len) @ body @ rest) w = feed net a k rest w' \<and>
    at_head b a sid w' (post_new cap (i, body) ib) \<and> holds_inbox b q tab a sid w' (post_new cap (i, body) ib)"
proof -
  let ?m = "b + length (cells ib)"
  obtain w1 s1 where w1: "co_step net a (Read_bytes (be16 i @ be32 len)) w = Inr w1"
    "holds_inbox b q tab a sid w1 ib" "next_node w1 = ?m + 1"
    and s1: "sessions w1 a = Some s1" "phase s1 = Reading_body" "recvMsg s1 = Some ?m"
      "nodes w1 ?m = Some (RecvNode len i)" "ses_id s1 = sid" "head_ok s1"
    using reads_head [OF net A H len(1), of i] by blast
  have n: "node_ok (RecvNode len i)" "length body = unat (totalLen (RecvNode len i))" "totalLen (RecvNode len i) = len"
    using node_ok_RecvNode [OF len(1)] len(2) by (simp_all add: RecvNode_def MsgNode_def)
  obtain w2 where w2: "co_step net a (Read_bytes body) w1 = Inr w2"
    "nodes w2 = (nodes w1)(?m \<mapsto> (RecvNode len i)\<lparr>node_data := map Some (body @ [0])\<rparr>)"
    "next_node w2 = next_node w1" "session_table w2 = session_table w1"
    "sessions w2 a = Some (s1\<lparr>phase := Reading_head\<rparr>)"
    "msgQueue w2 = (if length (msgQueue w1) < MAX_RECV_QUEUE_LEN then msgQueue w1 @ [(a, ?m)] else msgQueue w1)"
    using body_done [OF s1(1-4) n(1,2) len(3)] by blast
  have bound: "length body \<le> 2147483647"
    using len(1,2) by (simp add: MAX_LEN_def word_le_nat_alt)
  let ?ib = "ib\<lparr>cells := cells ib @ [(i, body)]\<rparr>"
  have old: "holds_msg w2 a (cells ib ! k) (a, b + k)" if "k < length (cells ib)" for k
    using w1(2) w2(2) that by (simp add: holds_inbox_def holds_msg_def)
  have new: "holds_msg w2 a (i, body) (a, ?m)"
    using w2(2) len(2) by (simp add: holds_msg_def RecvNode_def MsgNode_def)
  have "msgQueue w2 = q @ map (\<lambda>k. (a, b + k)) (posts (post cap (length (cells ib)) ?ib))"
    using posts_queue [of w1 q a b ?ib cap "length (cells ib)"] w1(2) w2(6) cap by (simp add: holds_inbox_def)
  then have "holds_inbox b q tab a sid w2 (post_new cap (i, body) ib)"
    using w1(2) w2(4) old new len(3) bound
    by (auto simp: holds_inbox_def post_new_def nth_append less_Suc_eq)
  moreover have "at_head b a sid w2 (post_new cap (i, body) ib)"
    using w1(3) w2(3,5) s1 by (simp add: at_head_def post_new_def head_ok_def)
  moreover have "feed net a (Suc (Suc k)) ((be16 i @ be32 len) @ body @ rest) w = feed net a k rest w2"
  proof -
    obtain s where "sessions w a = Some s" "phase s = Reading_head" using A by (auto simp: at_head_def)
    then have "read_size a w = 6" by simp
    moreover have "read_size a w1 = length body" using read_size_body [OF s1(1-4)] n(2) by simp
    ultimately show ?thesis using w1(1) w2(1) by (simp add: Let_def)
  qed
  ultimately show ?thesis by blast
qed

text \<open>A head that is refused after a first message: the next body goes into the last cell.\<close>

lemma reads_refused:
  assumes net: "network_order net" and A: "at_head b a sid w ib" and H: "holds_inbox b q tab a sid w ib"
    and ne: "cells ib \<noteq> []" and len: "MAX_LEN < len"
  shows "\<exists>w1 s1 n. co_step net a (Read_bytes (be16 i @ be32 len)) w = Inr w1 \<and>
    holds_inbox b q tab a sid w1 (ib\<lparr>unlisted := True\<rparr>) \<and>
    sessions w1 a = Some s1 \<and> ses_id s1 = sid \<and> phase s1 = Reading_body \<and> head_ok s1 \<and>
    recvMsg s1 = Some (b + length (cells ib) - 1) \<and> nodes w1 (b + length (cells ib) - 1) = Some n \<and>
    msgId n = fst (last (cells ib)) \<and> node_ok n \<and> unat (totalLen n) = length (snd (last (cells ib))) \<and>
    next_node w1 = b + length (cells ib)"
proof -
  obtain s where s: "sessions w a = Some s" "ses_id s = sid" "phase s = Reading_head" "head_ok s"
      "recvMsg s = Some (b + length (cells ib) - 1)"
    and nx: "next_node w = b + length (cells ib)"
    using A ne by (auto simp: at_head_def)
  obtain i' body' where last: "last (cells ib) = (i', body')" by force
  have lm: "length (cells ib) - 1 < length (cells ib)" using ne by (cases "cells ib") simp_all
  have "holds_msg w a (cells ib ! (length (cells ib) - 1)) (a, b + (length (cells ib) - 1))"
    using H lm unfolding holds_inbox_def by blast
  then have "holds_msg w a (i', body') (a, b + length (cells ib) - 1)"
    using ne last by (simp add: last_conv_nth Suc_leI)
  then obtain n where n: "nodes w (b + length (cells ib) - 1) = Some n" "msgId n = i'"
      "totalLen n = of_nat (length body')" "node_data n = map Some (body' @ [0])"
    by (auto simp: holds_msg_def)
  have "length body' \<le> 2147483647"
    using H last ne by (force simp: holds_inbox_def dest: last_in_set)
  then have u: "unat (totalLen n) = length body'" using n(3) unat_of_nat_length by simp
  have "node_ok n" using u n(4) by (simp add: node_ok_def)
  moreover obtain h where h: "node_ok h" "totalLen h = 6" "co_step net a (Read_bytes (be16 i @ be32 len)) w =
      Inr (upd_session a (\<lambda>s. s\<lparr>phase := Reading_body\<rparr>) (remove_from_server a
            (upd_session a (\<lambda>s. s\<lparr>recvHead := h\<rparr>) w)))" (is "_ = Inr ?w1")
    using head_refused [OF net s(1,3,4) len, of i] s(5) n(1) by auto
  moreover have "holds_inbox b q tab a sid ?w1 (ib\<lparr>unlisted := True\<rparr>)"
    using H s(1,2) by (simp add: holds_inbox_def holds_msg_def session_table_remove RemoveSession_idem)
  ultimately show ?thesis
    using s nx n(1,2) u last by (simp add: head_ok_def)
qed

text \<open>The last cell is written over, when a body of its length arrives after a refused head.\<close>

lemma holds_overwritten:
  assumes H: "holds_inbox b q tab a sid w1 ib" and ne: "cells ib \<noteq> []"
    and n: "nodes w1 (b + (length (cells ib) - 1)) = Some n" "msgId n = fst (last (cells ib))" "unat (totalLen n) = length body"
    and body: "body \<noteq> []" "length body \<le> 2147483647" and cap: "cap = MAX_RECV_QUEUE_LEN - length q"
    and w2: "nodes w2 = (nodes w1)(b + (length (cells ib) - 1) \<mapsto> n\<lparr>node_data := map Some (body @ [0])\<rparr>)"
      "session_table w2 = session_table w1"
      "msgQueue w2 = (if length (msgQueue w1) < MAX_RECV_QUEUE_LEN
         then msgQueue w1 @ [(a, b + (length (cells ib) - 1))] else msgQueue w1)"
  shows "holds_inbox b q tab a sid w2 (post_over cap body ib)"
proof -
  let ?k = "length (cells ib) - 1"
  let ?cells = "(cells ib)[?k := (fst (cells ib ! ?k), body)]"
  have lk: "?k < length (cells ib)" using ne by (cases "cells ib") simp_all
  have "of_nat (unat (totalLen n)) = totalLen n" by simp
  then have "totalLen n = of_nat (length body)" using n(3) by simp
  then have new: "holds_msg w2 a (fst (cells ib ! ?k), body) (a, b + ?k)"
    using w2(1) n(2) ne by (simp add: holds_msg_def last_conv_nth)
  have "holds_msg w2 a (?cells ! j) (a, b + j)" if "j < length (cells ib)" for j
  proof (cases "j = ?k")
    case True
    with new lk show ?thesis by (simp add: nth_list_update)
  next
    case False
    then have "b + j \<noteq> b + length (cells ib) - Suc 0" using lk by arith
    with False H w2(1) that show ?thesis by (simp add: holds_inbox_def holds_msg_def)
  qed
  moreover have "\<forall>(i, body)\<in>set ?cells. body \<noteq> [] \<and> length body \<le> 2147483647"
    using H body set_update_subset_insert [of "cells ib" ?k "(fst (cells ib ! ?k), body)"]
    by (auto simp: holds_inbox_def)
  moreover have "msgQueue w2 = q @ map (\<lambda>k. (a, b + k)) (posts (post cap ?k (ib\<lparr>cells := ?cells\<rparr>)))"
    using posts_queue [of w1 q a b "ib\<lparr>cells := ?cells\<rparr>" cap ?k] H w2(3) cap by (simp add: holds_inbox_def)
  ultimately show ?thesis
    using H w2(2) by (simp add: holds_inbox_def post_over_def Let_def)
qed

lemma reads_over:
  assumes net: "network_order net" and A: "at_head b a sid w ib" and H: "holds_inbox b q tab a sid w ib"
    and ne: "cells ib \<noteq> []" and len: "MAX_LEN < len" and body: "length body = length (snd (last (cells ib)))"
    and cap: "cap = MAX_RECV_QUEUE_LEN - length q"
  shows "\<exists>w'. feed net a (Suc (Suc k)) ((be16 i @ be32 len) @ body @ rest) w = feed net a k rest w' \<and>
    at_head b a sid w' (post_over cap body (ib\<lparr>unlisted := True\<rparr>)) \<and>
    holds_inbox b q tab a sid w' (post_over cap body (ib\<lparr>unlisted := True\<rparr>))"
proof -
  let ?k = "length (cells ib) - 1"
  have m: "b + length (cells ib) - 1 = b + ?k" using ne by (simp add: Suc_leI)
  obtain w1 s1 n where w1: "co_step net a (Read_bytes (be16 i @ be32 len)) w = Inr w1"
    "holds_inbox b q tab a sid w1 (ib\<lparr>unlisted := True\<rparr>)" "next_node w1 = b + length (cells ib)"
    and s1: "sessions w1 a = Some s1" "phase s1 = Reading_body" "recvMsg s1 = Some (b + ?k)"
      "nodes w1 (b + ?k) = Some n" "ses_id s1 = sid" "head_ok s1"
    and n: "msgId n = fst (last (cells ib))" "node_ok n" "unat (totalLen n) = length body"
    using reads_refused [OF net A H ne len, of i] body unfolding m by metis
  have "last (cells ib) \<in> set (cells ib)" using ne by simp
  then have bound: "body \<noteq> []" "length body \<le> 2147483647"
    using H body by (auto simp: holds_inbox_def)
  obtain w2 where w2: "co_step net a (Read_bytes body) w1 = Inr w2"
    "nodes w2 = (nodes w1)(b + ?k \<mapsto> n\<lparr>node_data := map Some (body @ [0])\<rparr>)"
    "next_node w2 = next_node w1" "session_table w2 = session_table w1"
    "sessions w2 a = Some (s1\<lparr>phase := Reading_head\<rparr>)"
    "msgQueue w2 = (if length (msgQueue w1) < MAX_RECV_QUEUE_LEN then msgQueue w1 @ [(a, b + ?k)] else msgQueue w1)"
    using body_done [OF s1(1-4) n(2) n(3) [symmetric] bound(1)] by blast
  have "holds_inbox b q tab a sid w2 (post_over cap body (ib\<lparr>unlisted := True\<rparr>))"
    by (rule holds_overwritten [OF w1(2) _ _ _ n(3) bound cap]) (use ne n(1) s1(4) w2(2,4,6) in simp_all)
  moreover have "at_head b a sid w2 (post_over cap body (ib\<lparr>unlisted := True\<rparr>))"
    using w1(3) w2(3,5) s1 ne m by (simp add: at_head_def post_over_def Let_def head_ok_def)
  moreover have "feed net a (Suc (Suc k)) ((be16 i @ be32 len) @ body @ rest) w = feed net a k rest w2"
  proof -
    obtain s where "sessions w a = Some s" "phase s = Reading_head" using A by (auto simp: at_head_def)
    then have "read_size a w = 6" by simp
    moreover have "read_size a w1 = length body" using read_size_body [OF s1(1-4)] n(3) by simp
    ultimately show ?thesis using w1(1) w2(1) by (simp add: Let_def)
  qed
  ultimately show ?thesis by blast
qed

subsection \<open>The refinement\<close>

definition refines ::
  "net_ops \<Rightarrow> addr \<Rightarrow> (addr \<times> addr) list \<Rightarrow> session_table \<Rightarrow> addr \<Rightarrow> string \<Rightarrow>
    fault + bytes \<times> ftp_world \<Rightarrow> inbox \<times> verdict \<Rightarrow> bool" where
  "refines net b q tab a sid result = (\<lambda>(ib, v).
     if v = Crashed then result = Inl Null_deref
     else \<exists>rest w'. result = Inr (rest, w') \<and> holds_inbox b q tab a sid w' ib \<and> in_phase a sid (phase_of v) w')"

lemma refines_hang_up:
  assumes net: "network_order net" and A: "at_head b a sid w ib" and H: "holds_inbox b q tab a sid w ib"
    and k: "2 \<le> k"
  shows "refines net b q tab a sid (feed net a k ((be16 i @ be32 0) @ rest) w) (ib\<lparr>unlisted := True\<rparr>, Hung_up)"
proof -
  obtain s where s: "sessions w a = Some s" "phase s = Reading_head" using A by (auto simp: at_head_def)
  obtain w1 s1 where w1: "co_step net a (Read_bytes (be16 i @ be32 0)) w = Inr w1" "holds_inbox b q tab a sid w1 ib"
    "sessions w1 a = Some s1" "ses_id s1 = sid" "phase s1 = Reading_body"
    "recvMsg s1 = Some (b + length (cells ib))" "nodes w1 (b + length (cells ib)) = Some (RecvNode 0 i)"
    using reads_head [OF net A H, of 0 i] by auto
  let ?w2 = "co_disconnected a w1"
  have "read_size a w1 = 0" using read_size_body [OF w1(3,5-7)] by (simp add: RecvNode_def MsgNode_def)
  moreover have "co_step net a (Read_bytes []) w1 = Inr ?w2" using w1(3,5) by (simp add: co_step_def)
  moreover have f: "sessions ?w2 a = Some (s1\<lparr>recvHead := node_Clear (recvHead s1), phase := Finished\<rparr>)"
    using w1(3) by (simp add: co_disconnected_def finish_def ClearHead_def)
  moreover obtain k' where "k = Suc (Suc k')" using k by (metis Suc_le_D numeral_2_eq_2 Suc_le_mono)
  ultimately have "feed net a k ((be16 i @ be32 0) @ rest) w = Inr (rest, ?w2)"
    using s w1(1) feed_finished [OF f] by (simp add: Let_def)
  moreover have "holds_inbox b q tab a sid ?w2 (ib\<lparr>unlisted := True\<rparr>)"
    using w1(2-4)
    by (simp add: holds_inbox_def holds_msg_def co_disconnected_def finish_def ClearHead_def
        session_table_remove RemoveSession_idem)
  ultimately show ?thesis using f w1(4) by (simp add: refines_def in_phase_def)
qed

lemma refines_stops:
  assumes "sessions w a = Some s" "phase s = Reading_head" and "ses_id s1 = sid"
    and "co_step net a (Read_bytes hdr) w = Inr w1" "length hdr = 6" "2 \<le> k"
    and "sessions w1 a = Some s1" "phase s1 = Reading_body" "length rest < read_size a w1"
    and "holds_inbox b q tab a sid w1 ib"
  shows "refines net b q tab a sid (feed net a k (hdr @ rest) w) (ib, Wants_body)"
proof -
  obtain k' where "k = Suc (Suc k')" using assms(6) by (metis Suc_le_D numeral_2_eq_2 Suc_le_mono)
  with assms have "feed net a k (hdr @ rest) w = Inr (rest, w1)" by (simp add: Let_def)
  with assms show ?thesis by (simp add: refines_def in_phase_def)
qed

lemma refines_waits:
  assumes "network_order net" and "at_head b a sid w ib" and "holds_inbox b q tab a sid w ib"
    and "len \<le> MAX_LEN" and "length rest < unat len" and "2 \<le> k"
  shows "refines net b q tab a sid (feed net a k ((be16 i @ be32 len) @ rest) w) (ib, Wants_body)"
proof -
  obtain s where s: "sessions w a = Some s" "phase s = Reading_head" using assms(2) by (auto simp: at_head_def)
  obtain w1 s1 where "co_step net a (Read_bytes (be16 i @ be32 len)) w = Inr w1" "holds_inbox b q tab a sid w1 ib"
    "sessions w1 a = Some s1" "ses_id s1 = sid" "phase s1 = Reading_body"
    "recvMsg s1 = Some (b + length (cells ib))" "nodes w1 (b + length (cells ib)) = Some (RecvNode len i)"
    using reads_head [OF assms(1-4), of i] by blast
  moreover from this have "length rest < read_size a w1"
    using assms(5) read_size_body [of w1 a s1] by (simp add: RecvNode_def MsgNode_def)
  ultimately show ?thesis using s assms(6) by (intro refines_stops) simp_all
qed

lemma refines_waits_over:
  assumes "network_order net" and "at_head b a sid w ib" and "holds_inbox b q tab a sid w ib"
    and "cells ib \<noteq> []" and "MAX_LEN < len" and "length rest < length (snd (last (cells ib)))" and "2 \<le> k"
  shows "refines net b q tab a sid (feed net a k ((be16 i @ be32 len) @ rest) w) (ib\<lparr>unlisted := True\<rparr>, Wants_body)"
proof -
  obtain s where s: "sessions w a = Some s" "phase s = Reading_head" using assms(2) by (auto simp: at_head_def)
  obtain w1 s1 n where "co_step net a (Read_bytes (be16 i @ be32 len)) w = Inr w1"
    "holds_inbox b q tab a sid w1 (ib\<lparr>unlisted := True\<rparr>)"
    "sessions w1 a = Some s1" "ses_id s1 = sid" "phase s1 = Reading_body"
    "recvMsg s1 = Some (b + length (cells ib) - 1)" "nodes w1 (b + length (cells ib) - 1) = Some n"
    "unat (totalLen n) = length (snd (last (cells ib)))"
    using reads_refused [OF assms(1-5), of i] by blast
  moreover from this have "length rest < read_size a w1" using assms(6) read_size_body [of w1 a s1] by simp
  ultimately show ?thesis using s assms(7) by (intro refines_stops) simp_all
qed

lemma feed_crashes:
  assumes "network_order net" and "at_head b a sid w ib" and "cells ib = []" and "MAX_LEN < len" and "2 \<le> k"
  shows "feed net a k ((be16 i @ be32 len) @ rest) w = Inl Null_deref"
proof -
  obtain s where s: "sessions w a = Some s" "phase s = Reading_head" "head_ok s" using assms(2) by (auto simp: at_head_def)
  then have "recvMsg s = None" using assms(2,3) by (auto simp: at_head_def)
  then have "co_step net a (Read_bytes (be16 i @ be32 len)) w = Inl Null_deref"
    using head_refused [OF assms(1) s assms(4), of i] by simp
  moreover obtain j where "k = Suc (Suc j)" using assms(5) by (metis Suc_le_D numeral_2_eq_2 Suc_le_mono)
  ultimately show ?thesis using s by (simp add: Let_def)
qed

text \<open>One message of the receiver, in terms of the fields of its head.\<close>

lemma receive_head:
  "receive cap ((be16 i @ be32 len) @ rest) ib =
    (if len \<le> MAX_LEN then
       if len = 0 then (ib\<lparr>unlisted := True\<rparr>, Hung_up)
       else if length rest < unat len then (ib, Wants_body)
       else receive cap (drop (unat len) rest) (post_new cap (i, take (unat len) rest) ib)
     else if cells ib = [] then (ib, Crashed)
     else if length rest < length (snd (last (cells ib))) then (ib\<lparr>unlisted := True\<rparr>, Wants_body)
     else receive cap (drop (length (snd (last (cells ib)))) rest)
            (post_over cap (take (length (snd (last (cells ib)))) rest) (ib\<lparr>unlisted := True\<rparr>)))"
proof -
  have "rev (be16 i) = short_repr i" "rev (be32 len) = uint_repr len"
    by (simp_all add: be16_def short_repr_def be32_def uint_repr_def)
  then have "short_of (rev (take 2 ((be16 i @ be32 len) @ rest))) = i"
    "uint_of (rev (take 4 (drop 2 ((be16 i @ be32 len) @ rest)))) = len"
    "drop 6 ((be16 i @ be32 len) @ rest) = rest" "\<not> length ((be16 i @ be32 len) @ rest) < 6" by simp_all
  then show ?thesis by (subst receive.simps) (simp add: Let_def)
qed

text \<open>A head after which nothing more is read: it is the last, or its body has not arrived.\<close>

lemma feed_ends:
  assumes net: "network_order net" and A: "at_head b a sid w ib" and H: "holds_inbox b q tab a sid w ib" and k: "2 \<le> k"
    and "len \<le> MAX_LEN \<Longrightarrow> len = 0 \<or> length rest < unat len"
    and "MAX_LEN < len \<Longrightarrow> cells ib = [] \<or> length rest < length (snd (last (cells ib)))"
  shows "refines net b q tab a sid (feed net a k ((be16 i @ be32 len) @ rest) w)
    (receive cap ((be16 i @ be32 len) @ rest) ib)"
proof (cases "len \<le> MAX_LEN")
  case True
  with assms(5) consider "len = 0" | "len \<noteq> 0" "length rest < unat len" by blast
  then show ?thesis
  proof cases
    case 1
    with refines_hang_up [OF net A H k, of i rest] show ?thesis by (simp add: receive_head del: append_assoc)
  next
    case 2
    with refines_waits [OF net A H True 2(2) k, of i] True show ?thesis by (simp add: receive_head del: append_assoc)
  qed
next
  case False
  then have over: "MAX_LEN < len" by simp
  with assms(6) consider "cells ib = []" | "cells ib \<noteq> []" "length rest < length (snd (last (cells ib)))" by blast
  then show ?thesis
  proof cases
    case 1
    with feed_crashes [OF net A 1 over k, of i rest] False show ?thesis
      by (simp add: receive_head refines_def del: append_assoc)
  next
    case 2
    with refines_waits_over [OF net A H 2(1) over 2(2) k, of i] False show ?thesis
      by (simp add: receive_head del: append_assoc)
  qed
qed

text \<open>A head whose body has arrived: the rest is read by the loop, and heard by the receiver, from
  where the message leaves them.\<close>

lemma feed_message:
  assumes net: "network_order net" and A: "at_head b a sid w ib" and H: "holds_inbox b q tab a sid w ib"
    and cap: "cap = MAX_RECV_QUEUE_LEN - length q"
    and "len \<le> MAX_LEN \<Longrightarrow> len \<noteq> 0 \<and> unat len \<le> length rest"
    and "MAX_LEN < len \<Longrightarrow> cells ib \<noteq> [] \<and> length (snd (last (cells ib))) \<le> length rest"
  shows "\<exists>n w' ib'. 0 < n \<and> n \<le> length rest \<and>
    feed net a (Suc (Suc j)) ((be16 i @ be32 len) @ rest) w = feed net a j (drop n rest) w' \<and>
    receive cap ((be16 i @ be32 len) @ rest) ib = receive cap (drop n rest) ib' \<and>
    at_head b a sid w' ib' \<and> holds_inbox b q tab a sid w' ib'"
proof (cases "len \<le> MAX_LEN")
  case True
  let ?n = "unat len"
  have n: "0 < ?n" "?n \<le> length rest" using assms(5) [OF True] by (simp_all add: unat_gt_0)
  then have body: "length (take ?n rest) = ?n" "take ?n rest \<noteq> []" by auto
  obtain w' where "feed net a (Suc (Suc j)) ((be16 i @ be32 len) @ take ?n rest @ drop ?n rest) w =
      feed net a j (drop ?n rest) w'" "at_head b a sid w' (post_new cap (i, take ?n rest) ib)"
    "holds_inbox b q tab a sid w' (post_new cap (i, take ?n rest) ib)"
    using reads_new [OF net A H True body cap] by blast
  moreover have "receive cap ((be16 i @ be32 len) @ rest) ib =
      receive cap (drop ?n rest) (post_new cap (i, take ?n rest) ib)"
    unfolding receive_head using assms(5) [OF True] True by simp
  ultimately show ?thesis unfolding append_take_drop_id using n by blast
next
  case False
  then have over: "MAX_LEN < len" by simp
  let ?n = "length (snd (last (cells ib)))" and ?ib = "ib\<lparr>unlisted := True\<rparr>"
  have ne: "cells ib \<noteq> []" "?n \<le> length rest" using assms(6) [OF over] by simp_all
  then have "last (cells ib) \<in> set (cells ib)" by simp
  then have n: "0 < ?n" using H by (auto simp: holds_inbox_def)
  have body: "length (take ?n rest) = ?n" using ne(2) by simp
  obtain w' where "feed net a (Suc (Suc j)) ((be16 i @ be32 len) @ take ?n rest @ drop ?n rest) w =
      feed net a j (drop ?n rest) w'" "at_head b a sid w' (post_over cap (take ?n rest) ?ib)"
    "holds_inbox b q tab a sid w' (post_over cap (take ?n rest) ?ib)"
    using reads_over [OF net A H ne(1) over body cap] by blast
  moreover have "receive cap ((be16 i @ be32 len) @ rest) ib =
      receive cap (drop ?n rest) (post_over cap (take ?n rest) ?ib)"
    unfolding receive_head using False ne by simp
  ultimately show ?thesis unfolding append_take_drop_id using n ne(2) by blast
qed

lemma feed_receive:
  assumes net: "network_order net" and cap: "cap = MAX_RECV_QUEUE_LEN - length q"
  shows "at_head b a sid w ib \<Longrightarrow> holds_inbox b q tab a sid w ib \<Longrightarrow> length bs + 1 < k \<Longrightarrow>
    refines net b q tab a sid (feed net a k bs w) (receive cap bs ib)"
proof (induction "length bs" arbitrary: bs ib w k rule: less_induct)
  case less
  note A = less.prems(1) and H = less.prems(2)
  obtain j where k: "k = Suc (Suc j)" using less.prems(3) by (metis Suc_eq_plus1 Suc_lessE less_SucE)
  show ?case
  proof (cases "length bs < 6")
    case True
    obtain s where s: "sessions w a = Some s" "phase s = Reading_head" "ses_id s = sid"
      using A by (auto simp: at_head_def)
    with True k have "feed net a k bs w = Inr (bs, w)" by (simp add: Let_def)
    with True H s show ?thesis by (subst receive.simps) (simp add: refines_def in_phase_def)
  next
    case six: False
    have "bs = take 6 bs @ drop 6 bs" by simp
    then obtain i len rest where bs: "bs = (be16 i @ be32 len) @ rest" using six take_six [of bs] by auto
    then have l: "length bs = 6 + length rest" by simp
    show ?thesis
    proof (cases "(len \<le> MAX_LEN \<longrightarrow> len \<noteq> 0 \<and> unat len \<le> length rest) \<and>
        (MAX_LEN < len \<longrightarrow> cells ib \<noteq> [] \<and> length (snd (last (cells ib))) \<le> length rest)")
      case True
      then obtain n w' ib' where n: "0 < n" "n \<le> length rest"
        and feed: "feed net a k bs w = feed net a j (drop n rest) w'"
        and receive: "receive cap bs ib = receive cap (drop n rest) ib'"
        and next_head: "at_head b a sid w' ib'" "holds_inbox b q tab a sid w' ib'"
        using feed_message [OF net A H cap, of len rest j i] unfolding k bs by blast
      have "length (drop n rest) < length bs" "length (drop n rest) + 1 < j" using n less.prems(3) k l by simp_all
      from less.hyps [OF this(1) next_head this(2)] show ?thesis unfolding feed receive .
    next
      case False
      then have "\<not> len \<le> MAX_LEN \<or> len = 0 \<or> length rest < unat len"
        "\<not> MAX_LEN < len \<or> cells ib = [] \<or> length rest < length (snd (last (cells ib)))" by (auto simp: not_le)
      then show ?thesis unfolding bs by (intro feed_ends [OF net A H]) (auto simp: k)
    qed
  qed
qed

text \<open>On the frames of proper messages the receiver does what it should.\<close>

lemma receive_frame:
  assumes "msg \<noteq> []" and "length msg \<le> 2147483647"
  shows "receive cap (frame i msg @ rest) ib = receive cap rest (post_new cap (i, msg) ib)"
proof -
  let ?len = "of_nat (length msg) :: u32"
  have u: "unat ?len = length msg" using assms(2) by (rule unat_of_nat_length)
  then have "?len \<noteq> 0" "?len \<le> MAX_LEN"
    using assms by (auto simp: unat_eq_0 MAX_LEN_def word_le_nat_alt)
  then show ?thesis using receive_head [of cap i ?len "msg @ rest" ib] by (simp add: frame_def u)
qed

definition empty_inbox :: inbox where
  "empty_inbox = \<lparr>cells = [], posts = [], unlisted = False\<rparr>"

subsection \<open>Property\<close>

text \<open>
  C4: the reading loop of a session refines the abstract receiver. Whatever stream of bytes arrives
  at a session that waits for its first head, cut into reads as the session asks for them, the
  session crashes exactly when the receiver does, and otherwise ends in the phase the receiver's
  verdict names, with a node for each message the receiver built, in order and terminated, with
  exactly the receiver's posts in the logic queue, and off the server's table exactly when the
  receiver says so.
\<close>
theorem reader_refines_receiver:
  assumes "network_order net" and "sessions w a = Some s" and "phase s = Reading_head"
    and "head_ok s" and "recvMsg s = None" and "length bs + 2 \<le> k"
  shows "case receive (MAX_RECV_QUEUE_LEN - length (msgQueue w)) bs empty_inbox of (ib, v) \<Rightarrow>
    if v = Crashed then feed net a k bs w = Inl Null_deref
    else \<exists>rest w' s'. feed net a k bs w = Inr (rest, w') \<and>
      sessions w' a = Some s' \<and> phase s' = phase_of v \<and>
      (\<forall>c<length (cells ib). holds_msg w' a (cells ib ! c) (a, next_node w + c)) \<and>
      msgQueue w' = msgQueue w @ map (\<lambda>c. (a, next_node w + c)) (posts ib) \<and>
      session_table w' = (if unlisted ib then RemoveSession (ses_id s) (session_table w) else session_table w)"
proof -
  have "at_head (next_node w) a (ses_id s) w empty_inbox"
    using assms by (simp add: at_head_def empty_inbox_def)
  moreover have "holds_inbox (next_node w) (msgQueue w) (session_table w) a (ses_id s) w empty_inbox"
    by (simp add: holds_inbox_def empty_inbox_def)
  ultimately have "refines net (next_node w) (msgQueue w) (session_table w) a (ses_id s) (feed net a k bs w)
      (receive (MAX_RECV_QUEUE_LEN - length (msgQueue w)) bs empty_inbox)"
    using assms(6) by (intro feed_receive [OF assms(1)]) simp_all
  then show ?thesis
    by (cases "receive (MAX_RECV_QUEUE_LEN - length (msgQueue w)) bs empty_inbox")
      (auto simp: refines_def holds_inbox_def in_phase_def)
qed

theorem reader_refines_receiver_witness:
  "\<exists>rest w'. feed swap_ops 0 20 (frame 1001 [104, 105] @ be16 1001 @ be32 4278190082 @ [88, 88]) lone_session =
      Inr (rest, w') \<and> msgQueue w' = [(0, 0), (0, 0)] \<and> holds_msg w' 0 (1001, [88, 88]) (0, 0) \<and>
      session_table w' = []"
proof -
  let ?over = "be16 1001 @ be32 4278190082 @ [88, 88]"
  have over: "?over = [3, 233, 255, 0, 0, 2, 88, 88]" by (simp add: be16_def be32_def drop_bit_eq_div)
  have ids: "short_of [233, 3] = 1001" "uint_of [2, 0, 0, 255] = 4278190082"
    by (simp_all add: short_of_def uint_of_def push_bit_eq_mult)
  have "receive 2000000 (frame 1001 [104, 105] @ ?over) empty_inbox =
      (\<lparr>cells = [(1001, [88, 88])], posts = [0, 0], unlisted = True\<rparr>, Wants_head)"
    unfolding receive_frame [of "[104, 105]", simplified] over
    by (simp add: receive.simps empty_inbox_def post_new_def post_over_def post_def Let_def MAX_LEN_def ids)
  moreover have "MAX_RECV_QUEUE_LEN = 2000000" by (simp add: MAX_RECV_QUEUE_LEN_def)
  moreover have "head_ok ((Session ''s'' 0)\<lparr>sock_open := True, phase := Reading_head\<rparr>)"
    using lone_session_ok(2) by (simp add: idle_def)
  ultimately show ?thesis
    using reader_refines_receiver [OF swap_ops_network_order lone_session_simps(1), of "frame 1001 [104, 105] @ ?over" 20]
    by (auto simp: Session_def lone_session_def RemoveSession_def)
qed

end
