(* ===== verification/Ftp_Steps.thy ===== *)
theory Ftp_Steps
  imports Ftp_Server_Props Ftp_Reader
begin

text \<open>
  What one step of the upload server may do to the others it shares its world with. Every handler
  acts for one session; it may replace that session, write to the nodes that belong to it or to new
  ones, and change its entries of the logic queue (\<open>own_step\<close>); most leave nodes and queue as they
  are (\<open>quiet\<close>). The effect of a resumption of the coroutine is given case by case
  (\<open>co_step_cases\<close>), and serving a message is split into what its text asks for, a function of the
  message alone (\<open>ftp_answer\<close>), and doing it.
\<close>

subsection \<open>Whose node is whose\<close>

text \<open>What a node holds; \<open>_curLen\<close>, which \<open>Clear\<close> resets, is not part of it.\<close>

definition body_at :: "ftp_world \<Rightarrow> addr \<Rightarrow> (u16 \<times> u32 \<times> char_array) option" where
  "body_at w m = map_option (\<lambda>n. (msgId n, totalLen n, node_data n)) (nodes w m)"

definition recv_at :: "ftp_world \<Rightarrow> addr \<Rightarrow> addr option" where
  "recv_at w a = Option.bind (sessions w a) recvMsg"

text \<open>The node a session receives into and the nodes of its queued messages are its own.\<close>

definition belongs :: "ftp_world \<Rightarrow> addr \<Rightarrow> addr \<Rightarrow> bool" where
  "belongs w a m = (recv_at w a = Some m \<or> (a, m) \<in> set (msgQueue w))"

definition entries :: "ftp_world \<Rightarrow> addr \<Rightarrow> (addr \<times> addr) list" where
  "entries w a = filter (\<lambda>x. fst x = a) (msgQueue w)"

definition nodes_disjoint :: "ftp_world \<Rightarrow> bool" where
  "nodes_disjoint w = (\<forall>a b m. belongs w a m \<longrightarrow> belongs w b m \<longrightarrow> a = b)"

lemma recv_at_session [simp]: "sessions w a = Some s \<Longrightarrow> recv_at w a = recvMsg s"
  by (simp add: recv_at_def)

lemma belongs_below:
  assumes "world_ok w" and "belongs w a m"
  shows "m < next_node w" and "\<exists>n. nodes w m = Some n"
proof -
  have "\<exists>n. nodes w m = Some n"
  proof (cases "(a, m) \<in> set (msgQueue w)")
    case True
    from world_okD(4) [OF assms(1) True] show ?thesis by (auto simp: queued_ok_def split: option.splits)
  next
    case False
    with assms(2) obtain s where "sessions w a = Some s" "recvMsg s = Some m"
      by (auto simp: belongs_def recv_at_def bind_eq_Some_conv)
    with world_okD(3) [OF assms(1)] show ?thesis by (fastforce simp: session_ok_def)
  qed
  with world_okD(2) [OF assms(1)] show "m < next_node w" "\<exists>n. nodes w m = Some n" by auto
qed

subsection \<open>The footprint of a step\<close>

definition own_step :: "addr \<Rightarrow> ftp_world \<Rightarrow> ftp_world \<Rightarrow> bool" where
  "own_step a w w' =
     (next_node w \<le> next_node w' \<and>
      (\<forall>c. c \<noteq> a \<longrightarrow> sessions w' c = sessions w c \<and> entries w' c = entries w c) \<and>
      (\<forall>m. belongs w' a m \<longrightarrow> belongs w a m \<or> next_node w \<le> m) \<and>
      (\<forall>m<next_node w. \<not> belongs w a m \<longrightarrow> body_at w' m = body_at w m))"

lemma own_stepD:
  assumes "own_step a w w'"
  shows "c \<noteq> a \<Longrightarrow> sessions w' c = sessions w c" "c \<noteq> a \<Longrightarrow> entries w' c = entries w c"
    "belongs w' a m \<Longrightarrow> belongs w a m \<or> next_node w \<le> m"
    "m < next_node w \<Longrightarrow> \<not> belongs w a m \<Longrightarrow> body_at w' m = body_at w m" "next_node w \<le> next_node w'"
  using assms unfolding own_step_def by blast+

lemma own_step_trans:
  assumes "own_step a u v" and "own_step a v w"
  shows "own_step a u w"
proof -
  note u = own_stepD [OF assms(1)] and v = own_stepD [OF assms(2)]
  have "body_at w m = body_at u m" if "m < next_node u" "\<not> belongs u a m" for m
    using u(4) [OF that] u(3) [of m] v(4) [of m] u(5) that by auto
  moreover have "belongs u a m \<or> next_node u \<le> m" if "belongs w a m" for m
    using v(3) [OF that] u(3) [of m] u(5) by auto
  moreover have "next_node u \<le> next_node w" using u(5) v(5) by simp
  ultimately show ?thesis
    using u(1,2) v(1,2) by (simp add: own_step_def)
qed

lemma belongs_entries: "belongs w a m \<longleftrightarrow> recv_at w a = Some m \<or> (a, m) \<in> set (entries w a)"
  by (auto simp: belongs_def entries_def)

text \<open>What a step leaves to the others, and that nodes stay apart.\<close>

lemma own_step_belongs:
  assumes "own_step a w w'" and "c \<noteq> a"
  shows "belongs w' c m = belongs w c m"
  using own_stepD(1,2) [OF assms(1,2)] by (simp add: belongs_entries recv_at_def)

lemma own_step_leaves:
  assumes "own_step a w w'" and "nodes_disjoint w" and "world_ok w" and "c \<noteq> a" and "belongs w c m"
  shows "body_at w' m = body_at w m"
proof -
  have "\<not> belongs w a m" using assms(2,4,5) by (auto simp: nodes_disjoint_def)
  with own_stepD(4) [OF assms(1)] belongs_below(1) [OF assms(3,5)] show ?thesis by blast
qed

lemma own_step_disjoint:
  assumes step: "own_step a w w'" and "nodes_disjoint w" and "world_ok w"
  shows "nodes_disjoint w'"
proof -
  have apart: "False" if "c \<noteq> a" "belongs w' a m" "belongs w' c m" for c m
  proof -
    have c: "belongs w c m" using own_step_belongs [OF step that(1)] that(3) by simp
    then have "m < next_node w" by (rule belongs_below(1) [OF assms(3)])
    with own_stepD(3) [OF step that(2)] have "belongs w a m" by auto
    with c assms(2) that(1) show False by (auto simp: nodes_disjoint_def)
  qed
  have "x = y" if "belongs w' x m" "belongs w' y m" for x y m
  proof (cases "x = a \<or> y = a")
    case True
    with apart [of x m] apart [of y m] that show ?thesis by metis
  next
    case False
    with that own_step_belongs [OF step] assms(2) show ?thesis by (auto simp: nodes_disjoint_def)
  qed
  then show ?thesis by (auto simp: nodes_disjoint_def)
qed

subsection \<open>Quiet steps\<close>

definition quiet :: "addr \<Rightarrow> ftp_world \<Rightarrow> ftp_world \<Rightarrow> bool" where
  "quiet a w w' =
     ((\<forall>c. c \<noteq> a \<longrightarrow> sessions w' c = sessions w c) \<and>
      (\<forall>m. recv_at w' a = Some m \<longrightarrow> recv_at w a = Some m) \<and>
      msgQueue w' = msgQueue w \<and> next_node w' = next_node w \<and> body_at w' = body_at w)"

lemma quietD:
  assumes "quiet a w w'"
  shows "c \<noteq> a \<Longrightarrow> sessions w' c = sessions w c" "msgQueue w' = msgQueue w" "next_node w' = next_node w"
    "body_at w' = body_at w"
  using assms by (auto simp: quiet_def)

lemma quiet_own_step: "quiet a w w' \<Longrightarrow> own_step a w w'"
  by (auto simp: quiet_def own_step_def entries_def belongs_def)

lemma quiet_refl [simp]: "quiet a w w"
  by (simp add: quiet_def)

lemma quiet_trans: "quiet a u v \<Longrightarrow> quiet a v w \<Longrightarrow> quiet a u w"
  by (auto simp: quiet_def)

lemma quiet_frame:
  "sessions w' = sessions w \<Longrightarrow> nodes w' = nodes w \<Longrightarrow> msgQueue w' = msgQueue w \<Longrightarrow> next_node w' = next_node w \<Longrightarrow>
     quiet a w w'"
  by (simp add: quiet_def recv_at_def body_at_def fun_eq_iff)

lemma quiet_upd_session: "(\<And>s. recvMsg (f s) = recvMsg s) \<Longrightarrow> quiet a w (upd_session a f w)"
  by (auto simp: quiet_def recv_at_def body_at_def bind_eq_Some_conv fun_eq_iff)

lemma body_at_Clear: "body_at (Clear a w) = body_at w"
  by (auto simp: body_at_def Clear_def ClearMsg_def ClearHead_def node_Clear_def fun_eq_iff option.map_comp o_def
      split: option.split)

lemma quiet_ClearHead: "quiet a w (ClearHead a w)"
  unfolding ClearHead_def by (rule quiet_upd_session) simp

lemma quiet_Clear: "quiet a w (Clear a w)"
  using quiet_ClearHead [of a w] body_at_Clear [of a w] by (simp add: quiet_def Clear_def recv_at_def)

lemma quiet_remove: "quiet a w (remove_from_server a w)"
  by (rule quiet_frame) simp_all

lemma quiet_finish: "quiet a w (finish a w)"
  unfolding finish_def by (rule quiet_upd_session) simp

lemma quiet_catch: "quiet a w (co_catch a w)"
  unfolding co_catch_def by (rule quiet_trans [OF quiet_trans [OF quiet_Clear quiet_remove] quiet_finish])

lemma quiet_disconnected: "quiet a w (co_disconnected a w)"
  unfolding co_disconnected_def
  by (rule quiet_trans [OF quiet_trans [OF quiet_ClearHead quiet_remove] quiet_finish])

lemma quiet_accept_start: "quiet a w (accept_start a w)"
  unfolding accept_start_def Start_def
  by (rule quiet_trans [OF quiet_trans [OF quiet_upd_session quiet_Clear] quiet_upd_session]) simp_all

lemma quiet_accept_save: "quiet a w (accept_save a w)"
  by (rule quiet_frame) simp_all

lemma nodes_Session_dtor: "body_at (Session_dtor a w) = body_at w"
  using body_at_Clear [of a w]
  by (auto simp: Session_dtor_def Let_def body_at_def fun_eq_iff split: option.splits)

lemma quiet_release: "quiet a w (release a w)"
  by (auto simp: release_def quiet_def sessions_Session_dtor recv_at_def nodes_Session_dtor)

lemma recvMsg_write_next [simp]: "recvMsg (write_next s) = recvMsg s" "recvMsg (write_failed s) = recvMsg s"
  "phase (write_next s) = phase s" "phase (write_failed s) = phase s"
  by (simp_all add: write_next_def write_failed_def Let_def)

lemma quiet_HandlerWrite: "HandlerWrite a ec w = Inr w' \<Longrightarrow> quiet a w w'"
  by (auto simp: HandlerWrite_def split: if_splits option.splits
      intro!: quiet_upd_session quiet_trans [OF quiet_upd_session quiet_remove])

lemma body_at_pop [simp]: "body_at (pop_msg w) = body_at w"
  by (simp add: body_at_def pop_msg_def fun_eq_iff)

lemma own_step_pop:
  assumes "msgQueue w = (a, m) # q"
  shows "own_step a w (pop_msg w)"
  using assms
  by (auto simp: own_step_def belongs_def entries_def recv_at_def body_at_def pop_msg_def)

lemma own_step_StartAccept:
  assumes "StartAccept uuid w = Inr w'"
  shows "own_step (next_session w) w w'"
proof -
  obtain ioc p where "w' = w\<lparr>pool := p, sessions := (sessions w)(next_session w \<mapsto> Session uuid ioc),
      accepting := Some (next_session w), next_session := next_session w + 1\<rparr>"
    using StartAccept_Inr [OF assms] by blast
  then show ?thesis
    by (auto simp: own_step_def belongs_def recv_at_def entries_def body_at_def Session_def)
qed

subsection \<open>A resumption of the coroutine\<close>

definition head_of :: "bytes \<Rightarrow> u16 \<times> u32" where
  "head_of bs = (short_of (rev (take 2 bs)), uint_of (rev (take 4 (drop 2 bs))))"

lemma co_step_cases:
  assumes net: "network_order net" and w: "world_ok w" and s: "sessions w a = Some s"
    and ph: "phase s \<in> {Reading_head, Reading_body}" and fits: "read_fits a w r"
    and step: "co_step net a r w = Inr w'"
  obtains (ended) "r = Read_failed \<or> phase s = Reading_body \<and> r = Read_bytes []"
      "w' = co_catch a w \<or> w' = co_disconnected a w"
    | (head) bs i len h where "r = Read_bytes bs" "phase s = Reading_head" "head_of bs = (i, len)" "len \<le> MAX_LEN"
      "w' = upd_session a (\<lambda>s. s\<lparr>recvHead := h, recvMsg := Some (next_node w), phase := Reading_body\<rparr>)
         (w\<lparr>nodes := (nodes w)(next_node w \<mapsto> RecvNode len i), next_node := next_node w + 1\<rparr>)"
    | (refused) bs i len h where "r = Read_bytes bs" "phase s = Reading_head" "head_of bs = (i, len)" "MAX_LEN < len"
      "w' = upd_session a (\<lambda>s. s\<lparr>phase := Reading_body\<rparr>) (remove_from_server a
         (upd_session a (\<lambda>s. s\<lparr>recvHead := h\<rparr>) w))"
    | (body) bs m n where "r = Read_bytes bs" "bs \<noteq> []" "phase s = Reading_body" "recvMsg s = Some m"
      "nodes w m = Some n" "length bs = unat (totalLen n)"
      "w' = read_head a (PostMsgToQue (a, m) (upd_node m (n\<lparr>node_data := map Some (bs @ [0])\<rparr>) w))"
proof (cases r)
  case Read_failed
  with step s ph show thesis by (intro ended) (auto simp: co_step_def)
next
  case r: (Read_bytes bs)
  have hok: "head_ok s" using world_okD(3) [OF w s] by (simp add: session_ok_def)
  show thesis
  proof (cases "phase s")
    case Reading_head
    then have l: "length bs = 6" using fits r s by (simp add: read_fits_def)
    obtain i len where il: "head_of bs = (i, len)" by fastforce
    have bs: "bs = be16 i @ be32 len"
      using take_six [of bs] l il by (simp add: head_of_def)
    show thesis
    proof (cases "len \<le> MAX_LEN")
      case True
      with head_accepted [OF net s Reading_head hok True, of i] step
      show thesis unfolding r bs [symmetric] by (auto intro: head [OF r Reading_head il])
    next
      case False
      then have over: "MAX_LEN < len" by simp
      note R = head_refused [OF net s Reading_head hok over, of i, folded bs]
      have "recvMsg s \<noteq> None" using R step r by (auto split: if_splits)
      moreover have "nodes w m \<noteq> None" if "recvMsg s = Some m" for m
        using belongs_below(2) [OF w, of a m] that s by (simp add: belongs_def)
      ultimately show thesis
        using R step r by (auto intro: refused [OF r Reading_head il over])
    qed
  next
    case Reading_body
    obtain m n where n: "recvMsg s = Some m" "nodes w m = Some n" "node_ok n" "read_size a w = unat (totalLen n)"
      using reading_body_node [OF w s Reading_body] by blast
    then have l: "length bs = unat (totalLen n)" using fits r by (simp add: read_fits_def)
    show thesis
    proof (cases "bs = []")
      case True
      with step s r Reading_body show thesis by (intro ended) (auto simp: co_step_def)
    next
      case False
      from co_step_body [OF s Reading_body n(1-3) l False, of net] step
      show thesis unfolding r by (auto intro: body [OF r False Reading_body n(1,2) l])
    qed
  qed (use ph in simp_all)
qed

lemma own_step_head:
  "own_step a w (upd_session a (\<lambda>s. s\<lparr>recvHead := h, recvMsg := Some (next_node w), phase := Reading_body\<rparr>)
     (w\<lparr>nodes := (nodes w)(next_node w \<mapsto> n), next_node := next_node w + 1\<rparr>))"
  by (auto simp: own_step_def belongs_def recv_at_def entries_def body_at_def bind_eq_Some_conv)

lemma own_step_body:
  assumes "recv_at w a = Some m"
  shows "own_step a w (read_head a (PostMsgToQue (a, m) (upd_node m n w)))"
  using assms
  by (auto simp: own_step_def belongs_def recv_at_def entries_def body_at_def read_head_def msgQueue_Post
      bind_eq_Some_conv split: if_splits)

lemma own_step_co_step:
  assumes "network_order net" "world_ok w" "sessions w a = Some s" "phase s \<in> {Reading_head, Reading_body}"
    "read_fits a w r" "co_step net a r w = Inr w'"
  shows "own_step a w w'"
  using assms
proof (cases rule: co_step_cases)
  case ended
  then show ?thesis using quiet_own_step [OF quiet_catch] quiet_own_step [OF quiet_disconnected] by auto
next
  case (head bs i len h)
  show ?thesis unfolding head(5) by (rule own_step_head)
next
  case (refused bs i len h)
  have "quiet a w w'"
    unfolding refused(5)
    by (rule quiet_trans [OF quiet_trans [OF quiet_upd_session quiet_remove] quiet_upd_session]) simp_all
  then show ?thesis by (rule quiet_own_step)
next
  case (body bs m n)
  show ?thesis unfolding body(7) by (rule own_step_body) (simp add: assms(3) body(4))
qed

subsection \<open>What a message asks for\<close>

text \<open>The chunk it writes and the response it is sent, or the exception that ends the callback.\<close>

definition ftp_answer ::
  "'j logic_env \<Rightarrow> u16 \<times> char_array \<Rightarrow> fault + ((int \<times> string \<times> string) option \<times> (u16 \<times> string) option)" where
  "ftp_answer env = (\<lambda>(i, d).
     let js = env_json env in
     (case RegisterCallbacks i of
        None \<Rightarrow> Inr (None, None)
      | Some Test_msg_callback \<Rightarrow>
          and_then (c_str d) (\<lambda>text.
          and_then (json_set js (snd (json_parse js text)) ''role'' (json_str js ''server'')) (\<lambda>root.
          and_then (json_set js root ''error'' (json_int js (uint Success))) (\<lambda>root.
          Inr (None, Some (TEST_MSG_SEND, toStyledString js root)))))
      | Some Upload_file_callback \<Rightarrow>
          and_then (c_str d) (\<lambda>text.
          let root = snd (json_parse js text) in
          and_then (get_str js root ''data'') (\<lambda>encoded.
          and_then (base64_decode encoded False) (\<lambda>decoded.
          and_then (get_int js root ''seq'') (\<lambda>k.
          and_then (get_str js root ''name'') (\<lambda>name.
          and_then (get_int js root ''total_size'') (\<lambda>t.
          and_then (get_int js root ''trans_size'') (\<lambda>r.
          let path = path_append (GetStaticPath (env_config env)) name in
          if \<not> can_open env path then Inr (None, None)
          else and_then (upload_response js name k t r) (\<lambda>resp.
            Inr (Some (k, path, decoded), Some (UPLOAD_FILE_SEND, resp))))))))))))"

definition store :: "(int \<times> string \<times> string) option \<Rightarrow> (string \<rightharpoonup> string) \<Rightarrow> (string \<rightharpoonup> string)" where
  "store c f = (case c of None \<Rightarrow> f
     | Some (k, path, data) \<Rightarrow>
         f(path \<mapsto> if k = 0 then data else (case f path of None \<Rightarrow> [] | Some old \<Rightarrow> old) @ data))"

text \<open>The response as it is on the wire: its length is narrowed to 32 bits.\<close>

definition ftp_frame :: "u16 \<times> string \<Rightarrow> bytes" where
  "ftp_frame = (\<lambda>(i, text). frame i (take (length text mod 2 ^ 32) (bytes_of text)))"

text \<open>What the callbacks do with it, other than reading the message.\<close>

definition respond :: "'j logic_env \<Rightarrow> addr \<Rightarrow> (u16 \<times> string) option \<Rightarrow> ftp_world \<Rightarrow> fault + ftp_world" where
  "respond env a resp w =
     (case resp of None \<Rightarrow> Inr w | Some (i, text) \<Rightarrow> session_Send (env_net env) a text i w)"

lemma write_chunk_store: "files (write_chunk k p d w) = store (Some (k, p, d)) (files w)"
  by (simp add: write_chunk_def store_def)

lemma dispatch_answer:
  assumes "nodes w m = Some n"
  shows "dispatch env a m w =
    and_then (ftp_answer env (msgId n, node_data n)) (\<lambda>(c, resp).
    and_then (respond env a resp (case c of None \<Rightarrow> w | Some (k, p, d) \<Rightarrow> write_chunk k p d w)) (\<lambda>w.
    Inr (if RegisterCallbacks (msgId n) = Some Test_msg_callback then ClearHead a w else w)))"
proof (cases "RegisterCallbacks (msgId n)")
  case None
  with assms show ?thesis by (simp add: dispatch_def ftp_answer_def respond_def)
next
  case cb: (Some cb)
  show ?thesis
  proof (cases cb)
    case Test_msg_callback
    with assms cb show ?thesis
      by (simp add: dispatch_def TestMsgCallback_def Data_string_def ftp_answer_def respond_def Let_def
          case_prod_beta and_then_assoc)
  next
    case Upload_file_callback
    have if_then: "and_then (if b then x else y) f = (if b then and_then x f else and_then y f)" for b x y f by simp
    from Upload_file_callback assms cb show ?thesis
      by (simp add: dispatch_def UploadFileCallback_def Data_string_def ftp_answer_def respond_def Let_def
          case_prod_beta and_then_assoc if_then cong: if_cong)
  qed
qed

subsection \<open>Sending the response\<close>

lemma SendNode_take:
  assumes "unat len \<le> length msg"
  shows "SendNode net (take (unat len) msg) len i = SendNode net msg len i"
  using assms by (simp add: SendNode_def Let_def)

lemma SendNode_wire:
  assumes net: "network_order net" and "SendNode net (bytes_of text) (of_nat (length text)) i = Inr n"
  shows "wire n = Inr (ftp_frame (i, text))"
proof -
  let ?len = "of_nat (length text) :: u32" and ?msg = "take (length text mod 2 ^ 32) (bytes_of text)"
  have u: "unat ?len = length text mod 2 ^ 32" by (simp add: unat_of_nat take_bit_eq_mod)
  then have msg: "length ?msg = length text mod 2 ^ 32" by (simp add: min_def)
  then have len: "(of_nat (length ?msg) :: u32) = ?len"
    using word_of_nat_eq_iff [where 'a = 32, of "length ?msg" "length text"] by (simp add: take_bit_eq_mod)
  have "unat ?len \<le> length (bytes_of text)" unfolding u by simp
  then have "SendNode net ?msg (of_nat (length ?msg)) i = Inr n"
    using SendNode_take [of ?len "bytes_of text" net i] assms(2) by (simp only: u len)
  moreover have "length ?msg < 2 ^ 32" unfolding msg by simp
  ultimately show ?thesis
    using SendNode_frame [OF net, of ?msg i] by (auto simp: ftp_frame_def frame_def split: if_splits)
qed

text \<open>What a session sends, as it will be on the wire; \<open>pumps\<close> holds until a write of it fails.\<close>

abbreviation session_pumps :: "session \<Rightarrow> bool" where
  "session_pumps \<equiv> pump_ok sendQueue writing"

abbreviation wires :: "session \<Rightarrow> (fault + bytes) list" where
  "wires s \<equiv> map wire (sendQueue s)"

definition sent_frames :: "bool \<Rightarrow> (u16 \<times> string) option \<Rightarrow> bytes list" where
  "sent_frames room resp = (case resp of None \<Rightarrow> [] | Some x \<Rightarrow> if room then [ftp_frame x] else [])"

lemma push_node_frame:
  "recvMsg (push_node n s) = recvMsg s" "phase (push_node n s) = phase s"
  by (simp_all add: push_node_def Let_def)

lemma Send_view_effect:
  assumes net: "network_order net" and "Send_view net msg i s = Inr s'"
  shows "recvMsg s' = recvMsg s \<and> phase s' = phase s \<and>
    wires s' = wires s @ map Inr (sent_frames (send_room s) (Some (i, msg))) \<and> (session_pumps s \<longrightarrow> session_pumps s')"
proof (cases "send_room s")
  case True
  then obtain n where n: "SendNode net (bytes_of msg) (of_nat (length msg)) i = Inr n" and s': "s' = push_node n s"
    using assms(2) by (auto simp: Send_view_def Send_def send_room_def fault_iffs)
  have "session_pumps s \<longrightarrow> session_pumps s'"
    using session_pump.pump_ok_submit [of s n] True by (simp add: s' submit_node_def)
  then show ?thesis
    using True SendNode_wire [OF net n] by (simp add: s' push_node_frame sent_frames_def)
next
  case False
  with assms(2) show ?thesis by (simp add: Send_view_def Send_def send_room_def sent_frames_def)
qed

lemma respond_effect:
  assumes net: "network_order (env_net env)" and s: "sessions w a = Some s" and "respond env a resp w = Inr w'"
  shows "quiet a w w' \<and> files w' = files w \<and> (\<exists>s'. sessions w' a = Some s' \<and>
    recvMsg s' = recvMsg s \<and> phase s' = phase s \<and>
    wires s' = wires s @ map Inr (sent_frames (send_room s) resp) \<and> (session_pumps s \<longrightarrow> session_pumps s'))"
proof (cases resp)
  case None
  with assms show ?thesis by (simp add: respond_def sent_frames_def)
next
  case (Some x)
  obtain i msg where x: "x = (i, msg)" by (cases x)
  with assms Some obtain s' where s': "Send_view (env_net env) msg i s = Inr s'"
    and w': "w' = upd_session a (\<lambda>_. s') w"
    by (auto simp: respond_def session_Send_def fault_iffs)
  note S = Send_view_effect [OF net s']
  have "quiet a w w'"
    using S s by (auto simp: w' quiet_def recv_at_def body_at_def fun_eq_iff)
  moreover have "sessions w' a = Some s'" "files w' = files w" using s by (simp_all add: w')
  ultimately show ?thesis using S Some x by simp
qed

lemma dispatch_effect:
  assumes net: "network_order (env_net env)" and n: "nodes w m = Some n" and s: "sessions w a = Some s"
    and run: "dispatch env a m w = Inr w'"
  shows "\<exists>c resp s'. ftp_answer env (msgId n, node_data n) = Inr (c, resp) \<and> quiet a w w' \<and>
    files w' = store c (files w) \<and> sessions w' a = Some s' \<and> recvMsg s' = recvMsg s \<and> phase s' = phase s \<and>
    wires s' = wires s @ map Inr (sent_frames (send_room s) resp) \<and> (session_pumps s \<longrightarrow> session_pumps s')"
proof -
  obtain c resp w1 where ans: "ftp_answer env (msgId n, node_data n) = Inr (c, resp)"
    and w1: "respond env a resp (case c of None \<Rightarrow> w | Some (k, p, d) \<Rightarrow> write_chunk k p d w) = Inr w1" (is "respond _ _ _ ?v = _")
    and w': "w' = w1 \<or> w' = ClearHead a w1"
    using run by (auto simp: dispatch_answer [OF n] fault_iffs)
  define v where v: "v = ?v"
  note w1 = w1 [folded v]
  have v': "sessions v = sessions w" "quiet a w v" "files v = store c (files w)"
    by (auto simp: v write_chunk_store store_def intro: quiet_frame split: option.splits)
  obtain s1 where s1: "sessions w1 a = Some s1" "recvMsg s1 = recvMsg s" "phase s1 = phase s"
      "wires s1 = wires s @ map Inr (sent_frames (send_room s) resp)" "session_pumps s \<longrightarrow> session_pumps s1"
    and q: "quiet a v w1" "files w1 = files v"
    using respond_effect [OF net _ w1, of s] s v'(1) by auto
  have "quiet a w w'" using w' quiet_trans [OF quiet_trans [OF v'(2) q(1)] quiet_ClearHead] quiet_trans [OF v'(2) q(1)] by auto
  moreover have "\<exists>s'. sessions w' a = Some s' \<and> recvMsg s' = recvMsg s1 \<and> phase s' = phase s1 \<and>
      sendQueue s' = sendQueue s1 \<and> writing s' = writing s1"
    using w' s1(1) by (auto simp: ClearHead_def)
  then obtain s' where "sessions w' a = Some s'" "recvMsg s' = recvMsg s1" "phase s' = phase s1"
      "sendQueue s' = sendQueue s1" "writing s' = writing s1" by blast
  moreover have "files w' = files w1" using w' by (auto simp: ClearHead_def)
  ultimately show ?thesis
    using ans s1 v'(3) q(2) by (auto simp: pump_ok_def)
qed

text \<open>And when it can be done: the response's frame fits the 32-bit arithmetic.\<close>

definition answerable_msg :: "'j logic_env \<Rightarrow> u16 \<times> char_array \<Rightarrow> bool" where
  "answerable_msg env x =
     (case ftp_answer env x of Inl _ \<Rightarrow> False
      | Inr (c, None) \<Rightarrow> True
      | Inr (c, Some (i, resp)) \<Rightarrow> length resp + 7 < 2 ^ 32)"

end
