(* ===== verification/Ftp_Order.thy ===== *)
theory Ftp_Order
  imports Ftp_Steps
begin

text \<open>
  What the upload server promises each of its clients, whatever the others do: the steps of
  \<open>Ftp_Server\<close> with their labels, the history of a run as one client sees it, and an invariant that
  relates it to the client's session, its queued messages and the files. What the session must have
  made of the reads is said by \<open>hears_of\<close>, which knows of no nodes, queues or phases.
\<close>

subsection \<open>Steps with labels\<close>

text \<open>A read carries whether the logic queue was full, a completed write the node that was written and
  whether it failed, a service the message and whether the send queue had room.\<close>

datatype ftp_event =
    Ftp_accepts
  | Ftp_reads addr read_result bool
  | Ftp_writes addr msg_node bool
  | Ftp_serves addr msg_node bool

inductive ftp_step :: "'j logic_env \<Rightarrow> server_state \<Rightarrow> ftp_event \<Rightarrow> server_state \<Rightarrow> bool" for env where
  accepted: "acceptor s = Waiting \<Longrightarrow> accepting (srv_world s) = Some a \<Longrightarrow>
    ftp_step env s Ftp_accepts (s\<lparr>srv_world := accept_start a (srv_world s), acceptor := Started\<rparr>)"
| saved: "acceptor s = Started \<Longrightarrow> accepting (srv_world s) = Some a \<Longrightarrow>
    ftp_step env s Ftp_accepts (s\<lparr>srv_world := accept_save a (srv_world s), acceptor := Saved\<rparr>)"
| refused: "acceptor s = Waiting \<Longrightarrow> ftp_step env s Ftp_accepts (s\<lparr>acceptor := Refused\<rparr>)"
| next_accept: "acceptor s \<in> {Saved, Refused} \<Longrightarrow> accepting (srv_world s) = Some a \<Longrightarrow>
    fresh_id uuid (srv_world s) \<Longrightarrow> accept_next a uuid (srv_world s) = Inr w \<Longrightarrow>
    ftp_step env s Ftp_accepts (s\<lparr>srv_world := w, acceptor := Waiting\<rparr>)"
| received: "can_run (srv_world s) a \<Longrightarrow>
    sessions (srv_world s) a = Some ses \<Longrightarrow> phase ses \<in> {Reading_head, Reading_body} \<Longrightarrow>
    read_fits a (srv_world s) r \<Longrightarrow> co_step (env_net env) a r (srv_world s) = Inr w \<Longrightarrow>
    ftp_step env s (Ftp_reads a r (MAX_RECV_QUEUE_LEN \<le> length (msgQueue (srv_world s))))
      (s\<lparr>srv_world := release a w\<rparr>)"
| written: "can_run (srv_world s) a \<Longrightarrow>
    sessions (srv_world s) a = Some ses \<Longrightarrow> writing ses = Some n \<Longrightarrow>
    HandlerWrite a ec (srv_world s) = Inr w \<Longrightarrow>
    ftp_step env s (Ftp_writes a n ec) (s\<lparr>srv_world := release a w\<rparr>)"
| served: "msgQueue (srv_world s) = (a, m) # q \<Longrightarrow> nodes (srv_world s) m = Some n \<Longrightarrow>
    sessions (srv_world s) a = Some ses \<Longrightarrow> doWork env (srv_world s) = Inr w \<Longrightarrow>
    ftp_step env s (Ftp_serves a n (send_room ses)) (s\<lparr>srv_world := w\<rparr>)"

inductive ftp_run :: "'j logic_env \<Rightarrow> ftp_event list \<Rightarrow> server_state \<Rightarrow> bool" for env where
  server: "0 < n \<Longrightarrow> Server uuid (IOServicePool n) = Inr w \<Longrightarrow>
    ftp_run env [] \<lparr>srv_world = w, acceptor = Waiting\<rparr>"
| step: "ftp_run env es s \<Longrightarrow> ftp_step env s e s' \<Longrightarrow> ftp_run env (es @ [e]) s'"

text \<open>The labels add nothing: they name the steps of \<open>srv_step\<close>.\<close>

lemma ftp_step_srv: "ftp_step env s e s' \<Longrightarrow> srv_step env s s'"
  by (cases rule: ftp_step.cases) (auto intro: srv_step.intros)

lemma srv_step_ftp:
  assumes "srv_step env s s'" and "srv_inv s"
  shows "\<exists>e. ftp_step env s e s'"
  using assms(1)
proof (cases rule: srv_step.cases)
  case (served w)
  then obtain a m q where q: "msgQueue (srv_world s) = (a, m) # q"
    by (cases "msgQueue (srv_world s)") auto
  moreover obtain n where "nodes (srv_world s) m = Some n"
    using world_okD(4) [OF srv_invD(1) [OF assms(2)], of "(a, m)"] q by (auto simp: queued_ok_def split: option.splits)
  moreover obtain ses where "sessions (srv_world s) a = Some ses"
    using srv_invD(2) [OF assms(2)] q by (auto simp: queue_live_def)
  ultimately show ?thesis using ftp_step.served served by blast
qed (auto intro: ftp_step.intros)

lemma ftp_run_reach: "ftp_run env es s \<Longrightarrow> srv_reach env s"
  by (induction rule: ftp_run.induct) (auto intro: srv_reach.intros ftp_step_srv)

lemma srv_reach_run:
  assumes "srv_reach env s" and "json_throws (env_json env)"
  shows "\<exists>es. ftp_run env es s"
  using assms(1)
proof (induction rule: srv_reach.induct)
  case (server n uuid w)
  then show ?case by (blast intro: ftp_run.server)
next
  case (step s s')
  then show ?case using srv_step_ftp [OF step.hyps(2) srv_reach_inv [OF step.hyps(1) assms(2)]] ftp_run.step by blast
qed

subsection \<open>The history of one client\<close>

definition reads_of :: "addr \<Rightarrow> ftp_event list \<Rightarrow> (read_result \<times> bool) list" where
  "reads_of a es =
     concat (map (\<lambda>e. case e of Ftp_reads b r full \<Rightarrow> if b = a then [(r, full)] else [] | _ \<Rightarrow> []) es)"

definition writes_of :: "addr \<Rightarrow> ftp_event list \<Rightarrow> msg_node list" where
  "writes_of a es =
     concat (map (\<lambda>e. case e of Ftp_writes b n ec \<Rightarrow> if b = a \<and> \<not> ec then [n] else [] | _ \<Rightarrow> []) es)"

definition serves_of :: "addr \<Rightarrow> ftp_event list \<Rightarrow> (msg_node \<times> bool) list" where
  "serves_of a es =
     concat (map (\<lambda>e. case e of Ftp_serves b n room \<Rightarrow> if b = a then [(n, room)] else [] | _ \<Rightarrow> []) es)"

definition write_error :: "addr \<Rightarrow> ftp_event list \<Rightarrow> bool" where
  "write_error a es = (\<exists>n. Ftp_writes a n True \<in> set es)"

definition history :: "addr \<Rightarrow> ftp_event list \<Rightarrow>
    (read_result \<times> bool) list \<times> msg_node list \<times> (msg_node \<times> bool) list \<times> bool" where
  "history a es = (reads_of a es, writes_of a es, serves_of a es, write_error a es)"

lemma of_snoc [simp]:
  "reads_of a (es @ [e]) = reads_of a es @ (case e of Ftp_reads b r full \<Rightarrow> if b = a then [(r, full)] else [] | _ \<Rightarrow> [])"
  "writes_of a (es @ [e]) = writes_of a es @ (case e of Ftp_writes b n ec \<Rightarrow> if b = a \<and> \<not> ec then [n] else [] | _ \<Rightarrow> [])"
  "serves_of a (es @ [e]) = serves_of a es @ (case e of Ftp_serves b n room \<Rightarrow> if b = a then [(n, room)] else [] | _ \<Rightarrow> [])"
  "write_error a (es @ [e]) = (write_error a es \<or> (\<exists>n. e = Ftp_writes a n True))"
  by (auto simp: reads_of_def writes_of_def serves_of_def write_error_def)

lemma of_Nil [simp]: "reads_of a [] = []" "writes_of a [] = []" "serves_of a [] = []" "\<not> write_error a []"
  by (simp_all add: reads_of_def writes_of_def serves_of_def write_error_def)

fun actor :: "ftp_event \<Rightarrow> addr option" where
  "actor Ftp_accepts = None"
| "actor (Ftp_reads a r full) = Some a"
| "actor (Ftp_writes a n ec) = Some a"
| "actor (Ftp_serves a n room) = Some a"

lemma history_other [simp]: "actor e \<noteq> Some c \<Longrightarrow> history c (es @ [e]) = history c es"
  by (cases e) (auto simp: history_def)

text \<open>The messages in what arrives: a head within the limit, then the whole of its body. A message is
  lost when the logic queue is full as it completes. A read that fails and a body of length 0 end
  what is heard; a head beyond the limit leaves no result.\<close>

datatype hearing = Between | In_body u16 | Ended

fun hears_of :: "read_result \<times> bool \<Rightarrow> hearing \<times> (u16 \<times> bytes) list \<Rightarrow> (hearing \<times> (u16 \<times> bytes) list) option" where
  "hears_of (Read_failed, full) (p, ms) = Some (Ended, ms)"
| "hears_of (Read_bytes bs, full) (Between, ms) =
     (if snd (head_of bs) \<le> MAX_LEN then Some (In_body (fst (head_of bs)), ms) else None)"
| "hears_of (Read_bytes bs, full) (In_body i, ms) =
     Some (if bs = [] then (Ended, ms) else (Between, if full then ms else ms @ [(i, bs)]))"
| "hears_of (Read_bytes bs, full) (Ended, ms) = None"

definition heard_of :: "addr \<Rightarrow> ftp_event list \<Rightarrow> (hearing \<times> (u16 \<times> bytes) list) option" where
  "heard_of a es = fold (\<lambda>x v. Option.bind v (hears_of x)) (reads_of a es) (Some (Between, []))"

text \<open>A node as a message, a message as the node holds it, and the messages queued for a session.\<close>

definition node_text :: "msg_node \<Rightarrow> u16 \<times> char_array" where
  "node_text n = (msgId n, node_data n)"

definition terminated :: "u16 \<times> bytes \<Rightarrow> u16 \<times> char_array" where
  "terminated = (\<lambda>(i, bs). (i, map Some (bs @ [0])))"

definition queued_texts :: "ftp_world \<Rightarrow> addr \<Rightarrow> (u16 \<times> char_array) option list" where
  "queued_texts w a = map (\<lambda>(b, m). map_option node_text (nodes w m)) (entries w a)"

text \<open>The frames that answer the served messages, those for a full send queue left out; and what all
  services together, in their order, have made of the files.\<close>

definition ftp_reply :: "'j logic_env \<Rightarrow> msg_node \<times> bool \<Rightarrow> bytes list" where
  "ftp_reply env = (\<lambda>(n, room).
     (case ftp_answer env (node_text n) of Inl _ \<Rightarrow> [] | Inr (c, resp) \<Rightarrow> sent_frames room resp))"

definition ftp_replies :: "'j logic_env \<Rightarrow> (msg_node \<times> bool) list \<Rightarrow> bytes list" where
  "ftp_replies env ss = concat (map (ftp_reply env) ss)"

fun stores :: "'j logic_env \<Rightarrow> ftp_event \<Rightarrow> (string \<rightharpoonup> string) \<Rightarrow> (string \<rightharpoonup> string)" where
  "stores env (Ftp_serves a n room) f =
     (case ftp_answer env (node_text n) of Inl _ \<Rightarrow> f | Inr (c, resp) \<Rightarrow> store c f)"
| "stores env _ f = f"

definition stored :: "'j logic_env \<Rightarrow> ftp_event list \<Rightarrow> (string \<rightharpoonup> string)" where
  "stored env es = fold (stores env) es Map.empty"

lemma stored_snoc [simp]: "stored env [] = Map.empty" "stored env (es @ [e]) = stores env e (stored env es)"
  by (simp_all add: stored_def)

lemma ftp_replies_snoc [simp]: "ftp_replies env [] = []" "ftp_replies env (ss @ [s]) = ftp_replies env ss @ ftp_reply env s"
  by (simp_all add: ftp_replies_def)

lemma heard_of_read:
  "heard_of a (es @ [Ftp_reads a r full]) = Option.bind (heard_of a es) (hears_of (r, full))"
  by (simp add: heard_of_def)

subsection \<open>The invariant of one client\<close>

definition hearing_at :: "ftp_world \<Rightarrow> addr \<Rightarrow> session \<Rightarrow> hearing \<Rightarrow> bool" where
  "hearing_at w a s p =
     (case p of Between \<Rightarrow> phase s \<in> {Not_started, Reading_head}
      | Ended \<Rightarrow> phase s = Finished
      | In_body i \<Rightarrow> phase s = Reading_body \<and>
          (\<exists>m x. recvMsg s = Some m \<and> (a, m) \<notin> set (entries w a) \<and> body_at w m = Some x \<and> fst x = i))"

definition kept_sent :: "'j logic_env \<Rightarrow> ftp_event list \<Rightarrow> addr \<Rightarrow> session option \<Rightarrow> bool" where
  "kept_sent env es a so =
     (case so of
        None \<Rightarrow> \<not> write_error a es \<longrightarrow> map wire (writes_of a es) = map Inr (ftp_replies env (serves_of a es))
      | Some s \<Rightarrow> map wire (writes_of a es) @ wires s = map Inr (ftp_replies env (serves_of a es)) \<and>
          (\<not> write_error a es \<longrightarrow> session_pumps s))"

definition kept_heard :: "ftp_event list \<Rightarrow> addr \<Rightarrow> ftp_world \<Rightarrow> bool" where
  "kept_heard es a w =
     (\<forall>p ms. heard_of a es = Some (p, ms) \<longrightarrow>
        (\<forall>s. sessions w a = Some s \<longrightarrow> hearing_at w a s p) \<and>
        map (Some \<circ> node_text \<circ> fst) (serves_of a es) @ queued_texts w a = map (Some \<circ> terminated) ms)"

definition ftp_kept :: "'j logic_env \<Rightarrow> ftp_event list \<Rightarrow> ftp_world \<Rightarrow> addr \<Rightarrow> bool" where
  "ftp_kept env es w a = (kept_sent env es a (sessions w a) \<and> kept_heard es a w)"

lemma text_at: "map_option node_text (nodes w m) = map_option (\<lambda>(i, t, d). (i, d)) (body_at w m)"
  by (simp add: body_at_def node_text_def [abs_def] option.map_comp o_def)

lemma queued_texts_body:
  "queued_texts w a = map (\<lambda>x. map_option (\<lambda>(i, t, d). (i, d)) (body_at w (snd x))) (entries w a)"
  by (simp add: queued_texts_def text_at case_prod_beta)

lemma queued_texts_cong:
  assumes "entries w' a = entries w a" and "\<And>m. (a, m) \<in> set (entries w a) \<Longrightarrow> body_at w' m = body_at w m"
  shows "queued_texts w' a = queued_texts w a"
proof -
  have "body_at w' (snd x) = body_at w (snd x)" if "x \<in> set (entries w a)" for x
    using assms(2) [of "snd x"] that by (auto simp: entries_def)
  then show ?thesis by (simp add: queued_texts_body assms(1))
qed

lemma history_heard: "history a es' = history a es \<Longrightarrow> reads_of a es' = reads_of a es \<and> serves_of a es' = serves_of a es"
  by (simp add: history_def)

lemma kept_sent_history: "history a es' = history a es \<Longrightarrow> kept_sent env es' a = kept_sent env es a"
  by (simp add: kept_sent_def history_def fun_eq_iff split: option.split)

lemma kept_heardD:
  assumes "kept_heard es a w" and "heard_of a es = Some (p, ms)"
  shows "sessions w a = Some s \<Longrightarrow> hearing_at w a s p"
    and "map (Some \<circ> node_text \<circ> fst) (serves_of a es) @ queued_texts w a = map (Some \<circ> terminated) ms"
  using assms by (auto simp: kept_heard_def)

text \<open>A client's invariant looks at its session, its entries and the nodes that belong to it.\<close>

lemma kept_heard_cong:
  assumes "reads_of a es' = reads_of a es \<and> serves_of a es' = serves_of a es" and "entries w' a = entries w a"
    and "\<And>m. belongs w a m \<Longrightarrow> body_at w' m = body_at w m"
    and "\<And>s'. sessions w' a = Some s' \<Longrightarrow> \<exists>s. sessions w a = Some s \<and> phase s' = phase s \<and> recvMsg s' = recvMsg s"
    and "kept_heard es a w"
  shows "kept_heard es' a w'"
  unfolding kept_heard_def
proof (intro allI impI)
  fix p ms assume "heard_of a es' = Some (p, ms)"
  then have h: "heard_of a es = Some (p, ms)" using assms(1) by (simp add: heard_of_def)
  have "queued_texts w' a = queued_texts w a"
    using assms(2,3) by (intro queued_texts_cong) (simp_all add: belongs_entries)
  moreover have "serves_of a es' = serves_of a es" using assms(1) by simp
  moreover have "hearing_at w' a s' p" if s': "sessions w' a = Some s'" for s'
  proof -
    obtain s where s: "sessions w a = Some s" "phase s' = phase s" "recvMsg s' = recvMsg s"
      using assms(4) [OF s'] by blast
    have "body_at w' m = body_at w m" if "recvMsg s = Some m" for m
      using assms(3) [of m] s(1) that by (simp add: belongs_def)
    with kept_heardD(1) [OF assms(5) h s(1)] show ?thesis
      by (auto simp: hearing_at_def s(2,3) assms(2) split: hearing.splits)
  qed
  ultimately show "(\<forall>s. sessions w' a = Some s \<longrightarrow> hearing_at w' a s p) \<and>
      map (Some \<circ> node_text \<circ> fst) (serves_of a es') @ queued_texts w' a = map (Some \<circ> terminated) ms"
    using kept_heardD(2) [OF assms(5) h] by simp
qed

text \<open>The step of another session.\<close>

lemma ftp_kept_other:
  assumes step: "own_step b w w'" and w: "nodes_disjoint w" "world_ok w" and "a \<noteq> b"
    and h: "history a es' = history a es" and kept: "ftp_kept env es w a"
  shows "ftp_kept env es' w' a"
proof -
  note O = own_stepD(1,2) [OF step assms(4)]
  have "kept_heard es' a w'"
  proof (rule kept_heard_cong [OF history_heard [OF h]])
    show "body_at w' m = body_at w m" if "belongs w a m" for m
      by (rule own_step_leaves [OF step w assms(4) that])
  qed (use O kept in \<open>auto simp: ftp_kept_def\<close>)
  with kept O(1) show ?thesis by (simp add: ftp_kept_def kept_sent_history [OF h])
qed

text \<open>A step of its own that hears nothing, serves nothing and sends nothing.\<close>

lemma ftp_kept_quiet:
  assumes "quiet a w w'" and h: "history a es' = history a es" and kept: "ftp_kept env es w a"
    and s: "sessions w a = Some s" "sessions w' a = Some s'"
    and same: "phase s' = phase s" "recvMsg s' = recvMsg s" "sendQueue s' = sendQueue s" "writing s' = writing s"
  shows "ftp_kept env es' w' a"
proof -
  note Q = quietD [OF assms(1)]
  have "kept_heard es' a w'"
    by (rule kept_heard_cong [OF history_heard [OF h], of w' w]) (use s same Q kept in \<open>auto simp: entries_def ftp_kept_def\<close>)
  moreover have "kept_sent env es a (Some s) \<Longrightarrow> kept_sent env es a (Some s')"
    using same by (simp add: kept_sent_def pump_ok_def)
  ultimately show ?thesis using kept s by (simp add: ftp_kept_def kept_sent_history [OF h])
qed

text \<open>The end of a session: nothing owned it, so all it was sent is served, and written unless a
  write failed.\<close>

lemma kept_release:
  assumes kept: "ftp_kept env es w a"
  shows "ftp_kept env es (release b w) a"
proof (cases "a = b \<and> \<not> owned b w \<and> sessions w a \<noteq> None")
  case False
  note Q = quietD [OF quiet_release [of b w]]
  have s: "sessions (release b w) a = sessions w a"
    using False Q(1) [of a] by (auto simp: release_def sessions_Session_dtor)
  have "kept_heard es a (release b w)"
    by (rule kept_heard_cong [of a es es _ w]) (use kept Q s in \<open>auto simp: entries_def ftp_kept_def\<close>)
  with s show ?thesis using kept by (simp add: ftp_kept_def)
next
  case True
  then obtain s where s: "sessions w a = Some s" "\<not> owned a w" by auto
  then have "writing s = None" "entries w a = []" by (auto simp: owned_def entries_def filter_empty_conv)
  then have "kept_sent env es a None"
    using kept s(1) by (auto simp: ftp_kept_def kept_sent_def pump_ok_def split: list.splits)
  moreover have "entries (release b w) a = []" "entries w a = []"
    using \<open>entries w a = []\<close> by (simp_all add: entries_def)
  then have "queued_texts (release b w) a = queued_texts w a" by (simp add: queued_texts_def)
  then have "kept_heard es a (release b w)"
    using kept True by (auto simp: kept_heard_def ftp_kept_def release_def sessions_Session_dtor)
  ultimately show ?thesis using True by (simp add: ftp_kept_def release_def sessions_Session_dtor)
qed

subsection \<open>A read\<close>

lemma hearing_phase:
  "hearing_at w a s p \<Longrightarrow> phase s = Reading_head \<Longrightarrow> p = Between"
  "hearing_at w a s p \<Longrightarrow> phase s = Reading_body \<Longrightarrow> \<exists>i. p = In_body i"
  by (cases p; simp add: hearing_at_def)+

lemma heard_end:
  assumes q: "quiet a w w'" and r: "r = Read_failed \<or> phase s = Reading_body \<and> r = Read_bytes []"
    and s': "sessions w' a = Some s'" "phase s' = Finished"
    and p: "hearing_at w a s p" "hears_of (r, full) (p, ms) = Some (p', ms')"
  shows "hearing_at w' a s' p' \<and> ms' = ms \<and> queued_texts w' a = queued_texts w a"
proof -
  have "p' = Ended \<and> ms' = ms"
    using r p(2) hearing_phase(2) [OF p(1)] by auto
  moreover have "queued_texts w' a = queued_texts w a"
    using quietD [OF q] by (simp add: queued_texts_body entries_def)
  ultimately show ?thesis using s' by (simp add: hearing_at_def)
qed

lemma heard_head:
  assumes w: "world_ok w" and s: "sessions w a = Some s" "phase s = Reading_head"
    and r: "r = Read_bytes bs" "head_of bs = (i, len)" "len \<le> MAX_LEN"
    and w': "w' = upd_session a (\<lambda>s. s\<lparr>recvHead := h, recvMsg := Some (next_node w), phase := Reading_body\<rparr>)
      (w\<lparr>nodes := (nodes w)(next_node w \<mapsto> RecvNode len i), next_node := next_node w + 1\<rparr>)"
    and p: "hearing_at w a s p" "hears_of (r, full) (p, ms) = Some (p', ms')"
  shows "hearing_at w' a (s\<lparr>recvHead := h, recvMsg := Some (next_node w), phase := Reading_body\<rparr>) p' \<and>
    ms' = ms \<and> queued_texts w' a = queued_texts w a"
proof -
  have p': "p' = In_body i \<and> ms' = ms" using p(2) hearing_phase(1) [OF p(1) s(2)] r by simp
  have below: "m < next_node w" if "(a, m) \<in> set (entries w a)" for m
    using belongs_below(1) [OF w, of a m] that by (simp add: belongs_entries)
  have e: "entries w' a = entries w a" by (simp add: entries_def w')
  have "body_at w' m = body_at w m" if "(a, m) \<in> set (entries w a)" for m
    using below [OF that] by (simp add: body_at_def w')
  then have "queued_texts w' a = queued_texts w a" by (intro queued_texts_cong e)
  moreover have "body_at w' (next_node w) = Some (i, len, node_data (RecvNode len i))"
    by (simp add: body_at_def w' RecvNode_def MsgNode_def)
  ultimately show ?thesis using p' e below by (auto simp: hearing_at_def)
qed

lemma heard_body:
  assumes s: "phase s = Reading_body" "recvMsg s = Some m" "nodes w m = Some n"
    and r: "r = Read_bytes bs" "bs \<noteq> []"
    and w': "w' = read_head a (PostMsgToQue (a, m) (upd_node m (n\<lparr>node_data := map Some (bs @ [0])\<rparr>) w))"
    and p: "hearing_at w a s p" "hears_of (r, MAX_RECV_QUEUE_LEN \<le> length (msgQueue w)) (p, ms) = Some (p', ms')"
  shows "hearing_at w' a (s\<lparr>phase := Reading_head\<rparr>) p' \<and>
    (\<exists>new. ms' = ms @ new \<and> queued_texts w' a = queued_texts w a @ map (Some \<circ> terminated) new)"
proof -
  obtain i where i: "p = In_body i" using hearing_phase(2) [OF p(1) s(1)] by blast
  then have m: "(a, m) \<notin> set (entries w a)" "msgId n = i"
    using p(1) s(2,3) by (auto simp: hearing_at_def body_at_def)
  let ?new = "if MAX_RECV_QUEUE_LEN \<le> length (msgQueue w) then [] else [(i, bs)]"
  have p': "p' = Between" "ms' = ms @ ?new" using p(2) i r by (auto split: if_splits)
  have e: "entries w' a = entries w a @ (if MAX_RECV_QUEUE_LEN \<le> length (msgQueue w) then [] else [(a, m)])"
    by (simp add: entries_def w' read_head_def msgQueue_Post not_le)
  have old: "body_at w' k = body_at w k" if "k \<noteq> m" for k
    using that by (simp add: body_at_def w' read_head_def)
  have new: "body_at w' m = Some (i, totalLen n, map Some (bs @ [0]))"
    by (simp add: body_at_def w' read_head_def m(2))
  have "body_at w' (snd x) = body_at w (snd x)" if "x \<in> set (entries w a)" for x
    using old [of "snd x"] m(1) that by (cases x) (auto simp: entries_def)
  then have "queued_texts w' a = queued_texts w a @ map (Some \<circ> terminated) ?new"
    by (simp add: queued_texts_body e new terminated_def)
  with p' show ?thesis by (auto simp: hearing_at_def)
qed

lemma kept_sent_read:
  "kept_sent env es a (Some s) \<Longrightarrow> sendQueue s' = sendQueue s \<Longrightarrow> writing s' = writing s \<Longrightarrow>
     kept_sent env (es @ [Ftp_reads b r full]) a (Some s')"
  by (simp add: kept_sent_def pump_ok_def)

lemma kept_read_by:
  assumes kept: "ftp_kept env es w a" and s: "sessions w a = Some s"
    and s': "sessions w' a = Some s'" "sendQueue s' = sendQueue s" "writing s' = writing s"
    and heard: "\<And>p ms p' ms'. hearing_at w a s p \<Longrightarrow> hears_of (r, full) (p, ms) = Some (p', ms') \<Longrightarrow>
      hearing_at w' a s' p' \<and> (\<exists>new. ms' = ms @ new \<and>
        queued_texts w' a = queued_texts w a @ map (Some \<circ> terminated) new)"
  shows "ftp_kept env (es @ [Ftp_reads a r full]) w' a" (is "ftp_kept env ?es w' a")
proof -
  have "kept_sent env ?es a (Some s')"
    using kept s s' by (intro kept_sent_read [of env es a s]) (simp_all add: ftp_kept_def)
  moreover have "kept_heard ?es a w'"
    unfolding kept_heard_def
  proof (intro allI impI)
    fix p' ms' assume "heard_of a ?es = Some (p', ms')"
    then obtain p ms where h: "heard_of a es = Some (p, ms)" "hears_of (r, full) (p, ms) = Some (p', ms')"
      by (auto simp: heard_of_read bind_eq_Some_conv)
    have k: "kept_heard es a w" using kept by (simp add: ftp_kept_def)
    from heard [OF kept_heardD(1) [OF k h(1) s] h(2)] kept_heardD(2) [OF k h(1)] s'(1)
    show "(\<forall>s. sessions w' a = Some s \<longrightarrow> hearing_at w' a s p') \<and>
      map (Some \<circ> node_text \<circ> fst) (serves_of a ?es) @ queued_texts w' a = map (Some \<circ> terminated) ms'"
      by auto
  qed
  ultimately show ?thesis using s'(1) by (simp add: ftp_kept_def)
qed

lemma ftp_kept_received:
  assumes net: "network_order net" and w: "world_ok w" and s: "sessions w a = Some s"
    and ph: "phase s \<in> {Reading_head, Reading_body}" and fits: "read_fits a w r"
    and step: "co_step net a r w = Inr w'" and kept: "ftp_kept env es w a"
  shows "ftp_kept env (es @ [Ftp_reads a r (MAX_RECV_QUEUE_LEN \<le> length (msgQueue w))]) w' a"
proof -
  show ?thesis
    using net w s ph fits step
  proof (cases rule: co_step_cases)
    case ended
    have q: "quiet a w w'" using ended(2) quiet_catch quiet_disconnected by auto
    obtain s' where s': "sessions w' a = Some s'" "phase s' = Finished" "sendQueue s' = sendQueue s" "writing s' = writing s"
      using ended(2) s by (auto simp: co_catch_def co_disconnected_def finish_def Clear_def ClearHead_def)
    show ?thesis
      using heard_end [OF q ended(1) s'(1,2)] by (intro kept_read_by [OF kept s s'(1,3,4)]) auto
  next
    case (head bs i len h)
    have "sessions w' a = Some (s\<lparr>recvHead := h, recvMsg := Some (next_node w), phase := Reading_body\<rparr>)"
      using s by (simp add: head(5))
    from kept_read_by [OF kept s this] heard_head [OF w s head(2,1,3,4,5)] show ?thesis by fastforce
  next
    case (refused bs i len h)
    have s': "sessions w' a = Some (s\<lparr>recvHead := h, phase := Reading_body\<rparr>)" using s by (simp add: refused(5))
    have "hears_of (r, full) (p, ms) = None" if "hearing_at w a s p" for p ms full
      using hearing_phase(1) [OF that refused(2)] refused(1,3,4) by simp
    then show ?thesis by (intro kept_read_by [OF kept s s']) simp_all
  next
    case (body bs m n)
    have "sessions w' a = Some (s\<lparr>phase := Reading_head\<rparr>)" using s by (simp add: body(7) read_head_def)
    from kept_read_by [OF kept s this] heard_body [OF body(3-5,1,2,7)] show ?thesis by simp
  qed
qed

subsection \<open>A completed write, a service, an accept\<close>

lemma ftp_kept_written:
  assumes w: "world_ok w" and s: "sessions w a = Some s" "writing s = Some n"
    and step: "HandlerWrite a ec w = Inr w'" and kept: "ftp_kept env es w a"
  shows "ftp_kept env (es @ [Ftp_writes a n ec]) w' a"
proof -
  obtain ns where q: "sendQueue s = n # ns"
    using world_okD(3) [OF w s(1)] s(2) by (cases "sendQueue s") (auto simp: session_ok_def)
  have s': "sessions w' a = Some (if ec then write_failed s else write_next s)"
    using step s by (auto simp: HandlerWrite_def split: if_splits)
  have "session_pumps (write_next s)" using session_pump.pump_ok_serve [of s] q by simp
  then have "kept_sent env (es @ [Ftp_writes a n ec]) a (sessions w' a)"
    using kept s(1) q
    by (auto simp: s' ftp_kept_def kept_sent_def write_failed_def write_next_def Let_def)
  moreover have "kept_heard (es @ [Ftp_writes a n ec]) a w'"
    by (rule kept_heard_cong [of a _ es _ w])
      (use quietD [OF quiet_HandlerWrite [OF step]] kept s(1) in \<open>auto simp: s' entries_def ftp_kept_def\<close>)
  ultimately show ?thesis by (simp add: ftp_kept_def)
qed

lemma ftp_kept_served:
  assumes net: "network_order (env_net env)" and q: "msgQueue w = (a, m) # q" and n: "nodes w m = Some n"
    and s: "sessions w a = Some s" and run: "dispatch env a m (pop_msg w) = Inr v" and kept: "ftp_kept env es w a"
  shows "ftp_kept env (es @ [Ftp_serves a n (send_room s)]) v a \<and> own_step a w v \<and>
    files v = stores env (Ftp_serves a n (send_room s)) (files w) \<and>
    (\<exists>s'. sessions v a = Some s' \<and> phase s' = phase s)"
proof -
  let ?es = "es @ [Ftp_serves a n (send_room s)]"
  have pop: "nodes (pop_msg w) m = Some n" "sessions (pop_msg w) a = Some s" "files (pop_msg w) = files w"
    using n s by (simp_all add: pop_msg_def)
  obtain c resp s' where ans: "ftp_answer env (msgId n, node_data n) = Inr (c, resp)"
    and v: "quiet a (pop_msg w) v" "files v = store c (files w)"
    and s': "sessions v a = Some s'" "recvMsg s' = recvMsg s" "phase s' = phase s"
      "wires s' = wires s @ map Inr (sent_frames (send_room s) resp)" "session_pumps s \<longrightarrow> session_pumps s'"
    using dispatch_effect [OF net pop(1,2) run] by (auto simp: pop(3))
  have reply: "ftp_reply env (n, send_room s) = sent_frames (send_room s) resp"
    by (simp add: ftp_reply_def node_text_def ans)
  have "kept_sent env ?es a (Some s')"
    using kept s s'(4,5) by (auto simp: ftp_kept_def kept_sent_def reply)
  moreover have e: "entries w a = (a, m) # entries v a"
    using quietD(2) [OF v(1)] q by (simp add: entries_def pop_msg_def)
  have body: "body_at v = body_at w" using quietD(4) [OF v(1)] by simp
  have texts: "queued_texts w a = Some (node_text n) # queued_texts v a"
    unfolding queued_texts_body e body using n by (simp add: body_at_def node_text_def)
  have "kept_heard ?es a v"
    unfolding kept_heard_def
  proof (intro allI impI)
    fix p ms assume "heard_of a ?es = Some (p, ms)"
    then have h: "heard_of a es = Some (p, ms)" by (simp add: heard_of_def)
    have k: "kept_heard es a w" using kept by (simp add: ftp_kept_def)
    have "hearing_at v a s' p"
      using kept_heardD(1) [OF k h s] s'(2,3) e by (auto simp: hearing_at_def body split: hearing.splits)
    with kept_heardD(2) [OF k h] s'(1) texts
    show "(\<forall>s. sessions v a = Some s \<longrightarrow> hearing_at v a s p) \<and>
      map (Some \<circ> node_text \<circ> fst) (serves_of a ?es) @ queued_texts v a = map (Some \<circ> terminated) ms"
      by simp
  qed
  moreover have "own_step a w v" by (rule own_step_trans [OF own_step_pop [OF q] quiet_own_step [OF v(1)]])
  moreover have "files v = stores env (Ftp_serves a n (send_room s)) (files w)"
    by (simp add: v(2) node_text_def ans)
  ultimately show ?thesis using s'(1,3) by (simp add: ftp_kept_def)
qed

lemma kept_started:
  assumes s: "sessions w a = Some s" "phase s = Not_started" and kept: "ftp_kept env es w a"
  shows "ftp_kept env (es @ [Ftp_accepts]) (accept_start a w) a"
proof -
  note Q = quietD [OF quiet_accept_start [of a w]]
  obtain s' where s': "sessions (accept_start a w) a = Some s'" "phase s' = Reading_head"
      "sendQueue s' = sendQueue s" "writing s' = writing s"
    using s(1) by (auto simp: accept_start_def Start_def Clear_def ClearHead_def)
  have "kept_sent env (es @ [Ftp_accepts]) a (Some s')"
    using kept s s' by (simp add: ftp_kept_def kept_sent_def pump_ok_def)
  moreover have "kept_heard (es @ [Ftp_accepts]) a (accept_start a w)"
    unfolding kept_heard_def
  proof (intro allI impI)
    fix p ms assume "heard_of a (es @ [Ftp_accepts]) = Some (p, ms)"
    then have h: "heard_of a es = Some (p, ms)" by (simp add: heard_of_def)
    have k: "kept_heard es a w" using kept by (simp add: ftp_kept_def)
    have "p = Between"
      using kept_heardD(1) [OF k h s(1)] s(2) by (cases p) (simp_all add: hearing_at_def)
    moreover have "queued_texts (accept_start a w) a = queued_texts w a"
      using Q by (simp add: queued_texts_body entries_def)
    ultimately show "(\<forall>s. sessions (accept_start a w) a = Some s \<longrightarrow> hearing_at (accept_start a w) a s p) \<and>
      map (Some \<circ> node_text \<circ> fst) (serves_of a (es @ [Ftp_accepts])) @ queued_texts (accept_start a w) a =
        map (Some \<circ> terminated) ms"
      using kept_heardD(2) [OF k h] s' by (simp add: hearing_at_def)
  qed
  ultimately show ?thesis using s'(1) by (simp add: ftp_kept_def)
qed

lemma kept_new:
  assumes start: "StartAccept uuid w = Inr w'" and live: "queue_live w" and reg: "registry_ok w"
    and none: "history (next_session w) es = ([], [], [], False)"
  shows "ftp_kept env es w' (next_session w)"
proof -
  let ?a = "next_session w"
  obtain ioc p where w': "w' = w\<lparr>pool := p, sessions := (sessions w)(?a \<mapsto> Session uuid ioc),
      accepting := Some ?a, next_session := ?a + 1\<rparr>"
    using StartAccept_Inr [OF start] by blast
  have h: "reads_of ?a es = []" "writes_of ?a es = []" "serves_of ?a es = []"
    using none by (simp_all add: history_def)
  have "sessions w ?a = None"
    using registry_okD(4) [OF reg, of ?a] by (cases "sessions w ?a") (auto simp: ident_def)
  then have "entries w' ?a = []" using live by (auto simp: entries_def queue_live_def w' filter_empty_conv)
  then have "kept_heard es ?a w'"
    by (simp add: kept_heard_def h heard_of_def queued_texts_def w' hearing_at_def Session_def)
  moreover have "kept_sent env es ?a (sessions w' ?a)"
    using pump_ok_Session [of uuid ioc] by (simp add: kept_sent_def h w') (simp add: Session_def)
  ultimately show ?thesis by (simp add: ftp_kept_def)
qed

subsection \<open>All clients\<close>

text \<open>While the acceptor waits, the session it holds ready has not started; an address not yet given to
  a session has no history.\<close>

definition accept_ready :: "ftp_world \<Rightarrow> bool" where
  "accept_ready w = (\<forall>a s. accepting w = Some a \<longrightarrow> sessions w a = Some s \<longrightarrow> phase s = Not_started)"

definition ftp_ordered :: "'j logic_env \<Rightarrow> ftp_event list \<Rightarrow> server_state \<Rightarrow> bool" where
  "ftp_ordered env es st =
     (let w = srv_world st in
      nodes_disjoint w \<and> (\<forall>a. ftp_kept env es w a) \<and> files w = stored env es \<and>
      (\<forall>a\<ge>next_session w. history a es = ([], [], [], False)) \<and>
      (acceptor st = Waiting \<longrightarrow> accept_ready w))"

lemma ftp_orderedD:
  assumes "ftp_ordered env es st"
  shows "nodes_disjoint (srv_world st)" "ftp_kept env es (srv_world st) a" "files (srv_world st) = stored env es"
    "next_session (srv_world st) \<le> a \<Longrightarrow> history a es = ([], [], [], False)"
    "acceptor st = Waiting \<Longrightarrow> accept_ready (srv_world st)"
  using assms by (simp_all add: ftp_ordered_def Let_def)

text \<open>A step of one session, and the release of one.\<close>

lemma ordered_by:
  assumes ord: "ftp_ordered env es st" and w: "world_ok (srv_world st)" and step: "own_step a (srv_world st) v"
    and kept: "ftp_kept env (es @ [e]) v a" and e: "actor e = None \<or> actor e = Some a \<and> a < next_session (srv_world st)"
    and f: "files v = stored env (es @ [e])" and n: "next_session (srv_world st) \<le> next_session v"
    and st': "srv_world st' = release b v" "acceptor st' = Waiting \<Longrightarrow> accept_ready (release b v)"
  shows "ftp_ordered env (es @ [e]) st'"
proof -
  note O = ftp_orderedD [OF ord]
  have v: "ftp_kept env (es @ [e]) v c" for c
  proof (cases "c = a")
    case False
    then have "history c (es @ [e]) = history c es" using e by auto
    from ftp_kept_other [OF step O(1) w False this O(2)] show ?thesis .
  qed (simp add: kept)
  have dis: "nodes_disjoint v" by (rule own_step_disjoint [OF step O(1) w])
  then have "nodes_disjoint (release b v)"
    using quietD(2) [OF quiet_release [of b v]] quiet_release [of b v]
    unfolding nodes_disjoint_def belongs_def by (auto simp: release_def recv_at_def sessions_Session_dtor split: if_splits)
  moreover have "history c (es @ [e]) = ([], [], [], False)" if "next_session v \<le> c" for c
  proof -
    have "history c (es @ [e]) = history c es" using that e n by (intro history_other) auto
    then show ?thesis using O(4) that n by simp
  qed
  moreover have "ftp_kept env (es @ [e]) (release b v) c" for c by (rule kept_release [OF v])
  ultimately show ?thesis
    using f st' unfolding ftp_ordered_def Let_def by auto
qed

lemma release_accepting: "accepting w = Some a \<Longrightarrow> release a w = w"
  by (simp add: release_def owned_def)

lemma accept_ready_release: "accept_ready w \<Longrightarrow> accept_ready (release a w)"
  by (auto simp: accept_ready_def release_def sessions_Session_dtor)

lemma accept_ready_step:
  assumes "accept_ready w" and "own_step a w v" and "accepting v = accepting w"
    and "\<And>s s'. sessions w a = Some s \<Longrightarrow> sessions v a = Some s' \<Longrightarrow> phase s = Not_started \<Longrightarrow> phase s' = Not_started"
    and "sessions w a \<noteq> None"
  shows "accept_ready (release b v)"
proof (rule accept_ready_release, unfold accept_ready_def, intro allI impI)
  fix c s' assume c: "accepting v = Some c" "sessions v c = Some s'"
  show "phase s' = Not_started"
  proof (cases "c = a")
    case True
    obtain s where s: "sessions w a = Some s" using assms(5) by blast
    moreover have "accepting w = Some a" using assms(3) c(1) True by simp
    ultimately have "phase s = Not_started" using assms(1) by (simp add: accept_ready_def)
    with assms(4) [OF s] c(2) True show ?thesis by simp
  next
    case False
    then have "sessions w c = Some s'" using own_stepD(1) [OF assms(2) False] c(2) by simp
    moreover have "accepting w = Some c" using c(1) unfolding assms(3) .
    ultimately show ?thesis using assms(1) by (simp add: accept_ready_def)
  qed
qed

lemma touches_next_session: "touches a w w' \<Longrightarrow> next_session w' = next_session w \<and> accepting w' = accepting w"
  by (simp add: touches_def)

lemma session_below:
  assumes "registry_ok w" and "sessions w a = Some s"
  shows "a < next_session w"
  using registry_okD(4) [OF assms(1), of a] assms(2) by (simp add: ident_def)

lemma files_co_step:
  assumes "network_order net" "world_ok w" "sessions w a = Some s" "phase s \<in> {Reading_head, Reading_body}"
    "read_fits a w r" "co_step net a r w = Inr w'"
  shows "files w' = files w"
  using assms
  by (cases rule: co_step_cases)
    (auto simp: co_catch_def co_disconnected_def finish_def Clear_def ClearHead_def read_head_def)

text \<open>A step of the accepted session, which the acceptor keeps alive; and a step of a session's own
  handler or of the worker for it, at whose end it may be destroyed.\<close>

lemma ordered_accept:
  assumes ord: "ftp_ordered env es st" and w: "world_ok (srv_world st)" and q: "quiet a (srv_world st) v"
    and kept: "ftp_kept env (es @ [Ftp_accepts]) v a"
    and v: "files v = files (srv_world st)" "next_session v = next_session (srv_world st)" "accepting v = Some a"
    and st': "srv_world st' = v" "acceptor st' \<noteq> Waiting"
  shows "ftp_ordered env (es @ [Ftp_accepts]) st'"
  by (rule ordered_by [OF ord w quiet_own_step [OF q] kept, where b = a])
    (use v st' ftp_orderedD(3) [OF ord] release_accepting [OF v(3)] in simp_all)

lemma ordered_handler:
  assumes ord: "ftp_ordered env es st" and inv: "srv_inv st" and own: "own_step a (srv_world st) v"
    and kept: "ftp_kept env (es @ [e]) v a" and e: "actor e = Some a" and s: "sessions (srv_world st) a = Some s"
    and f: "files v = stores env e (files (srv_world st))"
    and t: "next_session v = next_session (srv_world st) \<and> accepting v = accepting (srv_world st)"
    and ph: "phase s = Not_started \<Longrightarrow> \<exists>s'. sessions v a = Some s' \<and> phase s' = Not_started"
  shows "ftp_ordered env (es @ [e]) (st\<lparr>srv_world := release a v\<rparr>)"
proof (rule ordered_by [OF ord srv_invD(1) [OF inv] own kept, where b = a])
  show "accept_ready (release a v)" if "acceptor (st\<lparr>srv_world := release a v\<rparr>) = Waiting"
    by (rule accept_ready_step [OF ftp_orderedD(5) [OF ord] own]) (use that t s ph in auto)
qed (use e t f ftp_orderedD(3) [OF ord] session_below [OF srv_invD(3) [OF inv] s] in simp_all)

lemma ordered_accepts:
  assumes step: "ftp_step env st Ftp_accepts st'" and ord: "ftp_ordered env es st" and inv: "srv_inv st"
  shows "ftp_ordered env (es @ [Ftp_accepts]) st'"
proof -
  let ?w = "srv_world st"
  note O = ftp_orderedD [OF ord] and I = srv_invD [OF inv]
  obtain b t where b: "accepting ?w = Some b" "sessions ?w b = Some t" using I(5) by auto
  show ?thesis
    using step
  proof (cases rule: ftp_step.cases)
    case (accepted a)
    have s: "sessions ?w a = Some t" "phase t = Not_started"
      using accepted(2,3) b O(5) by (auto simp: accept_ready_def)
    show ?thesis
      by (rule ordered_accept [OF ord I(1) quiet_accept_start kept_started [OF s O(2)]])
        (use accepted(1,3) touches_next_session [OF touches_accept_start [of a ?w]] in
          \<open>simp_all add: accept_start_def Start_def Clear_def ClearHead_def\<close>)
  next
    case (saved a)
    have s: "sessions ?w a = Some t" "sessions (accept_save a ?w) a = Some t" using saved(3) b by simp_all
    have "ftp_kept env (es @ [Ftp_accepts]) (accept_save a ?w) a"
      by (rule ftp_kept_quiet [OF quiet_accept_save _ O(2) s]) simp_all
    then show ?thesis
      by (rule ordered_accept [OF ord I(1) quiet_accept_save])
        (use saved(1,3) in \<open>simp_all add: accept_save_def split: option.split\<close>)
  next
    case refused
    have "ftp_kept env (es @ [Ftp_accepts]) ?w b"
      by (rule ftp_kept_quiet [OF quiet_refl _ O(2) b(2) b(2)]) simp_all
    then show ?thesis
      by (rule ordered_accept [OF ord I(1) quiet_refl]) (use refused(1) b(1) in simp_all)
  next
    case (next_accept a uuid w)
    obtain v where v: "StartAccept uuid ?w = Inr v" "w = release a v"
      using next_accept(5) by (auto simp: accept_next_def fault_iffs)
    obtain ioc p where v': "v = ?w\<lparr>pool := p, sessions := (sessions ?w)(next_session ?w \<mapsto> Session uuid ioc),
            accepting := Some (next_session ?w), next_session := next_session ?w + 1\<rparr>"
      using StartAccept_Inr [OF v(1)] by blast
    have ready: "accept_ready v" by (simp add: accept_ready_def v' Session_def)
    have "history (next_session ?w) (es @ [Ftp_accepts]) = ([], [], [], False)" using O(4) by simp
    from kept_new [OF v(1) I(2,3) this] show ?thesis
      by (rule ordered_by [OF ord I(1) own_step_StartAccept [OF v(1)], where b = a])
        (use next_accept(1) O(3) v(2) accept_ready_release [OF ready] in \<open>simp_all add: v'\<close>)
  qed
qed

lemma ftp_ordered_step:
  assumes step: "ftp_step env st e st'" and ord: "ftp_ordered env es st" and inv: "srv_inv st"
    and net: "network_order (env_net env)"
  shows "ftp_ordered env (es @ [e]) st'"
proof (cases "e = Ftp_accepts")
  case True
  with step ordered_accepts [OF _ ord inv] show ?thesis by simp
next
  case e: False
  note kept = ftp_orderedD(2) [OF ord] and w = srv_invD(1) [OF inv]
  show ?thesis
    using step
  proof (cases rule: ftp_step.cases)
    case (received a ses r w1)
    note co = received(4-7)
    show ?thesis
      unfolding received(1,2)
      by (rule ordered_handler [OF ord inv own_step_co_step [OF net w co]
            ftp_kept_received [OF net w co kept] _ co(1)])
        (use files_co_step [OF net w co] touches_next_session [OF touches_co_step [OF co(4)]] co(2) in auto)
  next
    case (written a ses n ec w1)
    note wr = written(4-6)
    show ?thesis
      unfolding written(1,2)
      by (rule ordered_handler [OF ord inv quiet_own_step [OF quiet_HandlerWrite [OF wr(3)]]
            ftp_kept_written [OF w wr kept] _ wr(1)])
        (use wr touches_next_session [OF touches_HandlerWrite [OF wr(3)]] in
          \<open>auto simp: HandlerWrite_def split: if_splits\<close>)
  next
    case (served a m q n ses w1)
    obtain v where v: "dispatch env a m (pop_msg (srv_world st)) = Inr v" "w1 = release a v"
      using doWork_dispatch [OF served(6)] served(3) by auto
    note k = ftp_kept_served [OF net served(3-5) v(1) kept]
    show ?thesis
      unfolding served(1,2) v(2)
      by (rule ordered_handler [OF ord inv _ _ _ served(5)])
        (use k touches_next_session [OF touches_dispatch [OF v(1)]] in auto)
  qed (use e in simp_all)
qed

lemma ftp_ordered_start:
  assumes "Server uuid (IOServicePool k) = Inr w"
  shows "ftp_ordered env [] \<lparr>srv_world = w, acceptor = Waiting\<rparr>"
proof -
  let ?e = "empty_world (IOServicePool k)"
  have start: "StartAccept uuid ?e = Inr w" using assms by (simp add: Server_def)
  obtain ioc p where w: "w = ?e\<lparr>pool := p, sessions := (sessions ?e)(next_session ?e \<mapsto> Session uuid ioc),
      accepting := Some (next_session ?e), next_session := next_session ?e + 1\<rparr>"
    using StartAccept_Inr [OF start] by blast
  have "queue_live ?e" "registry_ok ?e"
    by (simp_all add: empty_world_def queue_live_def registry_ok_def ident_def table_ok_def)
  from kept_new [OF start this, of "[]"] have "ftp_kept env [] w 0" by (simp add: history_def empty_world_def)
  moreover have "ftp_kept env [] w a" if "a \<noteq> 0" for a
    using that by (simp add: ftp_kept_def kept_sent_def kept_heard_def w empty_world_def heard_of_def queued_texts_def entries_def)
  ultimately have kept: "ftp_kept env [] w a" for a by (cases "a = 0") simp_all
  show ?thesis
    unfolding ftp_ordered_def Let_def using kept
    by (auto simp: nodes_disjoint_def belongs_def recv_at_def w empty_world_def history_def
        accept_ready_def Session_def split: if_splits)
qed

lemma ftp_run_ordered:
  assumes "ftp_run env es st" and net: "network_order (env_net env)" and js: "json_throws (env_json env)"
  shows "ftp_ordered env es st"
  using assms(1)
proof (induction rule: ftp_run.induct)
  case (server n uuid w)
  then show ?case by (intro ftp_ordered_start)
next
  case (step es s e s')
  from ftp_ordered_step [OF step.hyps(2) step.IH srv_reach_inv [OF ftp_run_reach [OF step.hyps(1)] js] net]
  show ?case .
qed

end
