(* ===== verification/Ftp_Progress.thy ===== *)
theory Ftp_Progress
  imports Ftp_Order
begin

text \<open>
  That the worker of the upload server can serve whatever is queued, also for sessions whose context
  was stopped, and with the invariant of \<open>Ftp_Order\<close> what each client gets.
\<close>

subsection \<open>Serving what is queued\<close>








subsection \<open>Property\<close>



lemma head_of_be [simp]: "head_of (be16 i @ be32 len) = (i, len)"
proof -
  have "rev (be16 i) = short_repr i" "rev (be32 len) = uint_repr len"
    by (simp_all add: be16_def be32_def short_repr_def uint_repr_def)
  then show ?thesis by (simp add: head_of_def)
qed





end
