(* ===== verification/Ftp_Upload.thy ===== *)
theory Ftp_Upload
  imports Ftp_Server_Props Ftp_Reader
begin

text \<open>
  An upload from end to end: the bytes of its requests arrive at a session (\<open>Session.cpp\<close>), are cut
  into messages and posted, the worker serves the messages (\<open>LogicSystem.cpp\<close>), which decodes them
  (\<open>base64.cpp\<close>) and writes the file, and the responses leave through the send queue. The three run
  in any order: a resumption of the coroutine as soon as the bytes it waits for are there, a service
  whenever a message is queued, the completion of a write whenever one is outstanding.
\<close>

subsection \<open>The run of an upload\<close>

datatype up_event = Reads | Serves | Writes

text \<open>The bytes still to come, the bytes sent to the client, and the server.\<close>

type_synonym up_state = "bytes \<times> bytes \<times> ftp_world"

fun up_enabled :: "addr \<Rightarrow> up_event \<Rightarrow> up_state \<Rightarrow> bool" where
  "up_enabled a Reads (i, out, w) =
     (can_run w a \<and> (case sessions w a of None \<Rightarrow> False
       | Some s \<Rightarrow> phase s \<in> {Reading_head, Reading_body} \<and> read_size a w \<le> length i))"
| "up_enabled a Serves (i, out, w) = (msgQueue w \<noteq> [])"
| "up_enabled a Writes (i, out, w) =
     (can_run w a \<and> (case sessions w a of None \<Rightarrow> False | Some s \<Rightarrow> writing s \<noteq> None))"

definition written_bytes :: "addr \<Rightarrow> ftp_world \<Rightarrow> fault + bytes" where
  "written_bytes a w =
     (case Option.bind (sessions w a) writing of None \<Rightarrow> Inl Null_deref | Some n \<Rightarrow> wire n)"

fun up_step :: "'j logic_env \<Rightarrow> addr \<Rightarrow> up_event \<Rightarrow> up_state \<Rightarrow> fault + up_state" where
  "up_step env a Reads (i, out, w) =
     (let n = read_size a w in
      and_then (co_step (env_net env) a (Read_bytes (take n i)) w) (\<lambda>w. Inr (drop n i, out, release a w)))"
| "up_step env a Serves (i, out, w) = and_then (doWork env w) (\<lambda>w. Inr (i, out, w))"
| "up_step env a Writes (i, out, w) =
     and_then (written_bytes a w) (\<lambda>bs.
     and_then (HandlerWrite a False w) (\<lambda>w. Inr (i, out @ bs, release a w)))"

inductive up_run :: "'j logic_env \<Rightarrow> addr \<Rightarrow> up_state \<Rightarrow> up_event list \<Rightarrow> up_state \<Rightarrow> bool" for env a st0 where
  start: "up_run env a st0 [] st0"
| step: "up_run env a st0 es st \<Longrightarrow> up_enabled a e st \<Longrightarrow> up_step env a e st = Inr st' \<Longrightarrow>
    up_run env a st0 (es @ [e]) st'"

subsection \<open>What is uploaded\<close>

text \<open>One part: the text of its request, its content, the text of its response.\<close>

datatype part = Part (request: string) (content: string) (reply: string)

text \<open>The request of part \<open>k\<close> is a C string which the JSON library takes for the fields of an upload,
  the content in base64; the response is what the library builds.\<close>

definition part_ok :: "'j json_ops \<Rightarrow> string \<Rightarrow> nat \<Rightarrow> part \<Rightarrow> bool" where
  "part_ok js name k p =
     (request p \<noteq> [] \<and> length (request p) \<le> 2147483647 \<and> 0 \<notin> set (bytes_of (request p)) \<and>
      (\<exists>e t r. let root = snd (json_parse js (request p)) in
         base64_encode (content p) False = Some e \<and>
         get_str js root ''data'' = Inr e \<and> get_int js root ''seq'' = Inr (int k) \<and>
         get_str js root ''name'' = Inr name \<and> get_int js root ''total_size'' = Inr t \<and>
         get_int js root ''trans_size'' = Inr r \<and>
         upload_response js name (int k) t r = Inr (reply p)) \<and> length (reply p) + 7 < 2 ^ 32)"

definition requests :: "part list \<Rightarrow> bytes" where
  "requests ps = concat (map (\<lambda>p. frame UPLOAD_FILE_RECV (bytes_of (request p))) ps)"

definition replies :: "part list \<Rightarrow> bytes" where
  "replies ps = concat (map (\<lambda>p. frame UPLOAD_FILE_SEND (bytes_of (reply p))) ps)"

definition contents :: "part list \<Rightarrow> string" where
  "contents ps = concat (map content ps)"

abbreviation reply_node :: "part \<Rightarrow> msg_node" where
  "reply_node p \<equiv> frame_node UPLOAD_FILE_SEND (bytes_of (reply p))"

lemma requests_simps [simp]:
  "requests [] = []" "requests (p # ps) = frame UPLOAD_FILE_RECV (bytes_of (request p)) @ requests ps"
  by (simp_all add: requests_def)

lemma replies_snoc [simp]: "replies [] = []"
  "replies (ps @ [p]) = replies ps @ frame UPLOAD_FILE_SEND (bytes_of (reply p))"
  by (simp_all add: replies_def)

lemma contents_snoc [simp]: "contents [] = []" "contents [p] = content p" "contents (ps @ [p]) = contents ps @ content p"
  by (simp_all add: contents_def)

subsection \<open>One service\<close>

lemma c_str_text: "0 \<notin> set (bytes_of t) \<Longrightarrow> c_str (map Some (bytes_of t @ [0])) = Inr t"
  by (induction t) auto

lemma pool_write_chunk [simp]: "pool (write_chunk k p d w) = pool w"
  by (simp add: write_chunk_def)

lemma part_request:
  assumes "part_ok js name k p" and "holds_msg w a (UPLOAD_FILE_RECV, bytes_of (request p)) (a, m)"
  shows "\<exists>n e t r. nodes w m = Some n \<and> upload_request js n e (int k) name t r \<and>
    base64_decode e False = Inr (content p) \<and> upload_response js name (int k) t r = Inr (reply p)"
proof -
  obtain n where n: "nodes w m = Some n" "msgId n = UPLOAD_FILE_RECV"
    "node_data n = map Some (bytes_of (request p) @ [0])"
    using assms(2) by (auto simp: holds_msg_def)
  have "c_str (node_data n) = Inr (request p)"
    using assms(1) n(3) c_str_text [of "request p"] by (simp add: part_ok_def)
  with n assms(1) show ?thesis
    by (auto simp: part_ok_def upload_request_def Let_def dest: base64_encode_decodes)
qed

lemma doWork_part:
  assumes net: "network_order (env_net env)"
    and path: "path = path_append (GetStaticPath (env_config env)) name" "can_open env path"
    and p: "part_ok (env_json env) name k p" "holds_msg w a (UPLOAD_FILE_RECV, bytes_of (request p)) (a, m)"
    and q: "msgQueue w = (a, m) # q" and s: "sessions w a = Some s" "phase s = Reading_head \<or> phase s = Reading_body"
  shows "doWork env w = Inr (upd_session a (\<lambda>_. submit_node (reply_node p) s)
    (write_chunk (int k) path (content p) (w\<lparr>msgQueue := q\<rparr>)))"
proof -
  let ?w = "write_chunk (int k) path (content p) (w\<lparr>msgQueue := q\<rparr>)"
  obtain n e t r where n: "nodes w m = Some n" and req: "upload_request (env_json env) n e (int k) name t r"
    and e: "base64_decode e False = Inr (content p)"
    and resp: "upload_response (env_json env) name (int k) t r = Inr (reply p)"
    using part_request [OF p] by blast
  have len: "length (reply p) + 7 < 2 ^ 32" using p(1) by (simp add: part_ok_def)
  have pop: "pop_msg w = w\<lparr>msgQueue := q\<rparr>" using q by (simp add: pop_msg_def)
  have "session_Send (env_net env) a (reply p) UPLOAD_FILE_SEND ?w =
      Inr (upd_session a (\<lambda>_. submit_node (reply_node p) s) ?w)"
    using s(1) Send_view_frame [OF net len, of UPLOAD_FILE_SEND s] by (simp add: session_Send_def)
  moreover have "nodes (w\<lparr>msgQueue := q\<rparr>) m = Some n" using n by simp
  ultimately have "dispatch env a m (pop_msg w) = Inr (upd_session a (\<lambda>_. submit_node (reply_node p) s) ?w)"
    using dispatch_upload [OF _ req, of "w\<lparr>msgQueue := q\<rparr>" m a] e resp path by (simp add: pop)
  moreover have "release a (upd_session a (\<lambda>_. submit_node (reply_node p) s) ?w) =
      upd_session a (\<lambda>_. submit_node (reply_node p) s) ?w"
    using s by (auto simp: release_def owned_def submit_node_def push_node_def Let_def upd_session_def)
  ultimately show ?thesis using q by (simp add: doWork_def)
qed


subsection \<open>The state in between\<close>

definition upload_ok :: "'j logic_env \<Rightarrow> string \<Rightarrow> string \<Rightarrow> part list \<Rightarrow> bool" where
  "upload_ok env name path ps =
     (network_order (env_net env) \<and> path = path_append (GetStaticPath (env_config env)) name \<and> can_open env path \<and>
      (\<forall>k<length ps. part_ok (env_json env) name k (ps ! k)) \<and>
      length ps \<le> MAX_RECV_QUEUE_LEN \<and> length ps \<le> MAX_SEND_QUEUE_LEN)"

text \<open>\<open>r\<close> requests were read and, if \<open>h\<close>, the head of the next; \<open>s\<close> were served; \<open>t\<close> responses are
  written. The nodes of the requests are those from \<open>b\<close> on; \<open>old\<close> are the files before.\<close>

definition up_session :: "part list \<Rightarrow> addr \<Rightarrow> nat \<Rightarrow> bool \<Rightarrow> nat \<Rightarrow> nat \<Rightarrow> ftp_world \<Rightarrow> session \<Rightarrow> bool" where
  "up_session ps b r h s t w x =
     (head_ok x \<and> phase x = (if h then Reading_body else Reading_head) \<and>
      (h \<longrightarrow> recvMsg x = Some (b + r) \<and>
         nodes w (b + r) = Some (RecvNode (of_nat (length (request (ps ! r)))) UPLOAD_FILE_RECV)) \<and>
      sendQueue x = map reply_node (drop t (take s ps)) \<and> pump_ok sendQueue writing x)"

fun up_inv :: "part list \<Rightarrow> addr \<Rightarrow> string \<Rightarrow> addr \<Rightarrow> (string \<rightharpoonup> string) \<Rightarrow> nat \<Rightarrow> bool \<Rightarrow> nat \<Rightarrow> nat \<Rightarrow> up_state \<Rightarrow> bool" where
  "up_inv ps a path b old r h s t (i, out, w) =
     (t \<le> s \<and> s \<le> r \<and> r \<le> length ps \<and> (h \<longrightarrow> r < length ps) \<and>
      i = (if h then bytes_of (request (ps ! r)) @ requests (drop (Suc r) ps) else requests (drop r ps)) \<and>
      out = replies (take t ps) \<and> can_run w a \<and>
      (\<exists>x. sessions w a = Some x \<and> up_session ps b r h s t w x) \<and>
      msgQueue w = map (\<lambda>k. (a, b + k)) [s..<r] \<and>
      (\<forall>k<r. holds_msg w a (UPLOAD_FILE_RECV, bytes_of (request (ps ! k))) (a, b + k)) \<and>
      next_node w = b + r + (if h then 1 else 0) \<and>
      files w = (if s = 0 then old else old(path \<mapsto> contents (take s ps))))"

lemma part_length:
  assumes "upload_ok env name path ps" and "r < length ps"
  shows "bytes_of (request (ps ! r)) \<noteq> []" "length (request (ps ! r)) \<le> 2147483647"
    "of_nat (length (request (ps ! r))) \<le> MAX_LEN"
    "unat (of_nat (length (request (ps ! r))) :: u32) = length (request (ps ! r))"
proof -
  have l: "request (ps ! r) \<noteq> []" "length (request (ps ! r)) \<le> 2147483647"
    using assms by (auto simp: upload_ok_def part_ok_def)
  then show "bytes_of (request (ps ! r)) \<noteq> []" "length (request (ps ! r)) \<le> 2147483647"
    by (auto simp: bytes_of_def)
  show u: "unat (of_nat (length (request (ps ! r))) :: u32) = length (request (ps ! r))"
    using unat_of_nat_length [of "bytes_of (request (ps ! r))"] l(2) by simp
  then show "of_nat (length (request (ps ! r))) \<le> MAX_LEN"
    using l(2) by (simp add: MAX_LEN_def word_le_nat_alt)
qed

lemma release_reading:
  "sessions w a = Some x \<Longrightarrow> phase x = Reading_head \<or> phase x = Reading_body \<Longrightarrow> release a w = w"
  by (auto simp: release_def owned_def)

lemma up_head_step:
  assumes ok: "upload_ok env name path ps" and inv: "up_inv ps a path b old r False s t (i, out, w)" and r: "r < length ps"
  shows "up_enabled a Reads (i, out, w)"
    and "\<exists>st. up_step env a Reads (i, out, w) = Inr st \<and> up_inv ps a path b old r True s t st"
proof -
  let ?req = "bytes_of (request (ps ! r))" and ?len = "of_nat (length (request (ps ! r))) :: u32"
  let ?hdr = "be16 UPLOAD_FILE_RECV @ be32 ?len" and ?rest = "?req @ requests (drop (Suc r) ps)"
  note len = part_length [OF ok r]
  obtain x where x: "sessions w a = Some x" "up_session ps b r False s t w x" using inv by auto
  have i: "i = ?hdr @ ?rest"
    using inv r by (simp add: Cons_nth_drop_Suc [symmetric] frame_def)
  have size: "read_size a w = 6" using x by (simp add: up_session_def)
  moreover have "6 \<le> length i" unfolding i by simp
  ultimately show "up_enabled a Reads (i, out, w)" using inv x by (simp add: up_session_def)
  obtain h where h: "co_step (env_net env) a (Read_bytes ?hdr) w =
      Inr (upd_session a (\<lambda>s. s\<lparr>recvHead := h, recvMsg := Some (next_node w), phase := Reading_body\<rparr>)
        (w\<lparr>nodes := (nodes w)(next_node w \<mapsto> RecvNode ?len UPLOAD_FILE_RECV), next_node := next_node w + 1\<rparr>))"
      (is "_ = Inr ?w") and hok: "node_ok h" "totalLen h = 6"
    using head_accepted [of "env_net env" w a x ?len UPLOAD_FILE_RECV] ok x len(3)
    by (auto simp: upload_ok_def up_session_def)
  let ?x = "x\<lparr>recvHead := h, recvMsg := Some (next_node w), phase := Reading_body\<rparr>"
  have sx: "sessions ?w a = Some ?x" using x(1) by simp
  have "up_session ps b r True s t ?w ?x"
    using x(2) hok inv by (simp add: up_session_def head_ok_def pump_ok_def)
  moreover have "can_run ?w a" using inv x(1) by (simp add: can_run_def)
  moreover have "holds_msg ?w a m (a, b + k)" if "k < r" "holds_msg w a m (a, b + k)" for m k
    using that inv by (simp add: holds_msg_def)
  ultimately have "up_inv ps a path b old r True s t (?rest, out, ?w)"
    using inv r sx by auto
  moreover have "up_step env a Reads (i, out, w) = Inr (?rest, out, ?w)"
    using h i size release_reading [OF sx] by (simp add: Let_def)
  ultimately show "\<exists>st. up_step env a Reads (i, out, w) = Inr st \<and> up_inv ps a path b old r True s t st"
    by blast
qed


lemma up_body_step:
  assumes ok: "upload_ok env name path ps" and inv: "up_inv ps a path b old r True s t (i, out, w)"
  shows "up_enabled a Reads (i, out, w)"
    and "\<exists>st. up_step env a Reads (i, out, w) = Inr st \<and> up_inv ps a path b old (Suc r) False s t st"
proof -
  have r: "r < length ps" using inv by simp
  let ?req = "bytes_of (request (ps ! r))"
  let ?n = "RecvNode (of_nat (length (request (ps ! r)))) UPLOAD_FILE_RECV"
  let ?rest = "requests (drop (Suc r) ps)"
  note len = part_length [OF ok r]
  obtain x where x: "sessions w a = Some x" "up_session ps b r True s t w x" using inv by auto
  then have x': "phase x = Reading_body" "recvMsg x = Some (b + r)" "nodes w (b + r) = Some ?n"
    by (simp_all add: up_session_def)
  have n: "node_ok ?n" "length ?req = unat (totalLen ?n)" "totalLen ?n = of_nat (length ?req)" "msgId ?n = UPLOAD_FILE_RECV"
    using node_ok_RecvNode [OF len(3)] len(4) by (simp_all add: RecvNode_def MsgNode_def)
  have size: "read_size a w = length ?req" using read_size_body [OF x(1) x'] n(2) by simp
  then show "up_enabled a Reads (i, out, w)" using inv x(1) x'(1) by simp
  let ?n' = "?n\<lparr>node_data := map Some (?req @ [0])\<rparr>"
  let ?w = "read_head a (PostMsgToQue (a, b + r) (upd_node (b + r) ?n' w))"
  have co: "co_step (env_net env) a (Read_bytes ?req) w = Inr ?w"
    by (rule co_step_body [OF x(1) x' n(1,2) len(1)])
  have sx: "sessions ?w a = Some (x\<lparr>phase := Reading_head\<rparr>)" using x(1) by (simp add: read_head_def)
  have "length (msgQueue w) < MAX_RECV_QUEUE_LEN" using inv ok r by (auto simp: upload_ok_def)
  then have q: "msgQueue ?w = map (\<lambda>k. (a, b + k)) [s..<Suc r]"
    using inv by (simp add: read_head_def msgQueue_Post)
  have "holds_msg ?w a (UPLOAD_FILE_RECV, bytes_of (request (ps ! k))) (a, b + k)" if "k < Suc r" for k
    using that inv n(3,4) by (cases "k = r") (auto simp: holds_msg_def read_head_def)
  moreover have "up_session ps b (Suc r) False s t ?w (x\<lparr>phase := Reading_head\<rparr>)"
    using x(2) by (simp add: up_session_def head_ok_def pump_ok_def)
  moreover have "can_run ?w a" using inv x(1) sx by (simp add: can_run_def read_head_def)
  ultimately have "up_inv ps a path b old (Suc r) False s t (?rest, out, ?w)"
    using inv r sx q by (auto simp: read_head_def)
  moreover have "up_step env a Reads (i, out, w) = Inr (?rest, out, ?w)"
    using co inv size release_reading [OF sx] by (simp add: Let_def)
  ultimately show "\<exists>st. up_step env a Reads (i, out, w) = Inr st \<and> up_inv ps a path b old (Suc r) False s t st"
    by blast
qed

lemma up_serve_step:
  assumes ok: "upload_ok env name path ps" and inv: "up_inv ps a path b old r h s t (i, out, w)" and s: "s < r"
  shows "up_enabled a Serves (i, out, w)"
    and "\<exists>st. up_step env a Serves (i, out, w) = Inr st \<and> up_inv ps a path b old r h (Suc s) t st"
proof -
  have q: "msgQueue w = (a, b + s) # map (\<lambda>k. (a, b + k)) [Suc s..<r]" using inv s by (simp add: upt_rec [of s])
  then show "up_enabled a Serves (i, out, w)" by simp
  let ?p = "ps ! s"
  have sl: "s < length ps" using inv s by simp
  obtain x where x: "sessions w a = Some x" "up_session ps b r h s t w x" using inv by auto
  let ?x = "submit_node (reply_node ?p) x"
  let ?w = "upd_session a (\<lambda>_. ?x)
    (write_chunk (int s) path (content ?p) (w\<lparr>msgQueue := map (\<lambda>k. (a, b + k)) [Suc s..<r]\<rparr>))"
  have "doWork env w = Inr ?w"
    using ok sl inv s x by (intro doWork_part [OF _ _ _ _ _ q x(1)]) (auto simp: upload_ok_def up_session_def)
  then have step: "up_step env a Serves (i, out, w) = Inr (i, out, ?w)" by simp
  have take: "take (Suc s) ps = take s ps @ [?p]" using sl by (simp add: take_Suc_conv_app_nth)
  have "length (sendQueue x) < MAX_SEND_QUEUE_LEN"
    using x(2) ok sl by (auto simp: up_session_def upload_ok_def min_def)
  then have xq: "sendQueue ?x = map reply_node (drop t (take (Suc s) ps))"
    using x(2) inv sl take by (simp add: submit_node_def send_room_def up_session_def)
  have "pump_ok sendQueue writing ?x"
    using session_pump.pump_ok_submit [of x "reply_node ?p"] x(2) by (simp add: up_session_def)
  moreover have "head_ok ?x = head_ok x" "phase ?x = phase x" "recvMsg ?x = recvMsg x" "ses_ioc ?x = ses_ioc x"
    by (simp_all add: submit_node_def push_node_def head_ok_def Let_def)
  moreover have "files ?w = (if Suc s = 0 then old else old(path \<mapsto> contents (take (Suc s) ps)))"
    using inv take by (cases "s = 0") (simp_all add: write_chunk_def)
  ultimately have "up_inv ps a path b old r h (Suc s) t (i, out, ?w)"
    using inv x xq s by (auto simp: up_session_def can_run_def holds_msg_def)
  with step show "\<exists>st. up_step env a Serves (i, out, w) = Inr st \<and> up_inv ps a path b old r h (Suc s) t st"
    by blast
qed

lemma up_write_step:
  assumes ok: "upload_ok env name path ps" and inv: "up_inv ps a path b old r h s t (i, out, w)" and t: "t < s"
  shows "up_enabled a Writes (i, out, w)"
    and "\<exists>st. up_step env a Writes (i, out, w) = Inr st \<and> up_inv ps a path b old r h s (Suc t) st"
proof -
  let ?p = "ps ! t"
  have tl: "t < length ps" using inv t by simp
  obtain x where x: "sessions w a = Some x" "up_session ps b r h s t w x" using inv by auto
  have "drop t (take s ps) = ?p # drop (Suc t) (take s ps)"
    using Cons_nth_drop_Suc [of t "take s ps"] t tl by (simp add: min_def split: if_splits)
  then have q: "sendQueue x = reply_node ?p # map reply_node (drop (Suc t) (take s ps))"
    using x(2) by (simp add: up_session_def)
  then have wr: "writing x = Some (reply_node ?p)" using x(2) by (simp add: up_session_def pump_ok_def)
  then show "up_enabled a Writes (i, out, w)" using inv x(1) by simp
  have "length (reply ?p) + 7 < 2 ^ 32" using ok tl by (simp add: upload_ok_def part_ok_def)
  then have bs: "written_bytes a w = Inr (frame UPLOAD_FILE_SEND (bytes_of (reply ?p)))"
    using x(1) wr wire_frame_node [of "bytes_of (reply ?p)" UPLOAD_FILE_SEND] by (simp add: written_bytes_def)
  let ?w = "upd_session a write_next w" and ?x = "write_next x"
  have sx: "sessions ?w a = Some ?x" using x(1) by simp
  have frame: "head_ok ?x = head_ok x" "phase ?x = phase x" "recvMsg ?x = recvMsg x" "ses_ioc ?x = ses_ioc x"
    "sendQueue ?x = tl (sendQueue x)"
    by (simp_all add: write_next_def head_ok_def Let_def)
  have "release a ?w = ?w"
    using release_reading [OF sx] x(2) frame(2) by (auto simp: up_session_def split: if_splits)
  then have step: "up_step env a Writes (i, out, w) =
      Inr (i, out @ frame UPLOAD_FILE_SEND (bytes_of (reply ?p)), ?w)"
    using x(1) q bs by (simp add: HandlerWrite_def)
  have "pump_ok sendQueue writing ?x" using session_pump.pump_ok_serve [of x] q by simp
  moreover have "replies (take (Suc t) ps) = replies (take t ps) @ frame UPLOAD_FILE_SEND (bytes_of (reply ?p))"
    using tl by (simp add: take_Suc_conv_app_nth)
  ultimately have "up_inv ps a path b old r h s (Suc t) (i, out @ frame UPLOAD_FILE_SEND (bytes_of (reply ?p)), ?w)"
    using inv x sx q t frame by (auto simp: up_session_def can_run_def holds_msg_def)
  with step show "\<exists>st. up_step env a Writes (i, out, w) = Inr st \<and> up_inv ps a path b old r h s (Suc t) st"
    by blast
qed


declare up_inv.simps [simp del]

lemma up_invD:
  assumes "up_inv ps a path b old r h s t (i, out, w)"
  shows "t \<le> s" "s \<le> r" "r \<le> length ps" "h \<longrightarrow> r < length ps" "msgQueue w = map (\<lambda>k. (a, b + k)) [s..<r]"
    "i = (if h then bytes_of (request (ps ! r)) @ requests (drop (Suc r) ps) else requests (drop r ps))"
    "out = replies (take t ps)" "files w = (if s = 0 then old else old(path \<mapsto> contents (take s ps)))"
    "\<exists>x. sessions w a = Some x \<and> up_session ps b r h s t w x"
  using assms by (simp_all add: up_inv.simps)

subsection \<open>Every run\<close>

lemma up_enabled_when:
  assumes inv: "up_inv ps a path b old r h s t st" and "up_enabled a e st"
  shows "case e of Reads \<Rightarrow> h \<or> r < length ps | Serves \<Rightarrow> s < r | Writes \<Rightarrow> t < s"
proof -
  obtain i out w where st: "st = (i, out, w)" by (cases st)
  obtain x where x: "sessions w a = Some x" "up_session ps b r h s t w x"
    using up_invD(9) inv st by blast
  show ?thesis
  proof (cases e)
    case Reads
    have False if "\<not> h" "r = length ps"
    proof -
      have "read_size a w = 6" using x that by (simp add: up_session_def)
      with up_invD(6) [OF inv [unfolded st]] assms(2) st Reads x that show False by simp
    qed
    moreover have "r \<le> length ps" using up_invD(3) inv st by blast
    ultimately show ?thesis using Reads by (cases h) (auto intro: le_neq_implies_less)
  next
    case Writes
    with assms(2) x st have "sendQueue x \<noteq> []"
      by (auto simp: up_session_def pump_ok_def split: list.splits)
    with x(2) have "t < min (length ps) s" by (auto simp: up_session_def)
    with Writes show ?thesis by simp
  qed (use assms st up_invD(5) [of ps a path b old r h s t i out w] in auto)
qed

definition up_count :: "nat \<Rightarrow> bool \<Rightarrow> nat \<Rightarrow> nat \<Rightarrow> nat" where
  "up_count r h s t = 2 * r + (if h then 1 else 0) + s + t"

lemma up_count_Suc:
  "up_count r h (Suc s) t = Suc (up_count r h s t)" "up_count r h s (Suc t) = Suc (up_count r h s t)"
  "up_count r True s t = Suc (up_count r False s t)" "up_count (Suc r) False s t = Suc (up_count r True s t)"
  by (simp_all add: up_count_def)

lemma up_inv_step:
  assumes ok: "upload_ok env name path ps" and inv: "up_inv ps a path b old r h s t st" and en: "up_enabled a e st"
  shows "\<exists>st' r' h' s' t'. up_step env a e st = Inr st' \<and> up_inv ps a path b old r' h' s' t' st' \<and>
    up_count r' h' s' t' = Suc (up_count r h s t)"
proof -
  obtain i out w where st: "st = (i, out, w)" by (cases st)
  note inv = inv [unfolded st] and ready = up_enabled_when [OF assms(2,3)]
  show ?thesis
  proof (cases e)
    case Reads
    show ?thesis
    proof (cases h)
      case True
      then have "up_inv ps a path b old r True s t (i, out, w)" using inv by simp
      from up_body_step(2) [OF ok this] show ?thesis
        unfolding Reads st using True by (metis (full_types) up_count_Suc(4))
    next
      case False
      then have "up_inv ps a path b old r False s t (i, out, w)" "r < length ps"
        using inv ready Reads by simp_all
      from up_head_step(2) [OF ok this] show ?thesis
        unfolding Reads st using False by (metis (full_types) up_count_Suc(3))
    qed
  next
    case Serves
    then have "s < r" using ready by simp
    from up_serve_step(2) [OF ok inv this] show ?thesis
      unfolding Serves st by (metis up_count_Suc(1))
  next
    case Writes
    then have "t < s" using ready by simp
    from up_write_step(2) [OF ok inv this] show ?thesis
      unfolding Writes st by (metis up_count_Suc(2))
  qed
qed

lemma up_progress:
  assumes ok: "upload_ok env name path ps" and inv: "up_inv ps a path b old r h s t st"
    and more: "up_count r h s t \<noteq> 4 * length ps"
  shows "\<exists>e. up_enabled a e st"
proof -
  obtain i out w where st: "st = (i, out, w)" by (cases st)
  note inv = inv [unfolded st]
  consider h | "\<not> h" "r < length ps" | "\<not> h" "r = length ps" "s < r" | "\<not> h" "r = length ps" "s = r" "t < s"
    | "\<not> h" "r = length ps" "s = r" "t = s"
    using up_invD(1-4) [OF inv] by (cases h) (auto simp: nat_less_le)
  then show ?thesis unfolding st
  proof cases
    case 1
    then show "\<exists>e. up_enabled a e (i, out, w)"
      using up_body_step(1) [OF ok, of a b old r s t i out w] inv by (simp only:) blast
  next
    case 2
    then show "\<exists>e. up_enabled a e (i, out, w)"
      using up_head_step(1) [OF ok, of a b old r s t i out w] inv by (simp only:) blast
  next
    case 3
    with up_serve_step(1) [OF ok inv] show "\<exists>e. up_enabled a e (i, out, w)" by blast
  next
    case 4
    with up_write_step(1) [OF ok inv] show "\<exists>e. up_enabled a e (i, out, w)" by blast
  next
    case 5
    with more show "\<exists>e. up_enabled a e (i, out, w)" by (simp add: up_count_def)
  qed
qed

lemma up_count_bound:
  assumes "up_inv ps a path b old r h s t st"
  shows "up_count r h s t \<le> 4 * length ps"
    and "up_count r h s t = 4 * length ps \<Longrightarrow> \<not> h \<and> r = length ps \<and> s = length ps \<and> t = length ps"
proof -
  obtain i out w where st: "st = (i, out, w)" by (cases st)
  from up_invD(1-4) [OF assms [unfolded st]]
  show "up_count r h s t \<le> 4 * length ps"
    and "up_count r h s t = 4 * length ps \<Longrightarrow> \<not> h \<and> r = length ps \<and> s = length ps \<and> t = length ps"
    by (cases h; simp add: up_count_def)+
qed

lemma up_run_inv:
  assumes ok: "upload_ok env name path ps" and "up_run env a st0 es st"
    and "up_inv ps a path b old 0 False 0 0 st0"
  shows "\<exists>r h s t. up_inv ps a path b old r h s t st \<and> up_count r h s t = length es"
  using assms(2)
proof (induction rule: up_run.induct)
  case start
  have "up_count 0 False 0 0 = 0" by (simp add: up_count_def)
  with assms(3) show ?case by (metis list.size(3))
next
  case (step es st e st')
  then obtain r h s t where "up_inv ps a path b old r h s t st" "up_count r h s t = length es" by blast
  with up_inv_step [OF ok this(1) step.hyps(2)] step.hyps(3) show ?case by fastforce
qed

lemma up_run_completes:
  assumes ok: "upload_ok env name path ps" and "up_run env a st0 es st"
    and "up_inv ps a path b old 0 False 0 0 st0"
  shows "\<exists>fs st'. up_run env a st0 (es @ fs) st' \<and> length (es @ fs) = 4 * length ps"
  using assms(2)
proof (induction "4 * length ps - length es" arbitrary: es st)
  case 0
  obtain r h s t where "up_inv ps a path b old r h s t st" "up_count r h s t = length es"
    using up_run_inv [OF ok 0(2) assms(3)] by blast
  with up_count_bound(1) [OF this(1)] 0 have "length (es @ []) = 4 * length ps" by simp
  with 0(2) show ?case by (metis append_Nil2)
next
  case (Suc k)
  obtain r h s t where inv: "up_inv ps a path b old r h s t st" "up_count r h s t = length es"
    using up_run_inv [OF ok Suc.prems assms(3)] by blast
  with Suc.hyps(2) obtain e where e: "up_enabled a e st" using up_progress [OF ok inv(1)] by force
  obtain st' where "up_step env a e st = Inr st'" using up_inv_step [OF ok inv(1) e] by blast
  with Suc.prems e have "up_run env a st0 (es @ [e]) st'" by (blast intro: up_run.step)
  moreover have "k = 4 * length ps - length (es @ [e])" using Suc.hyps(2) by simp
  ultimately obtain fs st'' where "up_run env a st0 ((es @ [e]) @ fs) st''" "length ((es @ [e]) @ fs) = 4 * length ps"
    using Suc.hyps(1) by blast
  then show ?case by (intro exI [of _ "e # fs"] exI [of _ st'']) simp
qed

subsection \<open>Property\<close>

text \<open>
  C13: an upload from the wire to the disk and back. The requests of a file's parts arrive, each a
  frame whose text the JSON library takes for a part of the upload, its content in base64. However
  the reads of the session, the services of the worker and the completions of the writes interleave,
  no step of them faults, there are at most four for each part, and any run can be completed to
  exactly four; then nothing more can happen, the bytes have all been read, nothing is queued, the
  file holds exactly the contents one after the other, whatever it held before, no other file has
  changed, and the client has been sent the responses, one frame for each part and in order.
\<close>
theorem upload_end_to_end:
  assumes "upload_ok env name path ps" and "ps \<noteq> []"
    and "sessions w a = Some x" and "phase x = Reading_head" and "head_ok x" and "can_run w a"
    and "sendQueue x = []" and "writing x = None" and "msgQueue w = []"
    and "up_run env a (requests ps, [], w) es (i, out, w')"
  shows "length es \<le> 4 * length ps \<and>
    (\<forall>e. up_enabled a e (i, out, w') \<longrightarrow> (\<exists>st. up_step env a e (i, out, w') = Inr st)) \<and>
    (\<exists>fs st. up_run env a (requests ps, [], w) (es @ fs) st \<and> length (es @ fs) = 4 * length ps) \<and>
    (length es = 4 * length ps \<longrightarrow>
       (\<forall>e. \<not> up_enabled a e (i, out, w')) \<and> i = [] \<and> msgQueue w' = [] \<and>
       files w' = (files w)(path \<mapsto> contents ps) \<and> out = replies ps)"
proof -
  have start: "up_inv ps a path (next_node w) (files w) 0 False 0 0 (requests ps, [], w)"
    using assms by (simp add: up_inv.simps up_session_def pump_ok_def)
  obtain r h s t where inv: "up_inv ps a path (next_node w) (files w) r h s t (i, out, w')"
    and n: "up_count r h s t = length es"
    using up_run_inv [OF assms(1,10) start] by blast
  have final: "(\<forall>e. \<not> up_enabled a e (i, out, w')) \<and> i = [] \<and> msgQueue w' = [] \<and>
      files w' = (files w)(path \<mapsto> contents ps) \<and> out = replies ps" if "length es = 4 * length ps"
  proof -
    from up_count_bound(2) [OF inv] n that
    have eq: "\<not> h" "r = length ps" "s = length ps" "t = length ps" by simp_all
    have "\<not> up_enabled a e (i, out, w')" for e
      using up_enabled_when [OF inv, of e] eq by (auto split: up_event.splits)
    with up_invD(5-8) [OF inv] eq assms(2) show ?thesis by simp
  qed
  have "\<exists>st. up_step env a e (i, out, w') = Inr st" if "up_enabled a e (i, out, w')" for e
    using up_inv_step [OF assms(1) inv that] by blast
  moreover have "length es \<le> 4 * length ps" using up_count_bound(1) [OF inv] n by simp
  moreover note up_run_completes [OF assms(1,10) start]
  ultimately show ?thesis using final by blast
qed

text \<open>An upload of \<open>hello\<close> in two parts, to the server with one fresh session.\<close>

definition hello_docs :: "(string \<times> json_value) list" where
  "hello_docs = [(''A'', demo_upload (the (base64_encode ''he'' False)) 0 ''f''),
     (''B'', demo_upload (the (base64_encode ''llo'' False)) 1 ''f'')]"

definition hello_parts :: "part list" where
  "hello_parts = [Part ''A'' ''he'' ''{}'', Part ''B'' ''llo'' ''{}'']"

lemma hello_upload: "upload_ok (demo_env hello_docs) ''f'' ''/s/f'' hello_parts"
proof -
  obtain e1 e2 where e: "base64_encode ''he'' False = Some e1" "base64_encode ''llo'' False = Some e2"
    using base64_encode_groups [of "bytes_of ''he''" False] base64_encode_groups [of "bytes_of ''llo''" False]
    by (simp add: base64_encode_def)
  have "part_ok (demo_json hello_docs) ''f'' k (hello_parts ! k)" if "k < length hello_parts" for k
  proof -
    from that consider "k = 0" | "k = 1" by (fastforce simp: hello_parts_def)
    then show ?thesis
      by cases (simp_all add: part_ok_def hello_parts_def hello_docs_def e demo_json_def demo_upload_def
          get_str_def get_int_def upload_response_def byte_of_char_letters)
  qed
  then show ?thesis
    using swap_ops_network_order
    by (simp add: upload_ok_def demo_env_def GetStaticPath_def path_append_def hello_parts_def
        MAX_RECV_QUEUE_LEN_def MAX_SEND_QUEUE_LEN_def)
qed

theorem upload_end_to_end_witness:
  "\<exists>es w'. up_run (demo_env hello_docs) 0 (requests hello_parts, [], lone_session) es
      ([], replies hello_parts, w') \<and> length es = 8 \<and> files w' ''/s/f'' = Some ''hello''"
proof -
  let ?env = "demo_env hello_docs" and ?st = "(requests hello_parts, [], lone_session)"
  let ?s = "(Session ''s'' 0)\<lparr>sock_open := True, phase := Reading_head\<rparr>"
  have s: "head_ok ?s" "can_run lone_session 0" "sendQueue ?s = []" "writing ?s = None" "hello_parts \<noteq> []"
    using lone_session_ok(2)
    by (simp_all add: idle_def can_run_def lone_session_def IOServicePool_def Session_def hello_parts_def)
  note U = upload_end_to_end [OF hello_upload s(5) lone_session_simps(1) _ s(1,2,3,4) lone_session_simps(3)]
  obtain es st where run: "up_run ?env 0 ?st es st" "length es = 4 * length hello_parts"
    using U [OF _ up_run.start] by auto
  obtain i out w' where st: "st = (i, out, w')" by (cases st)
  have l: "length hello_parts = 2" "contents hello_parts = ''hello''"
    by (simp_all add: hello_parts_def contents_def)
  from U [OF _ run(1) [unfolded st]] run(2)
  have "i = []" "out = replies hello_parts" "files w' ''/s/f'' = Some ''hello''" by (simp_all add: l(2))
  with run st l(1) show ?thesis by (intro exI [of _ es] exI [of _ w']) simp
qed

end
