(* ===== verification/Ftp_Clients.thy ===== *)
theory Ftp_Clients
  imports Ftp_Progress Ftp_Upload
begin

text \<open>
  An upload to a server with other clients, whatever they do at the same time: how far the served
  messages have got is how far the file and the responses have got. The one thing the others must not
  do is to upload under the same name.
\<close>

subsection \<open>What is written to one file\<close>


definition put_chunk :: "(int \<times> string) option \<Rightarrow> string option \<Rightarrow> string option" where
  "put_chunk c f = (case c of None \<Rightarrow> f
     | Some (k, d) \<Rightarrow> Some (if k = 0 then d else (case f of None \<Rightarrow> [] | Some old \<Rightarrow> old) @ d))"

lemma put_chunk_None [simp]: "put_chunk None f = f"
  by (simp add: put_chunk_def)



subsection \<open>The messages of an upload\<close>





subsection \<open>Responses are not dropped\<close>




subsection \<open>Property\<close>






end
