(* ===== verification/Monitor.thy ===== *)
theory Monitor
  imports Net_Prelude
begin

text \<open>
  The three queues with a worker thread behind a mutex and a condition variable, as one step
  relation: \<open>LogicSystem\<close> of both servers (\<open>src/src/05_ftp/LogicSystem.cpp\<close>,
  \<open>src/src/02_async/LogicSystem.cpp\<close>) and \<open>LogQueue\<close> with the thread of \<open>AsyncLogSystem\<close>
  (\<open>src/src/05_ftp/include/AsyncLogSystem.h\<close>). They differ in when a producer notifies and in
  what the worker does after the stop flag; a \<open>discipline\<close> records this.

  The mutex is held by the worker from the moment it has locked it until it parks or finishes an
  iteration (\<open>Locked\<close>, \<open>Ready\<close>, \<open>Sleepy\<close>); a producer's critical section is one step.
  \<open>wait\<close> with a predicate is: evaluate it with the mutex held, and when it is false park and
  release the mutex in one step. A notification reaches a parked worker only. None of the three
  takes the mutex to set the stop flag.
\<close>

subsection \<open>State\<close>

datatype worker_pc =
    Unlocked     \<comment> \<open>about to lock the mutex\<close>
  | Locked       \<comment> \<open>about to evaluate the predicate\<close>
  | Ready        \<comment> \<open>the predicate was true\<close>
  | Sleepy       \<comment> \<open>the predicate was false, not parked yet\<close>
  | Parked
  | Exited

datatype closer_pc = Open | Flagged | Joining | Joined

record 'a monitor =
  mon_queue :: "'a list"
  mon_stop :: bool
  worker :: worker_pc
  notifies :: nat           \<comment> \<open>producers that have unlocked but not notified yet\<close>
  closer :: closer_pc       \<comment> \<open>the destructor\<close>
  mon_served :: "'a list"
  mon_posted :: "'a list"   \<comment> \<open>the history of accepted posts\<close>

record discipline =
  capacity :: "nat option"
  notify_when :: "nat \<Rightarrow> bool"   \<comment> \<open>on the size after the push\<close>
  notify_late :: bool            \<comment> \<open>after the mutex is released\<close>
  drains :: bool                 \<comment> \<open>serves the whole queue in one go once stopped\<close>

definition ftp_logic :: discipline where
  "ftp_logic = \<lparr>capacity = Some 2000000, notify_when = (\<lambda>n. 1 \<le> n), notify_late = True, drains = True\<rparr>"

definition async_logic :: discipline where
  "async_logic = \<lparr>capacity = Some 10240, notify_when = (\<lambda>n. 1 \<le> n), notify_late = False, drains = True\<rparr>"

definition log_queue :: discipline where
  "log_queue = \<lparr>capacity = None, notify_when = (\<lambda>n. n = 1), notify_late = False, drains = False\<rparr>"

definition new_monitor :: "'a monitor" where
  "new_monitor = \<lparr>mon_queue = [], mon_stop = False, worker = Unlocked, notifies = 0, closer = Open,
     mon_served = [], mon_posted = []\<rparr>"

subsection \<open>Steps\<close>

definition wake :: "'a monitor \<Rightarrow> 'a monitor" where
  "wake s = (if worker s = Parked then s\<lparr>worker := Unlocked\<rparr> else s)"

definition has_room :: "discipline \<Rightarrow> 'a monitor \<Rightarrow> bool" where
  "has_room d s = (case capacity d of None \<Rightarrow> True | Some n \<Rightarrow> length (mon_queue s) < n)"

text \<open>The steps of the worker, of a late notification and of the destructor.\<close>

inductive mon_step :: "discipline \<Rightarrow> 'a monitor \<Rightarrow> 'a monitor \<Rightarrow> bool" for d where
  lock: "worker s = Unlocked \<Longrightarrow> mon_step d s (s\<lparr>worker := Locked\<rparr>)"
| ready: "worker s = Locked \<Longrightarrow> mon_queue s \<noteq> [] \<or> mon_stop s \<Longrightarrow> mon_step d s (s\<lparr>worker := Ready\<rparr>)"
| sleepy: "worker s = Locked \<Longrightarrow> mon_queue s = [] \<Longrightarrow> \<not> mon_stop s \<Longrightarrow>
    mon_step d s (s\<lparr>worker := Sleepy\<rparr>)"
| park: "worker s = Sleepy \<Longrightarrow> mon_step d s (s\<lparr>worker := Parked\<rparr>)"
| serve: "worker s = Ready \<Longrightarrow> \<not> (drains d \<and> mon_stop s) \<Longrightarrow> mon_queue s = x # q \<Longrightarrow>
    mon_step d s (s\<lparr>mon_queue := q, mon_served := mon_served s @ [x], worker := Unlocked\<rparr>)"
| drain: "worker s = Ready \<Longrightarrow> drains d \<Longrightarrow> mon_stop s \<Longrightarrow>
    mon_step d s (s\<lparr>mon_queue := [], mon_served := mon_served s @ mon_queue s, worker := Exited\<rparr>)"
| exit: "worker s = Ready \<Longrightarrow> \<not> drains d \<Longrightarrow> mon_stop s \<Longrightarrow> mon_queue s = [] \<Longrightarrow>
    mon_step d s (s\<lparr>worker := Exited\<rparr>)"
| notify: "0 < notifies s \<Longrightarrow> mon_step d s (wake (s\<lparr>notifies := notifies s - 1\<rparr>))"
| set_stop: "closer s = Open \<Longrightarrow> mon_step d s (s\<lparr>mon_stop := True, closer := Flagged\<rparr>)"
| notify_stop: "closer s = Flagged \<Longrightarrow> mon_step d s (wake (s\<lparr>closer := Joining\<rparr>))"
| join: "closer s = Joining \<Longrightarrow> worker s = Exited \<Longrightarrow> mon_step d s (s\<lparr>closer := Joined\<rparr>)"

text \<open>A producer's post, and a wake-up without a notification.\<close>

inductive mon_post :: "discipline \<Rightarrow> 'a \<Rightarrow> 'a monitor \<Rightarrow> 'a monitor \<Rightarrow> bool" for d x where
  dropped: "worker s \<in> {Unlocked, Parked, Exited} \<Longrightarrow> \<not> has_room d s \<Longrightarrow> mon_post d x s s"
| posted: "worker s \<in> {Unlocked, Parked, Exited} \<Longrightarrow> has_room d s \<Longrightarrow>
    s' = s\<lparr>mon_queue := mon_queue s @ [x], mon_posted := mon_posted s @ [x]\<rparr> \<Longrightarrow>
    mon_post d x s
      (if notify_when d (length (mon_queue s')) then
         if notify_late d then s'\<lparr>notifies := notifies s + 1\<rparr> else wake s'
       else s')"

inductive mon_spurious :: "'a monitor \<Rightarrow> 'a monitor \<Rightarrow> bool" where
  spurious: "worker s = Parked \<Longrightarrow> mon_spurious s (s\<lparr>worker := Unlocked\<rparr>)"

inductive mon_reach :: "discipline \<Rightarrow> 'a monitor \<Rightarrow> bool" for d where
  start: "mon_reach d new_monitor"
| internal: "mon_reach d s \<Longrightarrow> mon_step d s s' \<Longrightarrow> mon_reach d s'"
| producer: "mon_reach d s \<Longrightarrow> mon_post d x s s' \<Longrightarrow> mon_reach d s'"
| woken: "mon_reach d s \<Longrightarrow> mon_spurious s s' \<Longrightarrow> mon_reach d s'"

inductive_cases mon_stepE: "mon_step d s s'"
inductive_cases mon_postE: "mon_post d x s s'"
inductive_cases mon_spuriousE: "mon_spurious s s'"

text \<open>A discipline does not forget a producer: the push onto an empty queue is notified, and
  where every push is notified late, every one is.\<close>

definition notifies_enough :: "discipline \<Rightarrow> bool" where
  "notifies_enough d = (notify_when d 1 \<and> (notify_late d \<longrightarrow> (\<forall>n. 1 \<le> n \<longrightarrow> notify_when d n)))"

lemma disciplines_notify: "notifies_enough ftp_logic" "notifies_enough async_logic" "notifies_enough log_queue"
  by (simp_all add: notifies_enough_def ftp_logic_def async_logic_def log_queue_def)

definition mon_inv :: "'a monitor \<Rightarrow> bool" where
  "mon_inv s =
     (mon_served s @ mon_queue s = mon_posted s \<and>
      (worker s = Sleepy \<longrightarrow> mon_queue s = []) \<and>
      (worker s = Parked \<longrightarrow> mon_queue s = [] \<or> 0 < notifies s) \<and>
      (worker s = Exited \<longrightarrow> mon_stop s) \<and>
      (mon_stop s \<longleftrightarrow> closer s \<noteq> Open) \<and>
      (closer s = Joined \<longrightarrow> worker s = Exited))"

lemma mon_inv_step: "mon_step d s s' \<Longrightarrow> mon_inv s \<Longrightarrow> mon_inv s'"
proof (induction rule: mon_step.induct)
  case (notify s)
  then show ?case by (cases "worker s") (auto simp: mon_inv_def wake_def)
next
  case (notify_stop s)
  then show ?case by (cases "worker s") (auto simp: mon_inv_def wake_def)
qed (auto simp: mon_inv_def)

lemma mon_inv_push:
  "mon_inv s \<Longrightarrow> worker s \<noteq> Sleepy \<Longrightarrow> worker s \<noteq> Parked \<or> n = True \<Longrightarrow>
     mon_inv (s\<lparr>mon_queue := mon_queue s @ [x], mon_posted := mon_posted s @ [x],
       notifies := notifies s + of_bool n\<rparr>)"
  by (cases "worker s") (auto simp: mon_inv_def append_assoc [symmetric] simp del: append_assoc)

text \<open>A post to a worker that is parked; one that is notified after the queue was grown needs nothing
  of the invariant about it.\<close>

lemma mon_inv_post_parked:
  assumes inv: "mon_inv s" and w: "worker s = Parked" "\<not> notify_late d" and enough: "notifies_enough d"
    and s: "s' = s\<lparr>mon_queue := mon_queue s @ [x], mon_posted := mon_posted s @ [x]\<rparr>"
  shows "mon_inv (if notify_when d (length (mon_queue s')) then wake s' else s')"
proof -
  have q: "mon_queue s = [] \<or> 0 < notifies s" "notify_when d (Suc 0)"
    "mon_served s @ mon_queue s = mon_posted s" "mon_stop s = (closer s \<noteq> Open)" "closer s \<noteq> Joined"
    using inv w enough by (auto simp: mon_inv_def notifies_enough_def)
  show ?thesis
  proof (cases "notify_when d (length (mon_queue s'))")
    case True
    with q(3-5) w(1) show ?thesis
      by (simp add: s mon_inv_def wake_def append_assoc [symmetric] del: append_assoc)
  next
    case False
    then have "0 < notifies s" using q(1,2) by (auto simp: s)
    with False q(3-5) w(1) show ?thesis
      by (simp add: s mon_inv_def append_assoc [symmetric] del: append_assoc)
  qed
qed

lemma mon_inv_post:
  assumes "mon_post d x s s'" and "mon_inv s" and "notifies_enough d"
  shows "mon_inv s'"
  using assms(1)
proof (cases rule: mon_post.cases)
  case dropped
  with assms(2) show ?thesis by simp
next
  case (posted t)
  let ?s = "s\<lparr>mon_queue := mon_queue s @ [x], mon_posted := mon_posted s @ [x]\<rparr>"
  have always: "notify_late d \<Longrightarrow> notify_when d (Suc n)" for n
    using assms(3) by (auto simp: notifies_enough_def)
  consider "worker s \<noteq> Parked" | "worker s = Parked" "notify_late d" | "worker s = Parked" "\<not> notify_late d" by blast
  then show ?thesis
  proof cases
    case 1
    then have "wake ?s = ?s" by (simp add: wake_def)
    moreover have "mon_inv (?s\<lparr>notifies := notifies s + of_bool n\<rparr>)" for n
      using mon_inv_push [OF assms(2), of n x] 1 posted by auto
    from this [of False] this [of True] have "mon_inv ?s" "mon_inv (?s\<lparr>notifies := notifies s + 1\<rparr>)"
      by simp_all
    ultimately show ?thesis using posted by simp
  next
    case 2
    then show ?thesis using posted always mon_inv_push [OF assms(2), of True x] by simp
  next
    case 3
    from mon_inv_post_parked [OF assms(2) 3 assms(3) posted(4)] show ?thesis unfolding posted(1) by (simp only: 3(2) if_False)
  qed
qed

lemma mon_reach_inv:
  assumes "mon_reach d s" and "notifies_enough d"
  shows "mon_inv s"
  using assms(1)
proof (induction rule: mon_reach.induct)
  case start
  then show ?case by (simp add: mon_inv_def new_monitor_def)
next
  case (internal s s')
  show ?case by (rule mon_inv_step [OF internal.hyps(2) internal.IH])
next
  case (producer s x s')
  show ?case by (rule mon_inv_post [OF producer.hyps(2) producer.IH assms(2)])
next
  case (woken s s')
  then have "worker s = Parked" "s' = s\<lparr>worker := Unlocked\<rparr>" by (auto elim: mon_spuriousE)
  with woken.IH show ?case by (simp add: mon_inv_def)
qed

subsection \<open>Shutting down\<close>









subsection \<open>Properties\<close>

text \<open>
  C16: in every reachable state of each of the three queues, what the worker has served followed by
  what is queued is what was posted, in order, and a worker that is parked while messages are
  queued has a notification under way: no post is forgotten. In particular the log queue's
  notification of only the first message is enough for its one worker.
\<close>
theorem monitor_no_lost_post:
  assumes "mon_reach d s" and "d \<in> {ftp_logic, async_logic, log_queue}"
  shows "mon_served s @ mon_queue s = mon_posted s \<and>
    (worker s = Parked \<and> notifies s = 0 \<longrightarrow> mon_queue s = [])"
proof -
  have "notifies_enough d" using assms(2) disciplines_notify by auto
  from mon_reach_inv [OF assms(1) this] show ?thesis by (auto simp: mon_inv_def)
qed

theorem monitor_no_lost_post_witness:
  "\<exists>s. mon_reach log_queue s \<and> mon_served s @ mon_queue s = [CHR ''a'']"
proof -
  let ?s = "new_monitor\<lparr>mon_queue := [CHR ''a''], mon_posted := [CHR ''a'']\<rparr>"
  have "mon_post log_queue CHR ''a'' new_monitor ?s"
    using mon_post.posted [of new_monitor log_queue ?s "CHR ''a''"]
    by (simp add: new_monitor_def has_room_def log_queue_def wake_def)
  from mon_reach.producer [OF mon_reach.start this] have "mon_reach log_queue ?s" .
  with monitor_no_lost_post [OF this] show ?thesis by (intro exI [of _ ?s]) simp
qed

text \<open>
  C17: with each discipline the destructor can hang. The stop flag is set without the mutex, so it
  can fall between the worker's test of the predicate and its parking; the one notification then
  finds no waiter, and in the state reached nothing is left to happen: the worker is parked and
  the destructor waits in \<open>join\<close>.
\<close>
theorem shutdown_can_hang:
  "\<exists>s :: 'a monitor. mon_reach d s \<and> closer s = Joining \<and> worker s = Parked \<and> mon_stop s \<and>
    (\<forall>s'. \<not> mon_step d s s')"
proof -
  let ?t = "\<lambda>pc b c. (new_monitor :: 'a monitor)\<lparr>worker := pc, mon_stop := b, closer := c\<rparr>"
  have "mon_step d new_monitor (?t Locked False Open)"
    using mon_step.lock [of new_monitor d] by (simp add: new_monitor_def)
  from mon_reach.internal [OF mon_reach.start this] have "mon_reach d (?t Locked False Open)" .
  moreover have "mon_step d (?t Locked False Open) (?t Sleepy False Open)"
    using mon_step.sleepy [of "?t Locked False Open" d] by (simp add: new_monitor_def)
  ultimately have "mon_reach d (?t Sleepy False Open)" by (rule mon_reach.internal)
  moreover have "mon_step d (?t Sleepy False Open) (?t Sleepy True Flagged)"
    using mon_step.set_stop [of "?t Sleepy False Open" d] by (simp add: new_monitor_def)
  ultimately have "mon_reach d (?t Sleepy True Flagged)" by (rule mon_reach.internal)
  moreover have "mon_step d (?t Sleepy True Flagged) (?t Sleepy True Joining)"
    using mon_step.notify_stop [of "?t Sleepy True Flagged" d] by (simp add: new_monitor_def wake_def)
  ultimately have "mon_reach d (?t Sleepy True Joining)" by (rule mon_reach.internal)
  moreover have "mon_step d (?t Sleepy True Joining) (?t Parked True Joining)"
    using mon_step.park [of "?t Sleepy True Joining" d] by (simp add: new_monitor_def)
  ultimately have "mon_reach d (?t Parked True Joining)" by (rule mon_reach.internal)
  moreover have "\<not> mon_step d (?t Parked True Joining) s'" for s'
    by (auto elim!: mon_stepE simp: new_monitor_def)
  ultimately show ?thesis by (intro exI [of _ "?t Parked True Joining"]) simp
qed



end
