(* ===== verification/Async_Session.thy ===== *)
theory Async_Session
  imports Ftp_Logic
begin

text \<open>
  The message server of \<open>src/src/02_async\<close>: its message nodes (\<open>MsgNode.h\<close>, \<open>const.h\<close>), its
  session (\<open>Session.cpp\<close>) and its logic system (\<open>LogicSystem.cpp\<close>). The design is that of the FTP
  server, but lengths are signed: the length field of a frame is a \<open>short\<close>, and so is the length a
  node is built from. The state is one session's: its nodes are objects in a store that the queue
  shares, and the server's table is the flag whether it still lists the session.

  A body may arrive in parts: a step on a body carries the bytes that have arrived so far, which
  \<open>async_read\<close> has put into the buffer, whether they complete it or not. An exception in the
  coroutine is caught around its loop.
\<close>

definition ASYNC_HEAD_LEN :: nat where "ASYNC_HEAD_LEN = 4"
definition ASYNC_MAX_ID :: int where "ASYNC_MAX_ID = 10240"
definition ASYNC_MAX_LEN :: int where "ASYNC_MAX_LEN = 2048"
definition ASYNC_SEND_QUEUE :: nat where "ASYNC_SEND_QUEUE = 1024"
definition ASYNC_RECV_QUEUE :: nat where "ASYNC_RECV_QUEUE = 10240"
definition HelloWorld :: u16 where "HelloWorld = 1001"

subsection \<open>Nodes\<close>

record async_node =
  an_curLen :: int
  an_totalLen :: int
  an_data :: char_array
  an_msgId :: u16

text \<open>\<open>new char[_totalLen + 1]\<close> throws for a negative size.\<close>

definition async_MsgNode :: "u16 \<Rightarrow> u16 \<Rightarrow> fault + async_node" where
  "async_MsgNode total_len msg_id =
     (let size = sint total_len + 1 in
      if size < 0 then Inl Bad_array_new_length
      else Inr \<lparr>an_curLen = 0, an_totalLen = sint total_len, an_data = new_array (nat size),
             an_msgId = msg_id\<rparr>)"

definition async_node_Clear :: "async_node \<Rightarrow> async_node" where
  "async_node_Clear n = n\<lparr>an_curLen := 0\<rparr>"

definition async_RecvNode :: "u16 \<Rightarrow> u16 \<Rightarrow> fault + async_node" where
  "async_RecvNode total_len msg_id = async_MsgNode total_len msg_id"

definition an_write :: "nat \<Rightarrow> bytes \<Rightarrow> async_node \<Rightarrow> fault + async_node" where
  "an_write off bs n = and_then (memcpy_to (an_data n) off bs) (\<lambda>d. Inr (n\<lparr>an_data := d\<rparr>))"

definition an_read :: "nat \<Rightarrow> nat \<Rightarrow> async_node \<Rightarrow> fault + bytes" where
  "an_read off k n = memcpy_from (an_data n) off k"

text \<open>A negative \<open>totalLen\<close> is a huge \<open>size_t\<close> for \<open>memcpy\<close>.\<close>

definition async_SendNode :: "net_ops \<Rightarrow> bytes \<Rightarrow> u16 \<Rightarrow> u16 \<Rightarrow> fault + async_node" where
  "async_SendNode net msg total_len msg_id =
     and_then (async_MsgNode (total_len + of_nat ASYNC_HEAD_LEN) msg_id) (\<lambda>n.
     and_then (an_write 0 (short_repr (host_to_network_short net msg_id)) n) (\<lambda>n.
     and_then (an_write 2 (short_repr (host_to_network_short net total_len)) n) (\<lambda>n.
     if sint total_len < 0 then Inl Buffer_overflow
     else if unat total_len \<le> length msg
     then and_then (an_write ASYNC_HEAD_LEN (take (unat total_len) msg) n) (\<lambda>n.
          an_write (nat (an_totalLen n)) [0] n)
     else Inl Over_read)))"

text \<open>\<open>buffer(Data(), TotalLen())\<close>: the \<open>int\<close> becomes a \<open>size_t\<close>.\<close>

definition buffer_size :: "async_node \<Rightarrow> nat" where
  "buffer_size n = nat (an_totalLen n mod 2 ^ 64)"

definition async_wire :: "async_node \<Rightarrow> fault + bytes" where
  "async_wire n = an_read 0 (buffer_size n) n"

definition async_head_id :: "net_ops \<Rightarrow> async_node \<Rightarrow> fault + u16" where
  "async_head_id net n = and_then (an_read 0 2 n) (\<lambda>bs. Inr (network_to_host_short net (short_of bs)))"

definition async_head_len :: "net_ops \<Rightarrow> async_node \<Rightarrow> fault + u16" where
  "async_head_len net n = and_then (an_read 2 2 n) (\<lambda>bs. Inr (network_to_host_short net (short_of bs)))"

subsection \<open>The session\<close>

record async_session =
  as_sendQueue :: "async_node list"
  as_writing :: "async_node option"
  as_head :: async_node
  as_recvMsg :: "addr option"
  as_phase :: co_phase
  as_listed :: bool          \<comment> \<open>whether the server's table holds the session\<close>
  as_open :: bool

record async_world =
  aw_session :: async_session
  aw_nodes :: "addr \<rightharpoonup> async_node"
  aw_next :: addr
  aw_queue :: "addr list"    \<comment> \<open>\<open>LogicSystem::_msgQueue\<close>\<close>

definition as_upd :: "(async_session \<Rightarrow> async_session) \<Rightarrow> async_world \<Rightarrow> async_world" where
  "as_upd f w = w\<lparr>aw_session := f (aw_session w)\<rparr>"

definition async_Session :: "fault + async_session" where
  "async_Session = and_then (async_RecvNode (of_nat ASYNC_HEAD_LEN) (- 1)) (\<lambda>h.
     Inr \<lparr>as_sendQueue = [], as_writing = None, as_head = h, as_recvMsg = None, as_phase = Not_started,
          as_listed = False, as_open = False\<rparr>)"

definition async_ClearHead :: "async_world \<Rightarrow> async_world" where
  "async_ClearHead w = as_upd (\<lambda>s. s\<lparr>as_head := async_node_Clear (as_head s)\<rparr>) w"

definition async_ClearMsg :: "async_world \<Rightarrow> async_world" where
  "async_ClearMsg w =
     (case as_recvMsg (aw_session w) of None \<Rightarrow> w
      | Some m \<Rightarrow> w\<lparr>aw_nodes := (aw_nodes w)(m := map_option async_node_Clear (aw_nodes w m))\<rparr>)"

definition async_Clear :: "async_world \<Rightarrow> async_world" where
  "async_Clear w = async_ClearMsg (async_ClearHead w)"

definition async_remove :: "async_world \<Rightarrow> async_world" where
  "async_remove w = as_upd (\<lambda>s. s\<lparr>as_listed := False\<rparr>) w"

definition async_Stop :: "async_session \<Rightarrow> async_session" where
  "async_Stop s = s\<lparr>as_open := False\<rparr>"

definition async_Start :: "async_world \<Rightarrow> async_world" where
  "async_Start w = as_upd (\<lambda>s. s\<lparr>as_phase := Reading_head\<rparr>) (async_Clear w)"

definition async_room :: "async_session \<Rightarrow> bool" where
  "async_room s = (length (as_sendQueue s) < ASYNC_SEND_QUEUE)"

definition async_push :: "async_node \<Rightarrow> async_session \<Rightarrow> async_session" where
  "async_push n s =
     (let pending = (as_sendQueue s \<noteq> []);
          s = s\<lparr>as_sendQueue := as_sendQueue s @ [n]\<rparr>
      in if pending then s else s\<lparr>as_writing := Some (hd (as_sendQueue s))\<rparr>)"

text \<open>The \<open>int\<close> length is narrowed to the \<open>short\<close> of the node's constructor.\<close>

definition async_Send :: "net_ops \<Rightarrow> bytes \<Rightarrow> u32 \<Rightarrow> u16 \<Rightarrow> async_session \<Rightarrow> fault + async_session" where
  "async_Send net msg total_len msg_id s =
     (if ASYNC_SEND_QUEUE \<le> length (as_sendQueue s) then Inr s
      else and_then (async_SendNode net msg (ucast total_len) msg_id) (\<lambda>n. Inr (async_push n s)))"

definition async_Send_view :: "net_ops \<Rightarrow> string \<Rightarrow> u16 \<Rightarrow> async_session \<Rightarrow> fault + async_session" where
  "async_Send_view net msg msg_id s = async_Send net (bytes_of msg) (of_nat (length msg)) msg_id s"

definition async_write_next :: "async_session \<Rightarrow> async_session" where
  "async_write_next s =
     (let s = s\<lparr>as_sendQueue := tl (as_sendQueue s)\<rparr>
      in if as_sendQueue s \<noteq> [] then s\<lparr>as_writing := Some (hd (as_sendQueue s))\<rparr>
         else s\<lparr>as_writing := None\<rparr>)"

definition async_write_failed :: "async_session \<Rightarrow> async_session" where
  "async_write_failed s = s\<lparr>as_writing := None\<rparr>"

definition async_HandlerWrite :: "bool \<Rightarrow> async_world \<Rightarrow> fault + async_world" where
  "async_HandlerWrite ec w =
     (if ec then Inr (async_remove (as_upd async_write_failed w))
      else if as_sendQueue (aw_session w) = [] then Inl Empty_pop
      else Inr (as_upd async_write_next w))"

definition async_PraseHead :: "net_ops \<Rightarrow> async_world \<Rightarrow> fault + async_world" where
  "async_PraseHead net w =
     and_then (async_head_id net (as_head (aw_session w))) (\<lambda>MsgId.
     if ASYNC_MAX_ID < sint MsgId then Inr (async_remove (async_ClearHead w))
     else
       and_then (async_head_len net (as_head (aw_session w))) (\<lambda>validDataLen.
       if ASYNC_MAX_LEN < sint validDataLen then Inr (async_remove (async_ClearHead w))
       else
         and_then (async_RecvNode validDataLen MsgId) (\<lambda>n.
         Inr (as_upd (\<lambda>s. s\<lparr>as_recvMsg := Some (aw_next w)\<rparr>)
               (w\<lparr>aw_nodes := (aw_nodes w)(aw_next w \<mapsto> n), aw_next := aw_next w + 1\<rparr>)))))"

definition async_PostMsgToQue :: "addr \<Rightarrow> async_world \<Rightarrow> async_world" where
  "async_PostMsgToQue m w =
     (if ASYNC_RECV_QUEUE \<le> length (aw_queue w) then w else w\<lparr>aw_queue := aw_queue w @ [m]\<rparr>)"

definition async_recv_node :: "async_world \<Rightarrow> fault + (addr \<times> async_node)" where
  "async_recv_node w =
     (case as_recvMsg (aw_session w) of None \<Rightarrow> Inl Null_deref
      | Some m \<Rightarrow> (case aw_nodes w m of None \<Rightarrow> Inl Null_deref | Some n \<Rightarrow> Inr (m, n)))"

definition aw_put :: "addr \<Rightarrow> async_node \<Rightarrow> async_world \<Rightarrow> async_world" where
  "aw_put m n w = w\<lparr>aw_nodes := (aw_nodes w)(m \<mapsto> n)\<rparr>"

definition async_PraseMsg :: "async_world \<Rightarrow> fault + async_world" where
  "async_PraseMsg w =
     and_then (async_recv_node w) (\<lambda>(m, n).
     if an_totalLen n < 0 then Inl Buffer_overflow
     else and_then (an_write (nat (an_totalLen n)) [0] n) (\<lambda>n.
          Inr (async_PostMsgToQue m (aw_put m n w))))"

definition async_fill_head :: "bytes \<Rightarrow> async_world \<Rightarrow> fault + async_world" where
  "async_fill_head bs w =
     and_then (an_write 0 bs (as_head (aw_session w))) (\<lambda>h. Inr (as_upd (\<lambda>s. s\<lparr>as_head := h\<rparr>) w))"

definition async_fill_body :: "bytes \<Rightarrow> async_world \<Rightarrow> fault + async_world" where
  "async_fill_body bs w =
     and_then (async_recv_node w) (\<lambda>(m, n). and_then (an_write 0 bs n) (\<lambda>n. Inr (aw_put m n w)))"

definition async_phase :: "co_phase \<Rightarrow> async_world \<Rightarrow> async_world" where
  "async_phase p w = as_upd (\<lambda>s. s\<lparr>as_phase := p\<rparr>) w"

definition async_read_body :: "async_world \<Rightarrow> fault + async_world" where
  "async_read_body w = and_then (async_recv_node w) (\<lambda>_. Inr (async_phase Reading_body w))"

text \<open>The end of the coroutine: after a read of no bytes, and in the \<open>catch\<close>, which only logs.\<close>

definition async_disconnected :: "async_world \<Rightarrow> async_world" where
  "async_disconnected w = async_phase Finished (async_remove (async_ClearHead w))"

definition async_catch :: "async_world \<Rightarrow> async_world" where
  "async_catch w = async_phase Finished w"

definition async_try :: "async_world \<Rightarrow> fault + async_world \<Rightarrow> fault + async_world" where
  "async_try w r =
     (case r of Inr w' \<Rightarrow> Inr w'
      | Inl e \<Rightarrow> if is_exception e then Inr (async_catch w) else Inl e)"

fun async_co_head :: "net_ops \<Rightarrow> read_result \<Rightarrow> async_world \<Rightarrow> fault + async_world" where
  "async_co_head net Read_failed w = Inr (async_catch w)"
| "async_co_head net (Read_bytes bs) w =
     (if bs = [] then Inr (async_disconnected w)
      else and_then (async_fill_head bs w) (\<lambda>w.
           async_try w (and_then (async_PraseHead net w) async_read_body)))"

text \<open>How many bytes the outstanding read waits for.\<close>

definition async_read_size :: "async_world \<Rightarrow> nat" where
  "async_read_size w =
     (case as_phase (aw_session w) of
        Reading_head \<Rightarrow> ASYNC_HEAD_LEN
      | Reading_body \<Rightarrow> (case async_recv_node w of Inl _ \<Rightarrow> 0 | Inr (m, n) \<Rightarrow> buffer_size n)
      | _ \<Rightarrow> 0)"

fun async_co_body :: "read_result \<Rightarrow> async_world \<Rightarrow> fault + async_world" where
  "async_co_body Read_failed w = Inr (async_catch w)"
| "async_co_body (Read_bytes bs) w =
     (if bs = [] then
        (if async_read_size w = 0 then Inr (async_disconnected w) else Inr w)
      else and_then (async_fill_body bs w) (\<lambda>w'.
           if length bs < async_read_size w then Inr w'
           else and_then (async_PraseMsg w') (\<lambda>w'. Inr (async_phase Reading_head w'))))"

definition async_co_step :: "net_ops \<Rightarrow> read_result \<Rightarrow> async_world \<Rightarrow> fault + async_world" where
  "async_co_step net r w =
     (case as_phase (aw_session w) of
        Reading_head \<Rightarrow> async_co_head net r w
      | Reading_body \<Rightarrow> async_co_body r w
      | _ \<Rightarrow> Inr w)"

text \<open>The callback version: no \<open>catch\<close>, and every error erases the session from the table.\<close>

fun async_HandlerReadHead :: "net_ops \<Rightarrow> read_result \<Rightarrow> async_world \<Rightarrow> fault + async_world" where
  "async_HandlerReadHead net Read_failed w = Inr (async_disconnected w)"
| "async_HandlerReadHead net (Read_bytes bs) w =
     and_then (async_fill_head bs w) (\<lambda>w.
     and_then (async_PraseHead net w) async_read_body)"

fun async_HandlerReadMsg :: "read_result \<Rightarrow> async_world \<Rightarrow> fault + async_world" where
  "async_HandlerReadMsg Read_failed w = Inr (async_phase Finished (async_remove (async_ClearMsg w)))"
| "async_HandlerReadMsg (Read_bytes bs) w =
     and_then (async_fill_body bs w) (\<lambda>w.
     and_then (async_PraseMsg w) (\<lambda>w. Inr (async_phase Reading_head w)))"

subsection \<open>The logic system\<close>

definition HelloWorldCallback :: "net_ops \<Rightarrow> 'j json_ops \<Rightarrow> addr \<Rightarrow> async_world \<Rightarrow> fault + async_world" where
  "HelloWorldCallback net js m w =
     (case aw_nodes w m of None \<Rightarrow> Inl Null_deref
      | Some n \<Rightarrow>
         and_then (c_str (an_data n)) (\<lambda>text.
         let (parsed, root) = json_parse js text in
         and_then (json_set js root ''role'' (json_str js ''server'')) (\<lambda>root.
         and_then (async_Send_view net (toStyledString js root) (an_msgId n) (aw_session w)) (\<lambda>s.
         Inr (async_ClearHead (w\<lparr>aw_session := s\<rparr>))))))"

definition async_callbacks :: "u16 \<rightharpoonup> unit" where
  "async_callbacks = [HelloWorld \<mapsto> ()]"

definition async_doWork :: "net_ops \<Rightarrow> 'j json_ops \<Rightarrow> async_world \<Rightarrow> fault + async_world" where
  "async_doWork net js w =
     (case aw_queue w of [] \<Rightarrow> Inl Empty_pop
      | m # q \<Rightarrow>
         let w = w\<lparr>aw_queue := q\<rparr> in
         (case aw_nodes w m of None \<Rightarrow> Inl Null_deref
          | Some n \<Rightarrow>
             (case async_callbacks (an_msgId n) of
                Some _ \<Rightarrow> HelloWorldCallback net js m w
              | None \<Rightarrow> Inr w)))"

subsection \<open>The server, as it treats one session\<close>

text \<open>The two parts of \<open>HandlerAccept\<close> that concern the accepted session, which runs on another
  thread from the first on.\<close>

definition async_accept_start :: "async_world \<Rightarrow> async_world" where
  "async_accept_start w = async_Start (as_upd (\<lambda>s. s\<lparr>as_open := True\<rparr>) w)"

definition async_accept_save :: "async_world \<Rightarrow> async_world" where
  "async_accept_save w = as_upd (\<lambda>s. s\<lparr>as_listed := True\<rparr>) w"

definition async_HandlerAccept :: "bool \<Rightarrow> bool \<Rightarrow> async_world \<Rightarrow> fault + async_world" where
  "async_HandlerAccept ec peer_known w =
     (if ec then Inr w
      else if \<not> peer_known then Inl System_error
      else Inr (async_accept_save (async_accept_start w)))"

subsection \<open>The send queue is a write pump\<close>

definition async_submit :: "async_node \<Rightarrow> async_session \<Rightarrow> async_session" where
  "async_submit n s = (if async_room s then async_push n s else s)"

interpretation async_pump: write_pump as_sendQueue async_room async_submit async_write_next as_writing
  async_write_failed
  by unfold_locales
     (auto simp: async_submit_def async_push_def async_write_next_def async_write_failed_def async_room_def
       ASYNC_SEND_QUEUE_def Let_def split: list.splits)

end
