(* ===== verification/Async_Client.thy ===== *)
theory Async_Client
  imports Async_Session
begin

text \<open>
  The test client \<open>src/src/02_async/RunClient.cpp\<close>: building and sending a request in a stack
  array of \<open>MAX_LEN\<close> bytes, and receiving a response into one; and how the client's frames, and the
  server's own, are read by the session of \<open>Async_Session\<close>. Of \<open>boost::asio\<close> the model uses that
  \<open>buffer\<close> of an array is limited to the array's size; what a socket delivers is an argument.
\<close>

definition CLIENT_BUF :: nat where "CLIENT_BUF = 2048"

text \<open>\<open>root["data"] = data.data()\<close> takes the view's characters up to the first null character.\<close>

definition client_message :: "'j json_ops \<Rightarrow> string \<Rightarrow> fault + string" where
  "client_message js data =
     and_then (json_set js (json_null js) ''role'' (json_str js ''client'')) (\<lambda>root.
     and_then (json_set js root ''data'' (json_str js (takeWhile (\<lambda>c. c \<noteq> CHR 0x00) data))) (\<lambda>root.
     Inr (toStyledString js root)))"

definition BaseSend_bytes :: "net_ops \<Rightarrow> string \<Rightarrow> u16 \<Rightarrow> fault + bytes" where
  "BaseSend_bytes net msg msg_id =
     (let requestLen = of_nat (length msg) :: u16;
          sendMsg = map Some (replicate CLIENT_BUF 0) in
      and_then (memcpy_to sendMsg 0 (short_repr (host_to_network_short net msg_id))) (\<lambda>sendMsg.
      and_then (memcpy_to sendMsg 2 (short_repr (host_to_network_short net requestLen))) (\<lambda>sendMsg.
      if sint requestLen < 0 then Inl Buffer_overflow
      else and_then (memcpy_to sendMsg ASYNC_HEAD_LEN (take (unat requestLen) (bytes_of msg))) (\<lambda>sendMsg.
           memcpy_from sendMsg 0 (min CLIENT_BUF (unat requestLen + ASYNC_HEAD_LEN))))))"

definition BaseSend :: "net_ops \<Rightarrow> 'j json_ops \<Rightarrow> string \<Rightarrow> u16 \<Rightarrow> fault + bytes" where
  "BaseSend net js data msg_id =
     and_then (client_message js data) (\<lambda>msg. BaseSend_bytes net msg msg_id)"

definition testSend :: "net_ops \<Rightarrow> 'j json_ops \<Rightarrow> fault + bytes" where
  "testSend net js = BaseSend net js ''hello world'' HelloWorld"

text \<open>One response out of what the connection delivers: \<open>None\<close> while it delivers too little;
  otherwise the id, what is printed of the body, and what is left on the connection.\<close>

definition testRecv :: "net_ops \<Rightarrow> bytes \<Rightarrow> fault + (u16 \<times> string \<times> bytes) option" where
  "testRecv net incoming =
     (if length incoming < ASYNC_HEAD_LEN then Inr None
      else
        let responseId = network_to_host_short net (short_of (take 2 incoming));
            responseLen = network_to_host_short net (short_of (take 2 (drop 2 incoming)));
            size = (if sint responseLen < 0 then CLIENT_BUF else min CLIENT_BUF (unat responseLen));
            incoming = drop ASYNC_HEAD_LEN incoming
        in if length incoming < size then Inr None
           else and_then (c_string (take size incoming @ replicate (CLIENT_BUF - size) 0)) (\<lambda>s.
                Inr (Some (responseId, s, drop size incoming))))"

text \<open>\<open>userInputSend\<close>, for the line it reads.\<close>

definition userInputSend :: "net_ops \<Rightarrow> 'j json_ops \<Rightarrow> string \<Rightarrow> fault + bytes" where
  "userInputSend net js msg = BaseSend net js msg HelloWorld"

text \<open>
  The threads of \<open>main\<close>: the sender sends \<open>SEND_NUM\<close> requests, the receiver takes as many responses
  out of what the connection delivers, and waits for ever where it delivers too little. \<open>main\<close>
  returns the error of the connection when there is one; otherwise what its threads did counts.
\<close>

definition SEND_NUM :: nat where "SEND_NUM = 10"

fun client_sends :: "net_ops \<Rightarrow> 'j json_ops \<Rightarrow> nat \<Rightarrow> fault + bytes" where
  "client_sends net js 0 = Inr []"
| "client_sends net js (Suc k) =
     and_then (testSend net js) (\<lambda>bs. and_then (client_sends net js k) (\<lambda>rest. Inr (bs @ rest)))"

fun client_receives :: "net_ops \<Rightarrow> nat \<Rightarrow> bytes \<Rightarrow> fault + ((u16 \<times> string) list \<times> bytes)" where
  "client_receives net 0 incoming = Inr ([], incoming)"
| "client_receives net (Suc k) incoming =
     and_then (testRecv net incoming) (\<lambda>r.
     case r of None \<Rightarrow> Inr ([], incoming)
     | Some (i, s, rest) \<Rightarrow>
         and_then (client_receives net k rest) (\<lambda>(rs, rest). Inr ((i, s) # rs, rest)))"

definition client_main :: "net_ops \<Rightarrow> 'j json_ops \<Rightarrow> int \<Rightarrow> bytes \<Rightarrow> fault + (int \<times> bytes \<times> (u16 \<times> string) list)" where
  "client_main net js ec incoming =
     (if ec \<noteq> 0 then Inr (ec, [], [])
      else and_then (client_sends net js SEND_NUM) (\<lambda>sent.
           and_then (client_receives net SEND_NUM incoming) (\<lambda>(rs, _).
           Inr (0, sent, rs))))"

subsection \<open>Frames with a \<open>short\<close> length\<close>

definition short_frame :: "u16 \<Rightarrow> bytes \<Rightarrow> bytes" where
  "short_frame i msg = be16 i @ be16 (of_nat (length msg)) @ msg"

lemma length_short_frame [simp]: "length (short_frame i msg) = 4 + length msg"
  by (simp add: short_frame_def)

lemma short_len:
  assumes "length msg < 32768"
  shows "unat (of_nat (length msg) :: u16) = length msg" "sint (of_nat (length msg) :: u16) = int (length msg)"
proof -
  show u: "unat (of_nat (length msg) :: u16) = length msg"
    using assms unat_of_nat [where 'a = 16, of "length msg"] by simp
  have "sint (of_nat (length msg) :: u16) = signed_take_bit 15 (int (length msg))"
    by (simp add: signed_of_nat)
  also have "\<dots> = int (length msg)"
    using assms by (intro signed_take_bit_int_eq_self) simp_all
  finally show "sint (of_nat (length msg) :: u16) = int (length msg)" .
qed

lemma short_sum:
  assumes "length msg < 32768"
  shows "sint (of_nat (length msg) + 4 :: u16) =
    (if length msg \<le> 32763 then int (length msg) + 4 else int (length msg) + 4 - 65536)"
proof -
  have "sint (of_nat (length msg) + 4 :: u16) = sint (of_nat (length msg + 4) :: u16)" by simp
  also have "\<dots> = signed_take_bit 15 (int (length msg + 4))" by (simp only: signed_of_nat, simp)
  also have "\<dots> = (if length msg \<le> 32763 then int (length msg) + 4 else int (length msg) + 4 - 65536)"
    using assms
    by (auto simp: signed_take_bit_eq_take_bit_shift take_bit_eq_mod mod_pos_geq mod_pos_pos_trivial)
  finally show ?thesis .
qed

lemma async_SendNode_data:
  assumes net: "network_order net" and len: "length msg \<le> 32763"
  shows "async_SendNode net msg (of_nat (length msg)) i =
    Inr \<lparr>an_curLen = 0, an_totalLen = int (length msg) + 4,
         an_data = map Some (short_frame i msg @ [0]), an_msgId = i\<rparr>"
proof -
  have l: "length msg < 32768" using len by simp
  note order = network_orderD [OF net]
  have size: "nat (int (length msg) + 4) = length msg + 4" "nat (int (length msg) + 5) = length msg + 5"
    by simp_all
  show ?thesis
    using len
    by (simp add: async_SendNode_def async_MsgNode_def an_write_def order short_len [OF l] short_sum [OF l]
        ASYNC_HEAD_LEN_def memcpy_to_fits new_array_def short_frame_def size)
qed

lemma async_SendNode_wraps:
  assumes "32763 < length msg" and "length msg < 32768"
  shows "async_SendNode net msg (of_nat (length msg)) i = Inl Bad_array_new_length"
  using assms by (simp add: async_SendNode_def async_MsgNode_def short_sum ASYNC_HEAD_LEN_def)

lemma BaseSend_bytes_fits:
  assumes net: "network_order net" and len: "length msg \<le> 2044"
  shows "BaseSend_bytes net msg i = Inr (short_frame i (bytes_of msg))"
proof -
  have l: "length msg < 32768" using len by simp
  have s: "unat (of_nat (length msg) :: u16) = length msg" "sint (of_nat (length msg) :: u16) = int (length msg)"
    using short_len [of "bytes_of msg"] l by simp_all
  note order = network_orderD [OF net]
  have "memcpy_from (map Some (short_frame i (bytes_of msg)) @ map Some (replicate (2044 - length msg) 0))
      0 (length msg + 4) = Inr (short_frame i (bytes_of msg))"
    by (rule memcpy_from_written [of _ "[]"]) simp_all
  then show ?thesis
    using len
    by (simp add: BaseSend_bytes_def Let_def s order memcpy_to_fits ASYNC_HEAD_LEN_def CLIENT_BUF_def
        short_frame_def)
qed

lemma BaseSend_bytes_overflows:
  assumes "network_order net" and "2044 < length msg" and "length msg < 32768"
  shows "BaseSend_bytes net msg i = Inl Buffer_overflow"
proof -
  have s: "unat (of_nat (length msg) :: u16) = length msg" "sint (of_nat (length msg) :: u16) = int (length msg)"
    using short_len [of "bytes_of msg"] assms(3) by simp_all
  show ?thesis
    using assms(2)
    by (simp add: BaseSend_bytes_def Let_def s network_orderD [OF assms(1)] memcpy_to_fits memcpy_to_overflow
        ASYNC_HEAD_LEN_def CLIENT_BUF_def)
qed

subsection \<open>Heads in\<close>

definition async_idle :: "async_world \<Rightarrow> bool" where
  "async_idle w =
     (as_phase (aw_session w) = Reading_head \<and> length (an_data (as_head (aw_session w))) = 5)"

lemma async_head_filled:
  assumes "async_idle w"
  shows "\<exists>h x. async_fill_head (be16 i @ be16 len) w = Inr (as_upd (\<lambda>s. s\<lparr>as_head := h\<rparr>) w) \<and>
    an_data h = map Some (be16 i @ be16 len) @ [x]"
proof -
  let ?d = "an_data (as_head (aw_session w))"
  have "length ?d = 5" using assms by (simp add: async_idle_def)
  then have "length (drop 4 ?d) = 1" by simp
  then obtain x where "drop 4 ?d = [x]" by (cases "drop 4 ?d") auto
  with \<open>length ?d = 5\<close> show ?thesis
    by (intro exI [of _ "(as_head (aw_session w))\<lparr>an_data := map Some (be16 i @ be16 len) @ [x]\<rparr>"] exI [of _ x])
      (simp add: async_fill_head_def an_write_def memcpy_to_fits)
qed

lemma async_head_fields:
  assumes net: "network_order net" and d: "an_data h = map Some (be16 i @ be16 len) @ [x]"
  shows "async_head_id net h = Inr i" and "async_head_len net h = Inr len"
proof -
  have d': "an_data h = map Some [] @ map Some (be16 i) @ (map Some (be16 len) @ [x])"
    "an_data h = map Some (be16 i) @ map Some (be16 len) @ [x]" using d by simp_all
  show "async_head_id net h = Inr i"
    using memcpy_from_written [OF d'(1)] network_orderD(3) [OF net]
    by (simp add: async_head_id_def an_read_def)
  show "async_head_len net h = Inr len"
    using memcpy_from_written [OF d'(2)] network_orderD(3) [OF net]
    by (simp add: async_head_len_def an_read_def)
qed

text \<open>The head step of the coroutine, for every id and length, before a first body.\<close>

lemma async_head_step:
  assumes net: "network_order net" and idle: "async_idle w"
  shows "\<exists>h. length (an_data h) = 5 \<and>
    async_co_step net (Read_bytes (be16 i @ be16 len)) w =
     (let w1 = as_upd (\<lambda>s. s\<lparr>as_head := h\<rparr>) w in
      if ASYNC_MAX_ID < sint i \<or> ASYNC_MAX_LEN < sint len
      then async_read_body (async_remove (async_ClearHead w1))
      else if sint len < - 1 then Inr (async_catch w1)
      else Inr (async_phase Reading_body (as_upd (\<lambda>s. s\<lparr>as_recvMsg := Some (aw_next w)\<rparr>)
             (w1\<lparr>aw_nodes := (aw_nodes w)(aw_next w \<mapsto> \<lparr>an_curLen = 0, an_totalLen = sint len,
                     an_data = new_array (nat (sint len + 1)), an_msgId = i\<rparr>),
                 aw_next := aw_next w + 1\<rparr>))))"
proof -
  obtain h x where h: "async_fill_head (be16 i @ be16 len) w = Inr (as_upd (\<lambda>s. s\<lparr>as_head := h\<rparr>) w)"
    and d: "an_data h = map Some (be16 i @ be16 len) @ [x]"
    using async_head_filled [OF idle] by blast
  note f = async_head_fields [OF net d]
  have ne: "be16 i @ be16 len \<noteq> []" by (simp add: be16_def)
  have p: "as_phase (aw_session w) = Reading_head" using idle by (simp add: async_idle_def)
  have try_read: "async_try v (async_read_body u) = async_read_body u" for u v
    by (auto simp: async_try_def async_read_body_def async_recv_node_def split: option.splits)
  show ?thesis
  proof (intro exI [of _ h] conjI)
    show "length (an_data h) = 5" using d by simp
    show "async_co_step net (Read_bytes (be16 i @ be16 len)) w =
     (let w1 = as_upd (\<lambda>s. s\<lparr>as_head := h\<rparr>) w in
      if ASYNC_MAX_ID < sint i \<or> ASYNC_MAX_LEN < sint len
      then async_read_body (async_remove (async_ClearHead w1))
      else if sint len < - 1 then Inr (async_catch w1)
      else Inr (async_phase Reading_body (as_upd (\<lambda>s. s\<lparr>as_recvMsg := Some (aw_next w)\<rparr>)
             (w1\<lparr>aw_nodes := (aw_nodes w)(aw_next w \<mapsto> \<lparr>an_curLen = 0, an_totalLen = sint len,
                     an_data = new_array (nat (sint len + 1)), an_msgId = i\<rparr>),
                 aw_next := aw_next w + 1\<rparr>))))"
      using h f ne p
      by (simp add: async_co_step_def async_PraseHead_def Let_def try_read as_upd_def async_RecvNode_def
          async_MsgNode_def)
        (auto simp: async_try_def async_read_body_def async_recv_node_def as_upd_def async_phase_def)
  qed
qed

lemma sint_max_len [simp]: "ASYNC_MAX_LEN = 2048" "ASYNC_MAX_ID = 10240"
  by (simp_all add: ASYNC_MAX_LEN_def ASYNC_MAX_ID_def)

text \<open>A body that completes.\<close>

lemma async_body_step:
  assumes "as_phase (aw_session w) = Reading_body" and "as_recvMsg (aw_session w) = Some m"
    and "aw_nodes w m = Some n" and "an_totalLen n = int (length bs)" and "length (an_data n) = length bs + 1"
    and "bs \<noteq> []" and "length bs \<le> 2048"
  shows "async_co_step net (Read_bytes bs) w = Inr (async_phase Reading_head (async_PostMsgToQue m
    (aw_put m (n\<lparr>an_data := map Some (bs @ [0])\<rparr>) w)))"
proof -
  have "length (drop (length bs) (an_data n)) = 1" using assms(5) by simp
  then obtain x where x: "drop (length bs) (an_data n) = [x]" by (cases "drop (length bs) (an_data n)") auto
  have size: "async_read_size w = length bs"
    using assms by (simp add: async_read_size_def async_recv_node_def buffer_size_def)
  show ?thesis
    using assms x size
    by (simp add: async_co_step_def async_fill_body_def async_recv_node_def an_write_def memcpy_to_fits
        async_PraseMsg_def aw_put_def)
qed

subsection \<open>An idle session, for the witnesses\<close>

definition async_lone :: async_world where
  "async_lone = \<lparr>aw_session = \<lparr>as_sendQueue = [], as_writing = None,
       as_head = \<lparr>an_curLen = 0, an_totalLen = 4, an_data = new_array 5, an_msgId = - 1\<rparr>,
       as_recvMsg = None, as_phase = Reading_head, as_listed = True, as_open = True\<rparr>,
     aw_nodes = Map.empty, aw_next = 0, aw_queue = []\<rparr>"

lemma async_lone_idle: "async_idle async_lone"
  by (simp add: async_idle_def async_lone_def)

text \<open>
  The sending node of the message server. A message of up to 32763 bytes becomes its frame;
  for one of 32764 to 32767 bytes the sum with the head's length wraps to a negative \<open>short\<close> and
  \<open>new\<close> throws, in a worker that does not catch it.
\<close>
lemma async_SendNode_bounds:
  assumes "network_order net" and "length msg < 32768"
  shows "if length msg \<le> 32763
    then \<exists>n. async_SendNode net msg (of_nat (length msg)) i = Inr n \<and>
      async_wire n = Inr (be16 i @ be16 (of_nat (length msg)) @ msg) \<and> None \<notin> set (an_data n) \<and>
      an_totalLen n = int (length msg) + 4
    else async_SendNode net msg (of_nat (length msg)) i = Inl Bad_array_new_length"
proof (cases "length msg \<le> 32763")
  case True
  then have "(int (length msg) + 4) mod 18446744073709551616 = int (length msg) + 4" by simp
  then have "buffer_size \<lparr>an_curLen = 0, an_totalLen = int (length msg) + 4,
      an_data = map Some (short_frame i msg @ [0]), an_msgId = i\<rparr> = length (short_frame i msg)"
    by (simp add: buffer_size_def nat_add_distrib)
  then have "async_wire \<lparr>an_curLen = 0, an_totalLen = int (length msg) + 4,
      an_data = map Some (short_frame i msg @ [0]), an_msgId = i\<rparr> = Inr (short_frame i msg)"
    by (simp add: async_wire_def an_read_def memcpy_from_def)
  then show ?thesis
    using True async_SendNode_data [OF assms(1) True, of i] by (auto simp: short_frame_def)
next
  case False
  with assms(2) async_SendNode_wraps [of msg net i] show ?thesis by simp
qed

lemma async_request_frame:
  assumes "network_order net" and "async_idle w" and "sint i \<le> 10240"
    and "0 < length msg" and "length msg < 32768" and "length (aw_queue w) < ASYNC_RECV_QUEUE"
  shows "if length msg \<le> 2044
    then \<exists>bs w1 w2 n. BaseSend_bytes net msg i = Inr bs \<and>
      async_co_step net (Read_bytes (take 4 bs)) w = Inr w1 \<and> async_read_size w1 = length (drop 4 bs) \<and>
      async_co_step net (Read_bytes (drop 4 bs)) w1 = Inr w2 \<and> async_idle w2 \<and>
      aw_queue w2 = aw_queue w @ [aw_next w] \<and> aw_nodes w2 (aw_next w) = Some n \<and>
      an_msgId n = i \<and> an_data n = map Some (bytes_of msg @ [0]) \<and>
      as_sendQueue (aw_session w2) = as_sendQueue (aw_session w) \<and>
      as_open (aw_session w2) = as_open (aw_session w) \<and> as_recvMsg (aw_session w2) = Some (aw_next w)
    else BaseSend_bytes net msg i = Inl Buffer_overflow"
proof (cases "length msg \<le> 2044")
  case False
  with BaseSend_bytes_overflows [OF assms(1) _ assms(5), of i] show ?thesis by simp
next
  case True
  let ?len = "of_nat (length msg) :: u16"
  let ?bs = "short_frame i (bytes_of msg)"
  have sint: "sint ?len = int (length msg)" using short_len [of "bytes_of msg"] assms(5) by simp
  have split: "take 4 ?bs = be16 i @ be16 ?len" "drop 4 ?bs = bytes_of msg"
    by (simp_all add: short_frame_def be16_def)
  obtain h where h: "length (an_data h) = 5" and step: "async_co_step net (Read_bytes (be16 i @ be16 ?len)) w =
     (let w1 = as_upd (\<lambda>s. s\<lparr>as_head := h\<rparr>) w in
      if ASYNC_MAX_ID < sint i \<or> ASYNC_MAX_LEN < sint ?len
      then async_read_body (async_remove (async_ClearHead w1))
      else if sint ?len < - 1 then Inr (async_catch w1)
      else Inr (async_phase Reading_body (as_upd (\<lambda>s. s\<lparr>as_recvMsg := Some (aw_next w)\<rparr>)
             (w1\<lparr>aw_nodes := (aw_nodes w)(aw_next w \<mapsto> \<lparr>an_curLen = 0, an_totalLen = sint ?len,
                     an_data = new_array (nat (sint ?len + 1)), an_msgId = i\<rparr>),
                 aw_next := aw_next w + 1\<rparr>))))"
    using async_head_step [OF assms(1,2), of i ?len] by blast
  let ?n = "\<lparr>an_curLen = 0, an_totalLen = int (length msg), an_data = new_array (length msg + 1), an_msgId = i\<rparr>"
  let ?v = "async_phase Reading_body (as_upd (\<lambda>s. s\<lparr>as_recvMsg := Some (aw_next w)\<rparr>)
      ((as_upd (\<lambda>s. s\<lparr>as_head := h\<rparr>) w)\<lparr>aw_nodes := (aw_nodes w)(aw_next w \<mapsto> ?n), aw_next := aw_next w + 1\<rparr>))"
  have "async_co_step net (Read_bytes (take 4 ?bs)) w = Inr ?v"
    using step True assms(3) by (simp add: split sint Let_def nat_add_distrib)
  moreover have "async_read_size ?v = length (drop 4 ?bs)"
    using True by (simp add: async_phase_def as_upd_def async_read_size_def async_recv_node_def buffer_size_def)
  moreover have "async_co_step net (Read_bytes (drop 4 ?bs)) ?v = Inr (async_phase Reading_head
      (async_PostMsgToQue (aw_next w) (aw_put (aw_next w) (?n\<lparr>an_data := map Some (bytes_of msg @ [0])\<rparr>) ?v)))"
    unfolding split(2) using True assms(4)
    by (intro async_body_step) (auto simp: async_phase_def as_upd_def bytes_of_def)
  ultimately show ?thesis
    using True BaseSend_bytes_fits [OF assms(1) True, of i] h assms(6)
    by (auto simp: async_idle_def async_phase_def as_upd_def async_PostMsgToQue_def aw_put_def)
qed

subsection \<open>Properties\<close>

text \<open>
  C32: what the first head of a session of the message server leads to. An id above 10240 or a
  length above 2048 dereferences a null pointer; a length below -1 makes \<open>new\<close> throw, which ends
  the coroutine with the session still in the server's table; the length -1 passes all checks, the
  body is read into an array of no bytes with a size of \<open>2 ^ 64 - 1\<close>, and whatever arrives is
  written past it; the others get an array one byte longer than the body.
\<close>
theorem async_head_outcomes:
  assumes "network_order net" and "async_idle w" and "as_recvMsg (aw_session w) = None"
  shows "if 10240 < sint i \<or> 2048 < sint len
    then async_co_step net (Read_bytes (be16 i @ be16 len)) w = Inl Null_deref
    else \<exists>w'. async_co_step net (Read_bytes (be16 i @ be16 len)) w = Inr w' \<and>
      (if sint len < - 1
       then as_phase (aw_session w') = Finished \<and> as_listed (aw_session w') = as_listed (aw_session w)
       else as_phase (aw_session w') = Reading_body \<and>
         (if sint len = - 1
          then async_read_size w' = 2 ^ 64 - 1 \<and>
            async_co_step net (Read_bytes (b # bs)) w' = Inl Buffer_overflow
          else async_read_size w' = nat (sint len) \<and>
            (\<exists>m n. async_recv_node w' = Inr (m, n) \<and> length (an_data n) = async_read_size w' + 1)))"
proof -
  obtain h where "async_co_step net (Read_bytes (be16 i @ be16 len)) w =
     (let w1 = as_upd (\<lambda>s. s\<lparr>as_head := h\<rparr>) w in
      if ASYNC_MAX_ID < sint i \<or> ASYNC_MAX_LEN < sint len
      then async_read_body (async_remove (async_ClearHead w1))
      else if sint len < - 1 then Inr (async_catch w1)
      else Inr (async_phase Reading_body (as_upd (\<lambda>s. s\<lparr>as_recvMsg := Some (aw_next w)\<rparr>)
             (w1\<lparr>aw_nodes := (aw_nodes w)(aw_next w \<mapsto> \<lparr>an_curLen = 0, an_totalLen = sint len,
                     an_data = new_array (nat (sint len + 1)), an_msgId = i\<rparr>),
                 aw_next := aw_next w + 1\<rparr>))))"
    using async_head_step [OF assms(1,2), of i len] by blast
  note step = this [unfolded Let_def]
  consider "10240 < sint i \<or> 2048 < sint len" | "sint i \<le> 10240" "sint len \<le> 2048" "sint len < - 1"
    | "sint i \<le> 10240" "sint len = - 1" | "sint i \<le> 10240" "0 \<le> sint len" "sint len \<le> 2048"
    by linarith
  then show ?thesis
  proof cases
    case 1
    with step assms(3) show ?thesis
      by (simp add: async_read_body_def async_recv_node_def async_remove_def async_ClearHead_def as_upd_def)
  next
    case 2
    with step show ?thesis by (simp add: async_catch_def async_phase_def as_upd_def)
  next
    case 3
    with step show ?thesis
      by (simp add: async_phase_def as_upd_def async_read_size_def async_recv_node_def buffer_size_def
          async_co_step_def async_fill_body_def an_write_def memcpy_to_def)
  next
    case 4
    then have "nat (sint len mod 18446744073709551616) = nat (sint len)" by simp
    with step 4 show ?thesis
      by (simp add: async_phase_def as_upd_def async_read_size_def async_recv_node_def buffer_size_def nat_add_distrib)
  qed
qed

theorem async_head_outcomes_witness:
  "\<exists>w'. async_co_step swap_ops (Read_bytes (be16 1001 @ be16 65535)) async_lone = Inr w' \<and>
    async_co_step swap_ops (Read_bytes [1]) w' = Inl Buffer_overflow"
  using async_head_outcomes [OF swap_ops_network_order async_lone_idle, of 1001 65535 1 "[]"]
  by (auto simp: async_lone_def)

end
