(* ===== verification/Async_Props.thy ===== *)
theory Async_Props
  imports Async_Client Ftp_Logic_Props
begin

text \<open>
  Type safety of the message server of \<open>src/src/02_async\<close>, handler by handler, as one session sees
  it: an invariant that says what every array, queue and reference of that world may hold, and for
  every handler how it can fault there; then a whole exchange between the client and the server.
  \<open>Async_Server\<close> puts the sessions together.
\<close>

subsection \<open>Well-formed states\<close>

definition async_node_ok :: "async_node \<Rightarrow> bool" where
  "async_node_ok n =
     (- 1 \<le> an_totalLen n \<and> an_totalLen n \<le> ASYNC_MAX_LEN \<and>
      length (an_data n) = nat (an_totalLen n + 1))"

definition async_readable :: "async_node \<Rightarrow> bool" where
  "async_readable n = (None \<notin> set (an_data n) \<and> an_data n \<noteq> [] \<and> last (an_data n) = Some 0)"

definition sendable :: "async_node \<Rightarrow> bool" where
  "sendable n = (\<exists>bs. async_wire n = Inr bs \<and> length bs = nat (an_totalLen n))"

definition async_session_ok :: "(addr \<rightharpoonup> async_node) \<Rightarrow> async_session \<Rightarrow> bool" where
  "async_session_ok ns s =
     (length (an_data (as_head s)) = 5 \<and>
      (case as_recvMsg s of None \<Rightarrow> as_phase s \<noteq> Reading_body | Some m \<Rightarrow> m \<in> dom ns) \<and>
      length (as_sendQueue s) \<le> ASYNC_SEND_QUEUE \<and> (\<forall>n\<in>set (as_sendQueue s). sendable n) \<and>
      (as_writing s = None \<or> as_sendQueue s \<noteq> [] \<and> as_writing s = Some (hd (as_sendQueue s))))"

definition async_queued_ok :: "(addr \<rightharpoonup> async_node) \<Rightarrow> addr \<Rightarrow> bool" where
  "async_queued_ok ns m = (case ns m of None \<Rightarrow> False | Some n \<Rightarrow> async_readable n)"

definition async_ok :: "async_world \<Rightarrow> bool" where
  "async_ok w =
     ((\<forall>m n. aw_nodes w m = Some n \<longrightarrow> async_node_ok n \<and> m < aw_next w) \<and>
      async_session_ok (aw_nodes w) (aw_session w) \<and>
      (\<forall>m\<in>set (aw_queue w). async_queued_ok (aw_nodes w) m) \<and>
      length (aw_queue w) \<le> ASYNC_RECV_QUEUE)"

lemma async_okD:
  assumes "async_ok w"
  shows "aw_nodes w m = Some n \<Longrightarrow> async_node_ok n" "aw_nodes w m = Some n \<Longrightarrow> m < aw_next w"
    "async_session_ok (aw_nodes w) (aw_session w)" "m \<in> set (aw_queue w) \<Longrightarrow> async_queued_ok (aw_nodes w) m"
    "length (aw_queue w) \<le> ASYNC_RECV_QUEUE"
  using assms by (auto simp: async_ok_def)

lemma async_ok_session:
  "async_ok w \<Longrightarrow> async_session_ok (aw_nodes w) (f (aw_session w)) \<Longrightarrow> async_ok (as_upd f w)"
  by (simp add: async_ok_def as_upd_def)

lemmas async_session_simps = async_session_ok_def as_upd_def

lemma async_ok_ClearHead: "async_ok w \<Longrightarrow> async_ok (async_ClearHead w)"
  unfolding async_ClearHead_def
  by (rule async_ok_session) (auto simp: async_ok_def async_session_ok_def async_node_Clear_def split: option.splits)

lemma async_ok_remove: "async_ok w \<Longrightarrow> async_ok (async_remove w)"
  unfolding async_remove_def by (rule async_ok_session) (auto simp: async_ok_def async_session_ok_def split: option.splits)

lemma async_ok_phase: "async_ok w \<Longrightarrow> p \<noteq> Reading_body \<Longrightarrow> async_ok (async_phase p w)"
  unfolding async_phase_def
  by (rule async_ok_session) (auto simp: async_ok_def async_session_ok_def split: option.splits)

lemma async_ok_disconnected: "async_ok w \<Longrightarrow> async_ok (async_disconnected w)"
  by (simp add: async_disconnected_def async_ok_phase async_ok_remove async_ok_ClearHead)

lemma async_ok_catch: "async_ok w \<Longrightarrow> async_ok (async_catch w)"
  by (simp add: async_catch_def async_ok_phase)

lemma async_ok_put:
  assumes "async_ok w" and "aw_nodes w m = Some n0" and "async_node_ok n"
    and "async_readable n0 \<Longrightarrow> async_readable n"
  shows "async_ok (aw_put m n w)"
proof -
  have "async_queued_ok ((aw_nodes w)(m \<mapsto> n)) k" if "k \<in> set (aw_queue w)" for k
    using async_okD(4) [OF assms(1) that] assms(2,4) by (auto simp: async_queued_ok_def)
  moreover have "async_session_ok ((aw_nodes w)(m \<mapsto> n)) (aw_session w)"
    using async_okD(3) [OF assms(1)] by (auto simp: async_session_ok_def split: option.splits)
  ultimately show ?thesis
    using assms(1,2,3) by (auto simp: async_ok_def aw_put_def)
qed

lemma async_ok_ClearMsg: "async_ok w \<Longrightarrow> async_ok (async_ClearMsg w)"
proof (cases "as_recvMsg (aw_session w)")
  case (Some m)
  assume w: "async_ok w"
  then obtain n where n: "aw_nodes w m = Some n"
    using async_okD(3) [OF w] Some by (auto simp: async_session_ok_def)
  then have "async_ClearMsg w = aw_put m (async_node_Clear n) w"
    using Some by (simp add: async_ClearMsg_def aw_put_def)
  moreover have "async_ok (aw_put m (async_node_Clear n) w)"
    using async_okD(1) [OF w n]
    by (intro async_ok_put [OF w n]) (simp_all add: async_node_ok_def async_readable_def async_node_Clear_def)
  ultimately show ?thesis by simp
qed (simp add: async_ClearMsg_def)

lemma async_ok_Post:
  assumes "async_ok w" and "aw_nodes w m = Some n" and "async_readable n"
  shows "async_ok (async_PostMsgToQue m w)"
  using assms by (auto simp: async_ok_def async_PostMsgToQue_def async_queued_ok_def)

lemmas async_ok_intros = async_ok_ClearHead async_ok_remove async_ok_disconnected async_ok_catch
  async_ok_ClearMsg

subsection \<open>Receiving\<close>

definition head_refused_by :: "bytes \<Rightarrow> bool" where
  "head_refused_by bs =
     (ASYNC_MAX_ID < sint (short_of (rev (take 2 bs))) \<or> ASYNC_MAX_LEN < sint (short_of (rev (drop 2 bs))))"

lemma async_ok_head: "async_ok w \<Longrightarrow> length (an_data h) = 5 \<Longrightarrow> async_ok (as_upd (\<lambda>s. s\<lparr>as_head := h\<rparr>) w)"
  by (rule async_ok_session) (auto simp: async_ok_def async_session_ok_def split: option.splits)

lemma async_ok_read_body:
  assumes "async_ok w" and "as_recvMsg (aw_session w) = Some m"
  shows "\<exists>w'. async_read_body w = Inr w' \<and> async_ok w'"
proof -
  obtain n where "aw_nodes w m = Some n"
    using async_okD(3) [OF assms(1)] assms(2) by (auto simp: async_session_ok_def)
  moreover have "async_ok (async_phase Reading_body w)"
    unfolding async_phase_def using assms
    by (intro async_ok_session) (auto simp: async_ok_def async_session_ok_def)
  ultimately show ?thesis using assms(2) by (simp add: async_read_body_def async_recv_node_def)
qed

lemma async_ok_new:
  assumes w: "async_ok w" and len: "- 1 \<le> sint len" "sint len \<le> ASYNC_MAX_LEN"
  shows "async_ok (async_phase Reading_body (as_upd (\<lambda>s. s\<lparr>as_recvMsg := Some (aw_next w)\<rparr>)
    (w\<lparr>aw_nodes := (aw_nodes w)(aw_next w \<mapsto> \<lparr>an_curLen = 0, an_totalLen = sint len,
            an_data = new_array (nat (sint len + 1)), an_msgId = i\<rparr>), aw_next := aw_next w + 1\<rparr>)))"
    (is "async_ok (async_phase Reading_body (as_upd _ ?v))")
proof -
  have fresh: "aw_nodes w (aw_next w) = None"
    using async_okD(2) [OF w, of "aw_next w"] by (cases "aw_nodes w (aw_next w)") auto
  have "async_queued_ok (aw_nodes ?v) m" if "m \<in> set (aw_queue w)" for m
    using async_okD(4) [OF w that] fresh by (auto simp: async_queued_ok_def)
  moreover have "async_node_ok n \<and> m < aw_next w + 1" if "aw_nodes ?v m = Some n" for m n
    using that async_okD(1,2) [OF w, of m n] len by (auto simp: async_node_ok_def split: if_splits)
  ultimately show ?thesis
    using async_okD(3,5) [OF w]
    by (auto simp: async_ok_def async_session_ok_def async_phase_def as_upd_def split: option.splits)
qed

lemma async_head_outcome:
  assumes net: "network_order net" and w: "async_ok w" and ph: "as_phase (aw_session w) = Reading_head"
    and bs: "length bs = 4"
  shows "case async_co_step net (Read_bytes bs) w of Inr w' \<Rightarrow> async_ok w'
    | Inl e \<Rightarrow> e = Null_deref \<and> head_refused_by bs \<and> as_recvMsg (aw_session w) = None"
proof -
  let ?i = "short_of (rev (take 2 bs))" and ?len = "short_of (rev (drop 2 bs))"
  have split: "bs = be16 ?i @ be16 ?len" using bs by (simp add: be16_of)
  have "async_idle w" using ph async_okD(3) [OF w] by (simp add: async_idle_def async_session_ok_def)
  from async_head_step [OF net this, of ?i ?len] obtain h where h: "length (an_data h) = 5"
    and step: "async_co_step net (Read_bytes bs) w =
     (let w1 = as_upd (\<lambda>s. s\<lparr>as_head := h\<rparr>) w in
      if ASYNC_MAX_ID < sint ?i \<or> ASYNC_MAX_LEN < sint ?len
      then async_read_body (async_remove (async_ClearHead w1))
      else if sint ?len < - 1 then Inr (async_catch w1)
      else Inr (async_phase Reading_body (as_upd (\<lambda>s. s\<lparr>as_recvMsg := Some (aw_next w)\<rparr>)
             (w1\<lparr>aw_nodes := (aw_nodes w)(aw_next w \<mapsto> \<lparr>an_curLen = 0, an_totalLen = sint ?len,
                     an_data = new_array (nat (sint ?len + 1)), an_msgId = ?i\<rparr>),
                 aw_next := aw_next w + 1\<rparr>))))"
    unfolding split [symmetric] by blast
  let ?w1 = "as_upd (\<lambda>s. s\<lparr>as_head := h\<rparr>) w"
  have w1: "async_ok ?w1" using w h by (rule async_ok_head)
  have frame: "aw_next ?w1 = aw_next w" "aw_nodes ?w1 = aw_nodes w" by (simp_all add: as_upd_def)
  show ?thesis
  proof (cases "ASYNC_MAX_ID < sint ?i \<or> ASYNC_MAX_LEN < sint ?len")
    case True
    let ?w2 = "async_remove (async_ClearHead ?w1)"
    have w2: "async_ok ?w2" using w1 by (intro async_ok_intros)
    have recv: "as_recvMsg (aw_session ?w2) = as_recvMsg (aw_session w)"
      by (simp add: async_remove_def async_ClearHead_def as_upd_def)
    show ?thesis
    proof (cases "as_recvMsg (aw_session w)")
      case None
      then have "async_read_body ?w2 = Inl Null_deref" using recv by (simp add: async_read_body_def async_recv_node_def)
      with True step None show ?thesis by (simp add: head_refused_by_def Let_def)
    next
      case (Some m)
      with async_ok_read_body [OF w2] recv True step show ?thesis by (auto simp: Let_def)
    qed
  next
    case False
    with step w1 async_ok_catch [OF w1] async_ok_new [OF w1, of ?len ?i] show ?thesis
      by (auto simp: Let_def not_less frame)
  qed
qed

text \<open>A read into a body whose node has its array.\<close>

lemma async_body_read:
  assumes w: "async_ok w" and ph: "as_phase (aw_session w) = Reading_body"
    and m: "as_recvMsg (aw_session w) = Some m" "aw_nodes w m = Some n" and tot: "an_totalLen n \<noteq> - 1"
    and bs: "length bs \<le> async_read_size w" "bs \<noteq> []"
  shows "\<exists>w'. async_co_step net (Read_bytes bs) w = Inr w' \<and> async_ok w'"
proof -
  have ok: "async_node_ok n" by (rule async_okD(1) [OF w m(2)])
  have recv: "async_recv_node w = Inr (m, n)" using m by (simp add: async_recv_node_def)
  have len: "0 \<le> an_totalLen n" "length (an_data n) = nat (an_totalLen n) + 1"
      "an_totalLen n mod 2 ^ 64 = an_totalLen n"
    using ok tot by (auto simp: async_node_ok_def nat_add_distrib)
  then have size: "async_read_size w = nat (an_totalLen n)"
    using ph recv by (simp add: async_read_size_def buffer_size_def)
  show ?thesis
  proof (cases "length bs < async_read_size w")
    case True
    let ?n = "n\<lparr>an_data := map Some bs @ drop (length bs) (an_data n)\<rparr>"
    have fill: "async_fill_body bs w = Inr (aw_put m ?n w)"
      using recv bs size len by (simp add: async_fill_body_def an_write_def memcpy_to_fits)
    have nok: "async_node_ok ?n" using ok bs size len by (simp add: async_node_ok_def)
    have "async_readable n \<Longrightarrow> async_readable ?n"
      using bs size len by (auto simp: async_readable_def dest: in_set_dropD)
    then have "async_ok (aw_put m ?n w)" by (rule async_ok_put [OF w m(2) nok])
    with True bs ph fill show ?thesis by (simp add: async_co_step_def)
  next
    case False
    then have l: "an_totalLen n = int (length bs)" "length bs \<le> 2048"
      using bs size len(1) ok by (auto simp: async_node_ok_def nat_le_iff)
    let ?d = "n\<lparr>an_data := map Some (bs @ [0])\<rparr>"
    have "async_readable ?d" "async_node_ok ?d"
      using ok l by (auto simp: async_readable_def async_node_ok_def)
    then have "async_ok (async_PostMsgToQue m (aw_put m ?d w))"
      by (intro async_ok_Post [of _ m ?d] async_ok_put [OF w m(2)]) (simp_all add: aw_put_def)
    with async_body_step [OF ph m l(1) _ bs(2) l(2), of net] len(2) l(1) show ?thesis
      by (simp add: async_ok_phase)
  qed
qed

lemma async_body_outcome:
  assumes w: "async_ok w" and ph: "as_phase (aw_session w) = Reading_body" and bs: "length bs \<le> async_read_size w"
  shows "case async_co_step net (Read_bytes bs) w of Inr w' \<Rightarrow> async_ok w'
    | Inl e \<Rightarrow> e = Buffer_overflow \<and> (\<exists>m n. async_recv_node w = Inr (m, n) \<and> an_totalLen n = - 1)"
proof -
  obtain m n where m: "as_recvMsg (aw_session w) = Some m" "aw_nodes w m = Some n"
    using async_okD(3) [OF w] ph by (auto simp: async_session_ok_def split: option.splits)
  consider "bs = []" | "bs \<noteq> []" "an_totalLen n = - 1" | "bs \<noteq> []" "an_totalLen n \<noteq> - 1" by blast
  then show ?thesis
  proof cases
    case 1
    with ph w show ?thesis by (simp add: async_co_step_def async_ok_disconnected)
  next
    case 2
    then have "an_data n = []" using async_okD(1) [OF w m(2)] by (simp add: async_node_ok_def)
    with 2 m ph show ?thesis
      by (auto simp: async_co_step_def async_fill_body_def async_recv_node_def an_write_def memcpy_to_def)
  next
    case 3
    from async_body_read [OF w ph m 3(2) bs 3(1), of net] show ?thesis by auto
  qed
qed

subsection \<open>Sending and serving\<close>

lemma async_SendNode_take:
  "unat len \<le> length msg \<Longrightarrow> async_SendNode net msg len i = async_SendNode net (take (unat len) msg) len i"
  by (simp add: async_SendNode_def cong: if_cong)

lemma sint_unat: "0 \<le> sint (x :: u16) \<Longrightarrow> sint x = int (unat x) \<and> unat x < 32768"
proof -
  assume x: "0 \<le> sint x"
  have lt: "sint x < 32768" using sint_lt [of x] by simp
  have "uint x = sint x mod 65536" by (simp add: uint_sint take_bit_eq_mod)
  also have "\<dots> = sint x" using x lt by simp
  finally have "int (unat x) = sint x" by simp
  with lt show ?thesis by linarith
qed

lemma an_write_Inl: "an_write off bs n = Inl e \<Longrightarrow> e = Buffer_overflow"
  by (simp add: an_write_def memcpy_to_def split: if_splits)

lemma async_SendNode_outcome:
  assumes net: "network_order net" and len: "unat len \<le> length msg"
  shows "case async_SendNode net msg len i of Inr n \<Rightarrow> sendable n
    | Inl e \<Rightarrow> e = Bad_array_new_length \<or> e = Buffer_overflow"
proof (cases "0 \<le> sint len")
  case True
  let ?msg = "take (unat len) msg"
  have l: "length ?msg = unat len" "length ?msg < 32768" using sint_unat [OF True] len by simp_all
  then have eq: "async_SendNode net msg len i = async_SendNode net ?msg (of_nat (length ?msg)) i"
    using async_SendNode_take [OF len, of net i] by simp
  from async_SendNode_bounds [OF net l(2), of i] show ?thesis
    unfolding eq by (auto simp: sendable_def split: if_splits)
next
  case False
  show ?thesis
  proof (cases "async_SendNode net msg len i")
    case (Inl e)
    with False show ?thesis
      by (auto simp: async_SendNode_def async_MsgNode_def Let_def fault_iffs dest: an_write_Inl split: if_splits)
  next
    case (Inr n)
    with False show ?thesis by (auto simp: async_SendNode_def fault_iffs)
  qed
qed

lemma async_push_ok:
  assumes "async_session_ok ns s" and "length (as_sendQueue s) < ASYNC_SEND_QUEUE" and "sendable n"
  shows "async_session_ok ns (async_push n s)"
  using assms by (auto simp: async_session_ok_def async_push_def Let_def split: option.splits)

lemma async_Send_outcome:
  assumes "network_order net" and "async_session_ok ns s"
  shows "case async_Send_view net msg i s of Inr s' \<Rightarrow> async_session_ok ns s'
    | Inl e \<Rightarrow> e = Bad_array_new_length \<or> e = Buffer_overflow"
proof (cases "ASYNC_SEND_QUEUE \<le> length (as_sendQueue s)")
  case True
  with assms(2) show ?thesis by (simp add: async_Send_view_def async_Send_def)
next
  case False
  let ?len = "ucast (of_nat (length msg) :: u32) :: u16"
  have "unat ?len \<le> unat (of_nat (length msg) :: u32)"
    by (simp add: unsigned_ucast_eq take_bit_nat_less_eq_self)
  also have "\<dots> \<le> length msg" by (simp add: unat_of_nat take_bit_nat_less_eq_self)
  finally have "unat ?len \<le> length (bytes_of msg)" by simp
  from async_SendNode_outcome [OF assms(1) this, of i] show ?thesis
    using False async_push_ok [OF assms(2)]
    by (cases "async_SendNode net (bytes_of msg) ?len i") (simp_all add: async_Send_view_def async_Send_def)
qed

lemma async_write_outcome:
  assumes "async_ok w" and "as_writing (aw_session w) \<noteq> None"
  shows "\<exists>w'. async_HandlerWrite ec w = Inr w' \<and> async_ok w'"
proof (cases ec)
  case True
  have "async_ok (as_upd async_write_failed w)"
    using assms(1) by (intro async_ok_session)
      (auto simp: async_ok_def async_session_ok_def async_write_failed_def split: option.splits)
  with True show ?thesis by (simp add: async_HandlerWrite_def async_ok_remove)
next
  case False
  have q: "as_sendQueue (aw_session w) \<noteq> []"
    using async_okD(3) [OF assms(1)] assms(2) by (auto simp: async_session_ok_def)
  have "async_session_ok (aw_nodes w) (async_write_next (aw_session w))"
    using async_okD(3) [OF assms(1)]
    by (auto simp: async_session_ok_def async_write_next_def Let_def dest: in_set_tl split: option.splits)
  with False q assms(1) show ?thesis by (simp add: async_HandlerWrite_def async_ok_session)
qed

lemma async_serve_outcome:
  assumes w: "async_ok w" and q: "aw_queue w \<noteq> []" and net: "network_order net" and js: "json_throws js"
  shows "case async_doWork net js w of Inr w' \<Rightarrow> async_ok w' \<and> aw_queue w' = tl (aw_queue w)
    | Inl e \<Rightarrow> is_exception e \<or> e = Buffer_overflow"
proof -
  obtain m ms where q: "aw_queue w = m # ms" using q by (cases "aw_queue w") auto
  let ?w = "w\<lparr>aw_queue := ms\<rparr>"
  have ok: "async_ok ?w" using w q by (auto simp: async_ok_def)
  obtain n where n: "aw_nodes w m = Some n" "async_readable n"
    using async_okD(4) [OF w, of m] q by (auto simp: async_queued_ok_def split: option.splits)
  obtain txt_in where t: "c_str (an_data n) = Inr txt_in"
    using n(2) c_str_readable by (auto simp: async_readable_def)
  obtain parsed root where p: "json_parse js txt_in = (parsed, root)" by force
  show ?thesis
  proof (cases "async_callbacks (an_msgId n)")
    case None
    with q n ok show ?thesis by (simp add: async_doWork_def)
  next
    case (Some u)
    have step: "async_doWork net js w = HelloWorldCallback net js m ?w"
      using Some q n by (simp add: async_doWork_def)
    show ?thesis
    proof (cases "json_set js root ''role'' (json_str js ''server'')")
      case (Inl e)
      then have "e = Json_error" by (rule json_throwsD(2) [OF js])
      with Inl n t p show ?thesis by (simp add: step HelloWorldCallback_def)
    next
      case (Inr v)
      have "async_session_ok (aw_nodes w) (aw_session w)" by (rule async_okD(3) [OF w])
      note send = async_Send_outcome [OF net this, of "toStyledString js v" "an_msgId n"]
      show ?thesis
      proof (cases "async_Send_view net (toStyledString js v) (an_msgId n) (aw_session w)")
        case (Inl e)
        with send Inr n t p show ?thesis by (auto simp: step HelloWorldCallback_def)
      next
        fix s assume s: "async_Send_view net (toStyledString js v) (an_msgId n) (aw_session w) = Inr s"
        with send have "async_session_ok (aw_nodes w) s" by simp
        then have "async_ok (?w\<lparr>aw_session := s\<rparr>)" using ok by (simp add: async_ok_def)
        with async_ok_ClearHead s Inr n t p q show ?thesis
          by (simp add: step HelloWorldCallback_def) (simp add: async_ClearHead_def as_upd_def)
      qed
    qed
  qed
qed

subsection \<open>A completed read\<close>

text \<open>How many bytes a completed or partial read may have put into its buffer.\<close>

definition async_read_fits :: "async_world \<Rightarrow> read_result \<Rightarrow> bool" where
  "async_read_fits w r =
     (case r of Read_failed \<Rightarrow> True
      | Read_bytes bs \<Rightarrow>
          (case as_phase (aw_session w) of
             Reading_head \<Rightarrow> length bs = ASYNC_HEAD_LEN
           | Reading_body \<Rightarrow> length bs \<le> async_read_size w
           | _ \<Rightarrow> True))"

lemma async_co_outcome:
  assumes "network_order net" and "async_ok w" and "async_read_fits w r"
  shows "case async_co_step net r w of Inr w' \<Rightarrow> async_ok w'
    | Inl e \<Rightarrow>
        (case r of Read_failed \<Rightarrow> False
         | Read_bytes bs \<Rightarrow>
             e = Null_deref \<and> as_phase (aw_session w) = Reading_head \<and> head_refused_by bs \<and>
               as_recvMsg (aw_session w) = None \<or>
             e = Buffer_overflow \<and> as_phase (aw_session w) = Reading_body \<and>
               (\<exists>m n. async_recv_node w = Inr (m, n) \<and> an_totalLen n = - 1))"
proof (cases r)
  case Read_failed
  with assms(2) async_ok_catch show ?thesis
    by (cases "as_phase (aw_session w)") (simp_all add: async_co_step_def)
next
  case (Read_bytes bs)
  show ?thesis
  proof (cases "as_phase (aw_session w)")
    case Reading_head
    then have "length bs = 4" using assms(3) Read_bytes by (simp add: async_read_fits_def ASYNC_HEAD_LEN_def)
    from async_head_outcome [OF assms(1,2) Reading_head this] Read_bytes Reading_head show ?thesis
      by (auto split: sum.splits)
  next
    case Reading_body
    then have "length bs \<le> async_read_size w" using assms(3) Read_bytes by (simp add: async_read_fits_def)
    from async_body_outcome [OF assms(2) Reading_body this, of net] Read_bytes Reading_body show ?thesis
      by (auto split: sum.splits)
  qed (use assms(2) Read_bytes in \<open>simp_all add: async_co_step_def\<close>)
qed

lemma async_ok_created: "async_Session = Inr s \<Longrightarrow>
    async_ok \<lparr>aw_session = s, aw_nodes = Map.empty, aw_next = 0, aw_queue = []\<rparr>"
  by (auto simp: async_Session_def async_RecvNode_def async_MsgNode_def ASYNC_HEAD_LEN_def Let_def
      async_ok_def async_session_ok_def split: if_splits)

lemma async_ok_accept: "async_ok w \<Longrightarrow> async_ok (async_accept_start w)" "async_ok w \<Longrightarrow> async_ok (async_accept_save w)"
proof -
  assume w: "async_ok w"
  have "async_ok (as_upd (\<lambda>s. s\<lparr>as_open := True\<rparr>) w)"
    by (rule async_ok_session) (use w in \<open>auto simp: async_ok_def async_session_ok_def split: option.splits\<close>)
  moreover have "async_ok (as_upd (\<lambda>s. s\<lparr>as_listed := True\<rparr>) w)"
    by (rule async_ok_session) (use w in \<open>auto simp: async_ok_def async_session_ok_def split: option.splits\<close>)
  ultimately show "async_ok (async_accept_start w)" "async_ok (async_accept_save w)"
    using async_ok_phase [unfolded async_phase_def]
    by (simp_all add: async_accept_start_def async_accept_save_def async_Start_def async_Clear_def
        async_ok_ClearMsg async_ok_ClearHead)
qed

text \<open>What the client makes of a frame it receives.\<close>

lemma takeWhile_padded:
  "takeWhile (\<lambda>b. b \<noteq> 0) (msg @ replicate k (0 :: byte)) = takeWhile (\<lambda>b. b \<noteq> 0) msg"
  by (induction msg) (cases k; simp)+

lemma testRecv_frame:
  assumes net: "network_order net" and len: "length msg < CLIENT_BUF"
  shows "testRecv net (short_frame i msg @ rest) =
    Inr (Some (i, string_of (takeWhile (\<lambda>b. b \<noteq> 0) msg), rest))"
proof -
  have f: "take 2 (short_frame i msg @ rest) = be16 i"
    "take 2 (drop 2 (short_frame i msg @ rest)) = be16 (of_nat (length msg))"
    "drop ASYNC_HEAD_LEN (short_frame i msg @ rest) = msg @ rest"
    "\<not> length (short_frame i msg @ rest) < ASYNC_HEAD_LEN"
    by (simp_all add: short_frame_def be16_def ASYNC_HEAD_LEN_def)
  have len': "length msg < 32768" using len by (simp add: CLIENT_BUF_def)
  have sz: "(if sint (of_nat (length msg) :: u16) < 0 then CLIENT_BUF
      else min CLIENT_BUF (unat (of_nat (length msg) :: u16))) = length msg"
    using short_len [OF len'] len by (simp add: min_def)
  have "0 \<in> set (msg @ replicate (CLIENT_BUF - length msg) 0)" using len by simp
  then have c: "c_string (msg @ replicate (CLIENT_BUF - length msg) 0) =
      Inr (string_of (takeWhile (\<lambda>b. b \<noteq> 0) msg))"
    by (simp only: c_string_def takeWhile_padded if_True)
  show ?thesis
    unfolding testRecv_def Let_def f network_orderD(3) [OF net] sz if_not_P [OF f(4)]
    by (simp add: c)
qed

subsection \<open>Exchanges\<close>

text \<open>One exchange: the request is sent, read in two parts, served; the response is written, and the
  completion of the write is handled. The result is what the client gets.\<close>

definition exchange :: "net_ops \<Rightarrow> 'j json_ops \<Rightarrow> string \<Rightarrow> async_world \<Rightarrow> fault + (bytes \<times> async_world)" where
  "exchange net js data w =
     and_then (BaseSend net js data HelloWorld) (\<lambda>bs.
     and_then (async_co_step net (Read_bytes (take 4 bs)) w) (\<lambda>w.
     and_then (async_co_step net (Read_bytes (drop 4 bs)) w) (\<lambda>w.
     and_then (async_doWork net js w) (\<lambda>w.
     and_then (case as_writing (aw_session w) of None \<Rightarrow> Inr [] | Some n \<Rightarrow> async_wire n) (\<lambda>out.
     and_then (async_HandlerWrite False w) (\<lambda>w.
     Inr (out, w)))))))"

fun exchanges :: "net_ops \<Rightarrow> 'j json_ops \<Rightarrow> string \<Rightarrow> nat \<Rightarrow> async_world \<Rightarrow> fault + (bytes \<times> async_world)" where
  "exchanges net js data 0 w = Inr ([], w)"
| "exchanges net js data (Suc k) w =
     and_then (exchange net js data w) (\<lambda>(out, w).
     and_then (exchanges net js data k w) (\<lambda>(outs, w). Inr (out @ outs, w)))"

text \<open>A session with nothing to do, and the text of a response.\<close>

definition at_rest :: "async_world \<Rightarrow> bool" where
  "at_rest w = (async_idle w \<and> aw_queue w = [] \<and> as_sendQueue (aw_session w) = [])"

definition response_text :: "string \<Rightarrow> string" where
  "response_text resp = string_of (takeWhile (\<lambda>b. b \<noteq> 0) (bytes_of resp))"

text \<open>What the server needs for one exchange: a request that fits, and a JSON library that can build
  the response, which fits into the client's buffer.\<close>

definition answers :: "'j json_ops \<Rightarrow> string \<Rightarrow> string \<Rightarrow> bool" where
  "answers js req resp =
     (0 < length req \<and> length req \<le> 2044 \<and> length resp < CLIENT_BUF \<and>
      (case json_set js (snd (json_parse js (response_text req))) ''role'' (json_str js ''server'') of
         Inl _ \<Rightarrow> False | Inr root \<Rightarrow> toStyledString js root = resp))"

lemma exchange_once:
  assumes net: "network_order net" and w: "at_rest w"
    and req: "client_message js data = Inr req" and ans: "answers js req resp"
  shows "\<exists>out w'. exchange net js data w = Inr (out, w') \<and> at_rest w' \<and>
    testRecv net (out @ rest) = Inr (Some (HelloWorld, response_text resp, rest))"
proof -
  have i: "sint HelloWorld \<le> 10240" by (simp add: HelloWorld_def)
  note w = w [unfolded at_rest_def]
  have room: "length (aw_queue w) < ASYNC_RECV_QUEUE" using w by (simp add: ASYNC_RECV_QUEUE_def)
  obtain parsed root root' where serve: "json_parse js (response_text req) = (parsed, root)"
    "json_set js root ''role'' (json_str js ''server'') = Inr root'" "toStyledString js root' = resp"
    using ans by (cases "json_parse js (response_text req)") (auto simp: answers_def split: sum.splits)
  have fits: "0 < length req" "length req \<le> 2044" "length req < 32768" "length resp < CLIENT_BUF"
    using ans by (simp_all add: answers_def)
  obtain bs w1 w2 n where send: "BaseSend_bytes net req HelloWorld = Inr bs"
    and read: "async_co_step net (Read_bytes (take 4 bs)) w = Inr w1"
      "async_co_step net (Read_bytes (drop 4 bs)) w1 = Inr w2" "async_idle w2"
    and q: "aw_queue w2 = [aw_next w]" "aw_nodes w2 (aw_next w) = Some n" "an_msgId n = HelloWorld"
      "an_data n = map Some (bytes_of req @ [0])" and sq: "as_sendQueue (aw_session w2) = []"
    using async_request_frame [OF net _ i fits(1,3) room] fits(2) w by auto
  let ?resp = "bytes_of resp"
  have len: "length ?resp \<le> 32763" "length ?resp < 32768" using fits(4) by (simp_all add: CLIENT_BUF_def)
  obtain m where m: "async_SendNode net ?resp (of_nat (length ?resp)) HelloWorld = Inr m"
    "async_wire m = Inr (short_frame HelloWorld ?resp)"
    using async_SendNode_bounds [OF net len(2), of HelloWorld] len(1) by (auto simp: short_frame_def)
  have "ucast (of_nat (length ?resp) :: u32) = (of_nat (length ?resp) :: u16)"
    by (intro bit_word_eqI) (simp add: bit_simps)
  then have view: "async_Send_view net resp HelloWorld (aw_session w2) = Inr (async_push m (aw_session w2))"
    using m(1) sq by (simp add: async_Send_view_def async_Send_def ASYNC_SEND_QUEUE_def)
  define w3 where "w3 = async_ClearHead (w2\<lparr>aw_queue := [], aw_session := async_push m (aw_session w2)\<rparr>)"
  have "async_doWork net js w2 = Inr w3"
    using q serve view c_str_terminated [of "bytes_of req"]
    by (simp add: async_doWork_def HelloWorldCallback_def async_callbacks_def w3_def response_text_def)
  moreover have w3: "as_writing (aw_session w3) = Some m" "aw_queue w3 = []" "async_idle w3"
      "as_sendQueue (aw_session w3) = [m]"
    using sq read(3)
    by (simp_all add: w3_def async_ClearHead_def as_upd_def async_push_def async_idle_def async_node_Clear_def)
  moreover have "async_HandlerWrite False w3 = Inr (as_upd async_write_next w3)" "at_rest (as_upd async_write_next w3)"
    using w3 by (simp_all add: async_HandlerWrite_def at_rest_def as_upd_def async_write_next_def async_idle_def)
  moreover have "testRecv net (short_frame HelloWorld ?resp @ rest) = Inr (Some (HelloWorld, response_text resp, rest))"
    using testRecv_frame [OF net, of ?resp] fits(4) by (simp add: response_text_def)
  moreover have "BaseSend net js data HelloWorld = Inr bs" using req send by (simp add: BaseSend_def)
  ultimately show ?thesis using read(1,2) m(2) by (simp add: exchange_def)
qed

subsection \<open>Property\<close>

text \<open>
  C31: a conversation, all the way round. A client sends a request of up to 2044 bytes, the session
  reads it, the worker serves it and the session writes the response, any number of times. What
  the session has written the client then takes for exactly so many responses, each with the id it
  asked with and the text of the JSON the server built, up to its first null character, whatever
  follows on the connection; and the session is at rest again.
\<close>
theorem async_conversation:
  assumes net: "network_order net" and w: "at_rest w"
    and req: "client_message js data = Inr req" and ans: "answers js req resp"
  shows "\<exists>out w'. exchanges net js data k w = Inr (out, w') \<and> at_rest w' \<and>
    client_receives net k (out @ rest) = Inr (replicate k (HelloWorld, response_text resp), rest)"
  using w
proof (induction k arbitrary: w)
  case 0
  then show ?case by simp
next
  case (Suc k)
  obtain w1 where "\<exists>out. exchange net js data w = Inr (out, w1)" "at_rest w1"
    using exchange_once [OF net Suc.prems req ans] by blast
  then obtain out where one: "exchange net js data w = Inr (out, w1)" by blast
  from Suc.IH [OF \<open>at_rest w1\<close>] obtain outs w2 where more: "exchanges net js data k w1 = Inr (outs, w2)" "at_rest w2"
    "client_receives net k (outs @ rest) = Inr (replicate k (HelloWorld, response_text resp), rest)" by blast
  have "testRecv net (out @ outs @ rest) = Inr (Some (HelloWorld, response_text resp, outs @ rest))"
    using exchange_once [OF net Suc.prems req ans, of "outs @ rest"] one by auto
  with one more show ?case by simp
qed

definition exchange_json :: "json_value json_ops" where
  "exchange_json = demo_json [(''{}'', Jobj [])]"

theorem async_conversation_witness:
  "\<exists>out w'. exchanges swap_ops exchange_json ''hello world'' SEND_NUM async_lone = Inr (out, w') \<and>
    client_main swap_ops exchange_json 0 out =
      and_then (client_sends swap_ops exchange_json SEND_NUM) (\<lambda>sent.
        Inr (0, sent, replicate SEND_NUM (HelloWorld, ''{}'')))"
proof -
  have b: "response_text ''{}'' = ''{}''"
    by (simp add: response_text_def byte_of_char_def char_of_byte_def string_of_def char_of_def bit_0)
  have c: "client_message exchange_json ''hello world'' = Inr ''{}''"
    by (simp add: client_message_def exchange_json_def demo_json_def)
  have a: "answers exchange_json ''{}'' ''{}''"
    unfolding answers_def b by (simp add: exchange_json_def demo_json_def CLIENT_BUF_def)
  have r: "at_rest async_lone"
    using async_lone_idle by (simp add: at_rest_def async_lone_def)
  obtain out w' where "exchanges swap_ops exchange_json ''hello world'' SEND_NUM async_lone = Inr (out, w')"
    "client_receives swap_ops SEND_NUM out = Inr (replicate SEND_NUM (HelloWorld, ''{}''), [])"
    using async_conversation [OF swap_ops_network_order r c a, of SEND_NUM "[]"] b by auto
  then show ?thesis by (intro exI [of _ out] exI [of _ w']) (simp add: client_main_def)
qed

end
