(* ===== verification/Async_Steps.thy ===== *)
theory Async_Steps
  imports Async_Props
begin

text \<open>
  What one step of a session of the message server may do to the world it shares with the other
  sessions. A relation that the parts of a step keep is kept by the whole step (\<open>co_head_rel\<close>,
  \<open>co_body_rel\<close>); the relation used here says that only the node the session receives into, or a new
  one, is written to or posted (\<open>grows\<close>), and that reading leaves the send queue alone.
\<close>

subsection \<open>The parts of a step\<close>

text \<open>A relation that is kept by the parts of a step of the coroutine is kept by the step.\<close>

lemma co_head_rel:
  assumes "async_co_head net r w = Inr w'"
    and trans: "\<And>u v x. R u v \<Longrightarrow> R v x \<Longrightarrow> R u x"
    and frame: "\<And>u. R u (async_ClearHead u)" "\<And>u. R u (async_remove u)" "\<And>p u. R u (async_phase p u)"
    and fill: "\<And>bs u v. async_fill_head bs u = Inr v \<Longrightarrow> R u v"
    and parse: "\<And>u v. async_PraseHead net u = Inr v \<Longrightarrow> R u v"
  shows "R w w'"
proof -
  have ended: "R u (async_disconnected u)" "R u (async_catch u)" for u
    unfolding async_disconnected_def async_catch_def by (meson frame trans)+
  have body: "R u v" if "async_read_body u = Inr v" for u v
    using that frame(3) by (auto simp: async_read_body_def fault_iffs)
  have tried: "R u v" if "async_try u (and_then (async_PraseHead net u) async_read_body) = Inr v" for u v
    using that ended(2) trans [OF parse body]
    by (cases "and_then (async_PraseHead net u) async_read_body")
      (auto simp: async_try_def fault_iffs split: if_splits)
  show ?thesis
  proof (cases "r = Read_failed \<or> r = Read_bytes []")
    case True
    with assms(1) ended show ?thesis by auto
  next
    case False
    then obtain bs v where "async_fill_head bs w = Inr v"
      "async_try v (and_then (async_PraseHead net v) async_read_body) = Inr w'"
      using assms(1) by (cases r) (auto simp: fault_iffs split: if_splits)
    with trans [OF fill tried] show ?thesis by blast
  qed
qed

lemma co_body_rel:
  assumes "async_co_body r w = Inr w'"
    and trans: "\<And>u v x. R u v \<Longrightarrow> R v x \<Longrightarrow> R u x" and refl: "\<And>u. R u u"
    and frame: "\<And>u. R u (async_ClearHead u)" "\<And>u. R u (async_remove u)" "\<And>p u. R u (async_phase p u)"
    and fill: "\<And>bs u v. async_fill_body bs u = Inr v \<Longrightarrow> R u v"
    and parse: "\<And>u v. async_PraseMsg u = Inr v \<Longrightarrow> R u v"
  shows "R w w'"
proof -
  have ended: "R u (async_disconnected u)" "R u (async_catch u)" for u
    unfolding async_disconnected_def async_catch_def by (meson frame trans)+
  show ?thesis
  proof (cases "r = Read_failed \<or> r = Read_bytes []")
    case True
    with assms(1) ended refl show ?thesis by (auto split: if_splits)
  next
    case False
    then obtain bs v where v: "async_fill_body bs w = Inr v"
      "w' = v \<or> (\<exists>u. async_PraseMsg v = Inr u \<and> w' = async_phase Reading_head u)"
      using assms(1) by (cases r) (auto simp: fault_iffs split: if_splits)
    then show ?thesis using trans [OF fill trans [OF parse frame(3)]] fill by blast
  qed
qed

subsection \<open>The footprint of a step\<close>

text \<open>What a handler of one session leaves to the others: nodes stay, and only its own node or a
  new one is written to, received into or posted.\<close>

definition grows :: "async_world \<Rightarrow> async_world \<Rightarrow> bool" where
  "grows w w' =
     (dom (aw_nodes w) \<subseteq> dom (aw_nodes w') \<and> aw_next w \<le> aw_next w' \<and>
      (let mine = (\<lambda>m. as_recvMsg (aw_session w) = Some m \<or> aw_next w \<le> m \<and> m < aw_next w') in
       (\<forall>m. as_recvMsg (aw_session w') = Some m \<longrightarrow> mine m) \<and>
       (\<exists>ms. aw_queue w' = aw_queue w @ ms \<and> (\<forall>m\<in>set ms. mine m)) \<and>
       (\<forall>m<aw_next w. mine m \<or> aw_nodes w' m = aw_nodes w m)))"

lemma growsD:
  assumes "grows w w'"
  obtains ms where "aw_queue w' = aw_queue w @ ms"
    "\<And>m. m \<in> set ms \<Longrightarrow> as_recvMsg (aw_session w) = Some m \<or> aw_next w \<le> m \<and> m < aw_next w'"
  using assms unfolding grows_def Let_def by blast

lemma grows_refl [simp]: "grows w w"
  by (simp add: grows_def)

lemma grows_trans:
  assumes "grows u v" and "grows v w"
  shows "grows u w"
proof -
  obtain ms where ms: "aw_queue v = aw_queue u @ ms"
    "\<And>m. m \<in> set ms \<Longrightarrow> as_recvMsg (aw_session u) = Some m \<or> aw_next u \<le> m \<and> m < aw_next v"
    using growsD [OF assms(1)] by blast
  obtain ns where ns: "aw_queue w = aw_queue v @ ns"
    "\<And>m. m \<in> set ns \<Longrightarrow> as_recvMsg (aw_session v) = Some m \<or> aw_next v \<le> m \<and> m < aw_next w"
    using growsD [OF assms(2)] by blast
  let ?mine = "\<lambda>m. as_recvMsg (aw_session u) = Some m \<or> aw_next u \<le> m \<and> m < aw_next w"
  have le: "aw_next u \<le> aw_next v" "aw_next v \<le> aw_next w" using assms by (simp_all add: grows_def Let_def)
  have v: "?mine m" if "as_recvMsg (aw_session v) = Some m" for m
    using that assms(1) le by (fastforce simp: grows_def Let_def)
  then have "?mine m" if "as_recvMsg (aw_session w) = Some m" for m
    using that assms(2) le by (fastforce simp: grows_def Let_def)
  moreover have "?mine m \<or> aw_nodes w m = aw_nodes u m" if "m < aw_next u" for m
    using that assms v [of m] less_le_trans [OF that le(1)] unfolding grows_def Let_def
    by (metis le(1) leD)
  moreover have "\<exists>ks. aw_queue w = aw_queue u @ ks \<and> (\<forall>m\<in>set ks. ?mine m)"
    using ms ns v le by (intro exI [of _ "ms @ ns"]) fastforce
  moreover have "dom (aw_nodes u) \<subseteq> dom (aw_nodes w)" using assms by (auto simp: grows_def)
  ultimately show ?thesis using le by (simp add: grows_def Let_def)
qed

lemma grows_upd [simp]: "(\<And>s. as_recvMsg (f s) = as_recvMsg s) \<Longrightarrow> grows w (as_upd f w)"
  by (simp add: grows_def as_upd_def)

lemma grows_frame [simp]:
  "grows w (async_ClearHead w)" "grows w (async_remove w)" "grows w (async_phase p w)"
  by (simp_all add: async_ClearHead_def async_remove_def async_phase_def)

lemma grows_put: "as_recvMsg (aw_session w) = Some m \<Longrightarrow> grows w (aw_put m n w)"
  by (auto simp: grows_def aw_put_def)

lemma grows_Post: "as_recvMsg (aw_session w) = Some m \<Longrightarrow> grows w (async_PostMsgToQue m w)"
  by (simp add: grows_def async_PostMsgToQue_def)

lemma grows_ClearMsg [simp]: "grows w (async_ClearMsg w)"
  by (auto simp: grows_def async_ClearMsg_def split: option.splits if_splits)

lemma async_recv_node_Inr: "async_recv_node w = Inr (m, n) \<Longrightarrow> as_recvMsg (aw_session w) = Some m"
  by (auto simp: async_recv_node_def split: option.splits)

lemma grows_fill:
  "async_fill_head bs w = Inr w' \<Longrightarrow> grows w w'" "async_fill_body bs w = Inr w' \<Longrightarrow> grows w w'"
  by (auto simp: async_fill_head_def async_fill_body_def fault_iffs dest!: async_recv_node_Inr intro: grows_put)

lemma grows_PraseHead:
  assumes "async_PraseHead net w = Inr w'"
  shows "grows w w'"
proof -
  have "grows w (async_remove (async_ClearHead w))" by (meson grows_frame grows_trans)
  moreover have "grows w (as_upd (\<lambda>s. s\<lparr>as_recvMsg := Some (aw_next w)\<rparr>)
      (w\<lparr>aw_nodes := (aw_nodes w)(aw_next w \<mapsto> n), aw_next := aw_next w + 1\<rparr>))" for n
    by (auto simp: grows_def as_upd_def)
  ultimately show ?thesis
    using assms by (auto simp: async_PraseHead_def fault_iffs split: if_splits)
qed

lemma grows_PraseMsg: "async_PraseMsg w = Inr w' \<Longrightarrow> grows w w'"
  by (auto simp: async_PraseMsg_def fault_iffs aw_put_def dest!: async_recv_node_Inr split: if_splits
      intro!: grows_trans [OF grows_put [unfolded aw_put_def] grows_Post])

lemma grows_co_step:
  assumes "async_co_step net r w = Inr w'"
  shows "grows w w'"
  using assms co_head_rel [of net r w w' grows, OF _ grows_trans] co_body_rel [of r w w' grows, OF _ grows_trans]
    grows_fill grows_PraseHead grows_PraseMsg
  by (cases "as_phase (aw_session w)") (simp_all add: async_co_step_def)

lemma grows_HandlerWrite: "async_HandlerWrite ec w = Inr w' \<Longrightarrow> grows w w'"
proof -
  have "grows w (as_upd async_write_failed w)" "grows w (as_upd async_write_next w)"
    by (rule grows_upd, simp add: async_write_failed_def async_write_next_def Let_def)+
  then show "async_HandlerWrite ec w = Inr w' \<Longrightarrow> grows w w'"
    by (auto simp: async_HandlerWrite_def split: if_splits intro: grows_trans [OF _ grows_frame(2)])
qed

lemma grows_accept: "grows w (async_accept_start w)" "grows w (async_accept_save w)"
proof -
  let ?u = "as_upd (\<lambda>s. s\<lparr>as_open := True\<rparr>) w"
  have "grows w ?u" "grows ?u (async_ClearHead ?u)" by simp_all
  then have "grows w (async_Clear ?u)"
    unfolding async_Clear_def using grows_trans grows_ClearMsg by blast
  then show "grows w (async_accept_start w)"
    unfolding async_accept_start_def async_Start_def by (rule grows_trans) simp
qed (simp add: async_accept_save_def)

subsection \<open>What a step leaves alone\<close>

text \<open>Reading a head posts nothing.\<close>

lemma head_no_post:
  assumes "async_co_step net r w = Inr w'" and "as_phase (aw_session w) = Reading_head"
  shows "aw_queue w' = aw_queue w"
proof (rule co_head_rel [of net r w w' "\<lambda>w w'. aw_queue w' = aw_queue w"])
  show "async_co_head net r w = Inr w'" using assms by (simp add: async_co_step_def)
qed (auto simp: async_ClearHead_def async_remove_def async_phase_def async_fill_head_def async_PraseHead_def as_upd_def
    fault_iffs split: if_splits)

text \<open>Reading sends nothing.\<close>

lemma co_step_sends_nothing:
  assumes "async_co_step net r w = Inr w'"
  shows "as_sendQueue (aw_session w') = as_sendQueue (aw_session w) \<and>
    as_writing (aw_session w') = as_writing (aw_session w)"
proof -
  let ?R = "\<lambda>w w'. as_sendQueue (aw_session w') = as_sendQueue (aw_session w) \<and>
    as_writing (aw_session w') = as_writing (aw_session w)"
  have parts: "async_fill_head bs u = Inr v \<Longrightarrow> ?R u v" "async_fill_body bs u = Inr v \<Longrightarrow> ?R u v"
      "async_PraseHead net u = Inr v \<Longrightarrow> ?R u v" "async_PraseMsg u = Inr v \<Longrightarrow> ?R u v" for bs u v
    by (auto simp: async_fill_head_def async_fill_body_def async_PraseHead_def async_PraseMsg_def
        async_ClearHead_def async_remove_def async_PostMsgToQue_def aw_put_def as_upd_def fault_iffs split: if_splits)
  have frame: "?R u (async_ClearHead u)" "?R u (async_remove u)" "?R u (async_phase p u)" for p u
    by (simp_all add: async_ClearHead_def async_remove_def async_phase_def as_upd_def)
  show ?thesis
  proof (cases "as_phase (aw_session w)")
    case Reading_head
    then have "async_co_head net r w = Inr w'" using assms by (simp add: async_co_step_def)
    then show ?thesis by (rule co_head_rel [of net r w w' ?R]) (simp_all add: frame parts(1) parts(3))
  next
    case Reading_body
    then have "async_co_body r w = Inr w'" using assms by (simp add: async_co_step_def)
    then show ?thesis by (rule co_body_rel [of r w w' ?R]) (simp_all add: frame parts(2) parts(4))
  qed (use assms in \<open>simp_all add: async_co_step_def\<close>)
qed

end
