(* ===== verification/Async_Server.thy ===== *)
theory Async_Server
  imports Async_Steps Ftp_Server
begin

text \<open>
  The message server as a whole: \<open>src/src/02_async/server.cpp\<close> and \<open>RunServer.cpp\<close>. The sessions of
  \<open>Async_Session\<close> share the store of nodes and the logic queue, whose entries name the session they
  came from; a handler of a session runs on the world it sees (\<open>session_view\<close>). What is different
  from the upload server, and decides what a signal does: a session has no destructor, nothing
  stops a context, and \<open>Stop\<close> of the pool only drops the work guards, so it waits until no context
  has an outstanding operation. Closing a socket completes its operations; the operations of a
  socket that stays open wait for the client.
\<close>

subsection \<open>The state and the handlers of the sessions\<close>

text \<open>A message for the logic system: the session it came from and the received node.\<close>

type_synonym async_logic_node = "addr \<times> addr"

record async_server =
  vs_sessions :: "addr \<rightharpoonup> async_session"
  vs_ioc :: "addr \<Rightarrow> nat"
  vs_nodes :: "addr \<rightharpoonup> async_node"
  vs_next :: addr
  vs_queue :: "async_logic_node list"
  vs_accepting :: "addr option"
  vs_next_session :: addr
  vs_pool :: io_pool

definition session_view :: "async_server \<Rightarrow> async_session \<Rightarrow> async_world" where
  "session_view S s =
     \<lparr>aw_session = s, aw_nodes = vs_nodes S, aw_next = vs_next S, aw_queue = map snd (vs_queue S)\<rparr>"

definition put_session :: "addr \<Rightarrow> async_world \<Rightarrow> async_server \<Rightarrow> async_server" where
  "put_session a w S =
     S\<lparr>vs_sessions := (vs_sessions S)(a \<mapsto> aw_session w), vs_nodes := aw_nodes w, vs_next := aw_next w\<rparr>"

text \<open>A handler of session \<open>a\<close>; what it posts is queued under \<open>a\<close>.\<close>

definition on_session ::
  "addr \<Rightarrow> (async_world \<Rightarrow> fault + async_world) \<Rightarrow> async_server \<Rightarrow> fault + async_server" where
  "on_session a f S =
     (case vs_sessions S a of None \<Rightarrow> Inl Null_deref
      | Some s \<Rightarrow> and_then (f (session_view S s)) (\<lambda>w.
          Inr ((put_session a w S)\<lparr>vs_queue := vs_queue S @
            map (Pair a) (drop (length (vs_queue S)) (aw_queue w))\<rparr>)))"

text \<open>The worker serves the front message for the session it came from.\<close>

definition vs_doWork :: "net_ops \<Rightarrow> 'j json_ops \<Rightarrow> async_server \<Rightarrow> fault + async_server" where
  "vs_doWork net js S =
     (case vs_queue S of [] \<Rightarrow> Inl Empty_pop
      | (a, m) # q \<Rightarrow>
         (case vs_sessions S a of None \<Rightarrow> Inl Null_deref
          | Some s \<Rightarrow> and_then (async_doWork net js (session_view S s)) (\<lambda>w.
              Inr ((put_session a w S)\<lparr>vs_queue := q\<rparr>))))"

text \<open>The drain of the queue once the logic system is stopped, and one wake-up of its worker; the
  Boolean says whether the thread function returns. The size of a server is what its worker has left
  to do.\<close>

instantiation async_server_ext :: (type) size
begin

definition size_async_server_ext :: "'a async_server_scheme \<Rightarrow> nat" where
  "size_async_server_ext S = length (vs_queue S)"

instance ..

end

lemma vs_doWork_pops: "vs_doWork net js S = Inr S' \<Longrightarrow> size S' < size S"
  by (auto simp: size_async_server_ext_def vs_doWork_def fault_iffs split: list.splits option.splits)

function vs_deal_all :: "net_ops \<Rightarrow> 'j json_ops \<Rightarrow> async_server \<Rightarrow> fault + async_server" where
  "vs_deal_all net js S =
     (if vs_queue S = [] then Inr S else and_then (vs_doWork net js S) (vs_deal_all net js))"
  by pat_completeness auto

termination
  by (relation "measure (\<lambda>(net, js, S). size S)") (auto dest: vs_doWork_pops)

declare vs_deal_all.simps [simp del]

definition vs_DealMsg_wake ::
  "net_ops \<Rightarrow> 'j json_ops \<Rightarrow> bool \<Rightarrow> async_server \<Rightarrow> fault + (bool \<times> async_server)" where
  "vs_DealMsg_wake net js stop S =
     (if stop then and_then (vs_deal_all net js S) (\<lambda>S. Inr (True, S))
      else and_then (vs_doWork net js S) (\<lambda>S. Inr (False, S)))"

subsection \<open>The server\<close>

definition async_StartAccept :: "async_server \<Rightarrow> fault + async_server" where
  "async_StartAccept S =
     and_then (async_GetIOService (vs_pool S)) (\<lambda>(ioc, p).
     and_then async_Session (\<lambda>s.
     Inr (S\<lparr>vs_pool := p, vs_sessions := (vs_sessions S)(vs_next_session S \<mapsto> s),
            vs_ioc := (vs_ioc S)(vs_next_session S := ioc),
            vs_accepting := Some (vs_next_session S), vs_next_session := vs_next_session S + 1\<rparr>)))"

definition async_Server :: "nat \<Rightarrow> fault + async_server" where
  "async_Server cores =
     async_StartAccept \<lparr>vs_sessions = Map.empty, vs_ioc = (\<lambda>_. 0), vs_nodes = Map.empty, vs_next = 0,
       vs_queue = [], vs_accepting = None, vs_next_session = 0, vs_pool = async_IOServicePool cores\<rparr>"

definition server_HandlerAccept :: "addr \<Rightarrow> bool \<Rightarrow> bool \<Rightarrow> async_server \<Rightarrow> fault + async_server" where
  "server_HandlerAccept a ec peer_known S =
     and_then (on_session a (async_HandlerAccept ec peer_known) S) async_StartAccept"

text \<open>\<open>Server::Stop\<close>: the sessions of the table are stopped, then the table is cleared.\<close>

definition stop_session :: "async_session \<Rightarrow> async_session" where
  "stop_session s = (if as_listed s then (async_Stop s)\<lparr>as_listed := False\<rparr> else s)"

definition Server_Stop :: "async_server \<Rightarrow> async_server" where
  "Server_Stop S = S\<lparr>vs_sessions := (\<lambda>a. map_option stop_session (vs_sessions S a))\<rparr>"

text \<open>What keeps a context busy: an operation of a session whose socket is open, while its client
  does nothing.\<close>

definition waits :: "async_session \<Rightarrow> bool" where
  "waits s = (as_open s \<and> (as_phase s \<in> {Reading_head, Reading_body} \<or> as_writing s \<noteq> None))"

definition outstanding :: "async_server \<Rightarrow> nat \<Rightarrow> bool" where
  "outstanding S i =
     (\<exists>a<vs_next_session S. vs_ioc S a = i \<and>
        (case vs_sessions S a of None \<Rightarrow> False | Some s \<Rightarrow> waits s))"

text \<open>The signal handler of \<open>main\<close>, and what follows it: \<open>main\<close> returns 0, and the pool is destroyed.\<close>

definition async_on_signal :: "async_server \<Rightarrow> fault + async_server option" where
  "async_on_signal S =
     (let S = Server_Stop S in
      and_then (async_pool_Stop (outstanding S) (vs_pool S)) (\<lambda>r.
      Inr (map_option (\<lambda>p. S\<lparr>vs_pool := p\<rparr>) r)))"

definition async_main_signalled :: "async_server \<Rightarrow> process_end" where
  "async_main_signalled S =
     (case async_on_signal S of
        Inl e \<Rightarrow> Misbehaves e | Inr None \<Rightarrow> Hangs | Inr (Some S) \<Rightarrow> pool_exit (vs_pool S))"

text \<open>The start: an exception of the acceptor is caught, with the threads of the pool running.\<close>

definition async_main_start :: "bool \<Rightarrow> nat \<Rightarrow> process_end + async_server" where
  "async_main_start can_listen cores =
     (if \<not> can_listen then Inl (pool_exit (async_IOServicePool cores))
      else (case async_Server cores of Inl e \<Rightarrow> Inl (Misbehaves e) | Inr S \<Rightarrow> Inr S))"

subsection \<open>The interleaving\<close>

text \<open>The steps are labelled with what happens: the result of a read, with whether the logic queue
  is full then, the node that was written, and the node that is served, with whether the send queue
  of its session is full.\<close>

datatype vs_event =
  Acceptor
| Arrives addr read_result bool
| Writes addr async_node bool
| Serves addr async_node bool

definition vs_full :: "async_server \<Rightarrow> bool" where
  "vs_full S = (ASYNC_RECV_QUEUE \<le> length (vs_queue S))"

inductive vs_step ::
  "net_ops \<Rightarrow> 'j json_ops \<Rightarrow> accept_pc \<times> async_server \<Rightarrow> vs_event \<Rightarrow> accept_pc \<times> async_server \<Rightarrow> bool"
  for net js where
  accepted: "vs_accepting S = Some a \<Longrightarrow> on_session a (\<lambda>w. Inr (async_accept_start w)) S = Inr S' \<Longrightarrow>
    vs_step net js (Waiting, S) Acceptor (Started, S')"
| saved: "vs_accepting S = Some a \<Longrightarrow> on_session a (\<lambda>w. Inr (async_accept_save w)) S = Inr S' \<Longrightarrow>
    vs_step net js (Started, S) Acceptor (Saved, S')"
| refused: "vs_step net js (Waiting, S) Acceptor (Refused, S)"
| next_accept: "pc \<in> {Saved, Refused} \<Longrightarrow> async_StartAccept S = Inr S' \<Longrightarrow>
    vs_step net js (pc, S) Acceptor (Waiting, S')"
| received: "vs_sessions S a = Some s \<Longrightarrow> as_phase s \<in> {Reading_head, Reading_body} \<Longrightarrow>
    async_read_fits (session_view S s) r \<Longrightarrow> on_session a (async_co_step net r) S = Inr S' \<Longrightarrow>
    vs_step net js (pc, S) (Arrives a r (vs_full S)) (pc, S')"
| written: "vs_sessions S a = Some s \<Longrightarrow> as_writing s = Some n \<Longrightarrow>
    on_session a (async_HandlerWrite ec) S = Inr S' \<Longrightarrow> vs_step net js (pc, S) (Writes a n ec) (pc, S')"
| served: "vs_queue S = (a, m) # q \<Longrightarrow> vs_nodes S m = Some n \<Longrightarrow> vs_sessions S a = Some s \<Longrightarrow>
    vs_doWork net js S = Inr S' \<Longrightarrow> vs_step net js (pc, S) (Serves a n (\<not> async_room s)) (pc, S')"

inductive vs_run :: "net_ops \<Rightarrow> 'j json_ops \<Rightarrow> vs_event list \<Rightarrow> accept_pc \<times> async_server \<Rightarrow> bool" for net js where
  server: "async_Server cores = Inr S \<Longrightarrow> vs_run net js [] (Waiting, S)"
| step: "vs_run net js es x \<Longrightarrow> vs_step net js x e y \<Longrightarrow> vs_run net js (es @ [e]) y"

abbreviation vs_reach :: "net_ops \<Rightarrow> 'j json_ops \<Rightarrow> accept_pc \<times> async_server \<Rightarrow> bool" where
  "vs_reach net js x \<equiv> (\<exists>es. vs_run net js es x)"

lemmas vs_reachI = exI [of "\<lambda>es. vs_run net js es x" for net js x]

subsection \<open>The pool and the table of sessions\<close>

definition vs_pool_ok :: "io_pool \<Rightarrow> bool" where
  "vs_pool_ok p =
     (pool_ok p \<and> ioServices p \<noteq> [] \<and> set (ioServices p) \<subseteq> {False} \<and>
      set (works p) \<subseteq> {True} \<and> set (pool_threads p) \<subseteq> {True})"

definition vs_inv :: "async_server \<Rightarrow> bool" where
  "vs_inv S =
     (vs_pool_ok (vs_pool S) \<and>
      (\<forall>a. vs_sessions S a \<noteq> None \<longrightarrow>
         a < vs_next_session S \<and> vs_ioc S a < length (ioServices (vs_pool S))))"

lemma on_session_frame:
  assumes "on_session a f S = Inr S'"
  shows "vs_pool S' = vs_pool S \<and> vs_ioc S' = vs_ioc S \<and> vs_next_session S' = vs_next_session S \<and>
    vs_accepting S' = vs_accepting S \<and> vs_sessions S a \<noteq> None \<and>
    (\<forall>b. vs_sessions S' b = None \<longleftrightarrow> vs_sessions S b = None) \<and>
    (\<forall>b. b \<noteq> a \<longrightarrow> vs_sessions S' b = vs_sessions S b)"
  using assms by (auto simp: on_session_def put_session_def fault_iffs split: option.splits if_splits)

lemma vs_doWork_frame:
  assumes "vs_doWork net js S = Inr S'"
  shows "\<exists>a m q. vs_queue S = (a, m) # q \<and> vs_queue S' = q \<and> vs_pool S' = vs_pool S \<and> vs_ioc S' = vs_ioc S \<and>
    vs_next_session S' = vs_next_session S \<and> vs_accepting S' = vs_accepting S \<and> vs_sessions S a \<noteq> None \<and>
    (\<forall>b. vs_sessions S' b = None \<longleftrightarrow> vs_sessions S b = None) \<and>
    (\<forall>b. b \<noteq> a \<longrightarrow> vs_sessions S' b = vs_sessions S b)"
  using assms by (auto simp: vs_doWork_def put_session_def fault_iffs split: list.splits option.splits if_splits)

lemma async_StartAccept_Inr:
  assumes "async_StartAccept S = Inr S'"
  shows "\<exists>ioc p s. GetIOService (vs_pool S) = Inr (ioc, p) \<and> async_Session = Inr s \<and>
    S' = S\<lparr>vs_pool := p, vs_sessions := (vs_sessions S)(vs_next_session S \<mapsto> s),
           vs_ioc := (vs_ioc S)(vs_next_session S := ioc),
           vs_accepting := Some (vs_next_session S), vs_next_session := vs_next_session S + 1\<rparr>"
  using assms by (auto simp: async_StartAccept_def fault_iffs)

lemma vs_pool_ok_Get:
  assumes "GetIOService p = Inr (i, p')" and "vs_pool_ok p"
  shows "vs_pool_ok p' \<and> i < length (ioServices p') \<and> length (ioServices p') = length (ioServices p)"
  using assms pool_ok_GetIOService [OF assms(1)]
  by (auto simp: vs_pool_ok_def GetIOService_def split: if_splits)

lemma vs_inv_StartAccept:
  assumes "async_StartAccept S = Inr S'" and "vs_inv S"
  shows "vs_inv S'"
proof -
  obtain ioc p s where p: "GetIOService (vs_pool S) = Inr (ioc, p)"
    and S': "S' = S\<lparr>vs_pool := p, vs_sessions := (vs_sessions S)(vs_next_session S \<mapsto> s),
           vs_ioc := (vs_ioc S)(vs_next_session S := ioc),
           vs_accepting := Some (vs_next_session S), vs_next_session := vs_next_session S + 1\<rparr>"
    using async_StartAccept_Inr [OF assms(1)] by blast
  have "vs_pool_ok p \<and> ioc < length (ioServices p) \<and> length (ioServices p) = length (ioServices (vs_pool S))"
    using vs_pool_ok_Get [OF p] assms(2) by (simp add: vs_inv_def)
  with assms(2) show ?thesis unfolding S' by (auto simp: vs_inv_def less_SucI)
qed

lemma vs_inv_frame:
  assumes "vs_inv S" and "vs_sessions S a \<noteq> None" and "vs_pool S' = vs_pool S" and "vs_ioc S' = vs_ioc S"
    and "vs_next_session S' = vs_next_session S" and "\<forall>b. b \<noteq> a \<longrightarrow> vs_sessions S' b = vs_sessions S b"
  shows "vs_inv S'"
  using assms unfolding vs_inv_def by metis

lemma vs_inv_on_session: "on_session a f S = Inr S' \<Longrightarrow> vs_inv S \<Longrightarrow> vs_inv S'"
  using on_session_frame [of a f S S'] vs_inv_frame [of S a S'] by blast

lemma vs_inv_doWork: "vs_doWork net js S = Inr S' \<Longrightarrow> vs_inv S \<Longrightarrow> vs_inv S'"
  using vs_doWork_frame [of net js S S'] vs_inv_frame [of S _ S'] by blast

lemma vs_inv_step: "vs_step net js x e y \<Longrightarrow> vs_inv (snd x) \<Longrightarrow> vs_inv (snd y)"
  by (cases rule: vs_step.cases, assumption)
    (simp_all, (erule (1) vs_inv_on_session vs_inv_StartAccept vs_inv_doWork)+)

lemma async_Server_inv:
  assumes "async_Server cores = Inr S"
  shows "vs_inv S"
proof -
  have "0 < cores"
    using assms by (auto simp: async_Server_def async_StartAccept_def fault_iffs GetIOService_def
        IOServicePool_def split: if_splits)
  then have "vs_pool_ok (IOServicePool cores)"
    using pool_ok_new [of cores] by (simp add: vs_pool_ok_def IOServicePool_def)
  then show ?thesis
    by (intro vs_inv_StartAccept [OF assms [unfolded async_Server_def]]) (simp add: vs_inv_def)
qed

lemma vs_run_inv: "vs_run net js es x \<Longrightarrow> vs_inv (snd x)"
  by (induction rule: vs_run.induct) (auto intro: async_Server_inv vs_inv_step)

text \<open>Stopping a pool whose contexts were not stopped: it returns when they have nothing to do.\<close>

lemma async_pool_Stop_running:
  assumes "vs_pool_ok p"
  shows "async_pool_Stop busy p =
    Inr (if \<exists>i<length (ioServices p). busy i then None
         else Some (p\<lparr>works := replicate (length (ioServices p)) False,
                      pool_threads := replicate (length (ioServices p)) False\<rparr>))"
proof -
  let ?n = "length (ioServices p)"
  have len: "length (works p) = ?n" "length (pool_threads p) = ?n"
    using assms by (simp_all add: vs_pool_ok_def pool_ok_def)
  let ?p = "p\<lparr>works := replicate ?n False\<rparr>"
  have all: "fold (\<lambda>i xs. xs[i := c]) [0..<?n] xs = replicate ?n c" if "length xs = ?n" for c and xs :: "bool list"
    using fold_update_all [of ?n xs c] that by simp
  have stop: "stop_works False [0..<?n] p = Inr ?p"
    using stop_works_returns [of "[0..<?n]" p False] len all by (simp add: fold_same)
  have "pool_threads p ! i" "\<not> ioServices p ! i" if "i < ?n" for i
    using assms that len(2) nth_mem [of i "pool_threads p"] nth_mem [of i "ioServices p"]
    unfolding vs_pool_ok_def by (metis empty_iff insert_iff subsetD)+
  then have "(\<forall>i\<in>set [0..<?n]. pool_threads ?p ! i \<longrightarrow> run_returns busy ?p i) \<longleftrightarrow> \<not> (\<exists>i<?n. busy i)"
    by (auto simp: run_returns_def)
  then have "join_threads busy [0..<?n] ?p = (if \<exists>i<?n. busy i then None
      else Some (?p\<lparr>pool_threads := replicate ?n False\<rparr>))"
    using join_threads_returns [of "[0..<?n]" ?p busy] len all by simp
  with stop show ?thesis
    using len by (simp add: async_pool_Stop_def IOServicePool_Stop_def)
qed

text \<open>Once the server is stopped, only sessions that had left the table keep a context busy.\<close>

lemma outstanding_stopped:
  assumes "vs_inv S"
  shows "(\<exists>i<length (ioServices (vs_pool S)). outstanding (Server_Stop S) i) \<longleftrightarrow>
    (\<exists>a s. vs_sessions S a = Some s \<and> \<not> as_listed s \<and> waits s)"
proof -
  have "waits (stop_session s) \<longleftrightarrow> \<not> as_listed s \<and> waits s" for s
    by (simp add: stop_session_def async_Stop_def waits_def)
  then have "outstanding (Server_Stop S) i \<longleftrightarrow>
      (\<exists>a s. a < vs_next_session S \<and> vs_ioc S a = i \<and> vs_sessions S a = Some s \<and> \<not> as_listed s \<and> waits s)" for i
    by (auto simp: outstanding_def Server_Stop_def split: option.splits)
  moreover have "a < vs_next_session S \<and> vs_ioc S a < length (ioServices (vs_pool S))"
    if "vs_sessions S a = Some s" for a s
    using assms that by (simp add: vs_inv_def)
  ultimately show ?thesis by metis
qed

subsection \<open>The sessions stay well-typed\<close>

definition vs_typed :: "async_server \<Rightarrow> bool" where
  "vs_typed S =
     ((\<forall>a s. vs_sessions S a = Some s \<longrightarrow> async_ok (session_view S s)) \<and>
      (\<forall>(a, m)\<in>set (vs_queue S). vs_sessions S a \<noteq> None))"

lemma vs_typedD:
  assumes "vs_typed S"
  shows "vs_sessions S a = Some s \<Longrightarrow> async_ok (session_view S s)"
    and "(a, m) \<in> set (vs_queue S) \<Longrightarrow> vs_sessions S a \<noteq> None"
  using assms by (auto simp: vs_typed_def)

text \<open>The store and the queue are the same for every session.\<close>

lemma async_ok_other:
  assumes "async_ok (session_view S s)" and "async_session_ok (vs_nodes S) s'"
  shows "async_ok (session_view S s')"
  using assms by (simp add: async_ok_def session_view_def)

lemma async_session_ok_grow:
  "async_session_ok ns s \<Longrightarrow> dom ns \<subseteq> dom ns' \<Longrightarrow> async_session_ok ns' s"
  by (auto simp: async_session_ok_def split: option.splits)

lemma vs_typed_put:
  assumes "vs_typed S" and "vs_sessions S a = Some s"
    and "async_ok w" and "dom (vs_nodes S) \<subseteq> dom (aw_nodes w)"
    and "map snd q = aw_queue w" and "set q \<subseteq> set (vs_queue S) \<union> {a} \<times> UNIV"
  shows "vs_typed ((put_session a w S)\<lparr>vs_queue := q\<rparr>)"
proof -
  let ?S = "(put_session a w S)\<lparr>vs_queue := q\<rparr>"
  have view: "session_view ?S (aw_session w) = w"
    using assms(5) by (simp add: session_view_def put_session_def)
  have "async_ok (session_view ?S t)" if t: "vs_sessions ?S b = Some t" for b t
  proof (cases "b = a")
    case True
    with t assms(3) view show ?thesis by (simp add: put_session_def)
  next
    case False
    then have "async_ok (session_view S t)" using t vs_typedD(1) [OF assms(1)] by (simp add: put_session_def)
    then have "async_session_ok (vs_nodes S) t" by (simp add: async_ok_def session_view_def)
    then have "async_session_ok (aw_nodes w) t" by (rule async_session_ok_grow [OF _ assms(4)])
    then show ?thesis
      using async_ok_other [of ?S "aw_session w" t] assms(3) view by (simp add: put_session_def)
  qed
  moreover have "vs_sessions ?S b \<noteq> None" if "(b, m) \<in> set q" for b m
    using that assms(2,6) vs_typedD(2) [OF assms(1)] by (auto simp: put_session_def)
  ultimately show ?thesis by (auto simp: vs_typed_def)
qed

lemma vs_typed_on_session:
  assumes "on_session a f S = Inr S'" and "vs_typed S"
    and "\<And>s w. vs_sessions S a = Some s \<Longrightarrow> f (session_view S s) = Inr w \<Longrightarrow>
      async_ok w \<and> grows (session_view S s) w"
  shows "vs_typed S'"
proof -
  obtain s w where s: "vs_sessions S a = Some s" and w: "f (session_view S s) = Inr w"
    and S': "S' = (put_session a w S)\<lparr>vs_queue := vs_queue S @ map (Pair a) (drop (length (vs_queue S)) (aw_queue w))\<rparr>"
    using assms(1) by (auto simp: on_session_def fault_iffs split: option.splits)
  note ok = assms(3) [OF s w]
  then obtain ms where ms: "aw_queue w = map snd (vs_queue S) @ ms"
    by (auto simp: grows_def session_view_def)
  show ?thesis
    unfolding S'
  proof (rule vs_typed_put [OF assms(2) s])
    show "map snd (vs_queue S @ map (Pair a) (drop (length (vs_queue S)) (aw_queue w))) = aw_queue w"
      by (simp add: ms o_def)
  qed (use ok in \<open>auto simp: grows_def session_view_def\<close>)
qed

lemma vs_typed_doWork:
  assumes "vs_doWork net js S = Inr S'" and "vs_typed S" and "network_order net" and "json_throws js"
  shows "vs_typed S'"
proof -
  obtain a m q s w where q: "vs_queue S = (a, m) # q" and s: "vs_sessions S a = Some s"
    and w: "async_doWork net js (session_view S s) = Inr w" and S': "S' = (put_session a w S)\<lparr>vs_queue := q\<rparr>"
    using assms(1) by (auto simp: vs_doWork_def fault_iffs split: list.splits option.splits)
  have "async_ok w \<and> aw_queue w = map snd q"
    using async_serve_outcome [OF vs_typedD(1) [OF assms(2) s] _ assms(3,4)] w q
    by (simp add: session_view_def)
  moreover have "aw_nodes w = vs_nodes S"
    using w by (auto simp: async_doWork_def HelloWorldCallback_def fault_iffs session_view_def async_ClearHead_def
        as_upd_def Let_def case_prod_beta split: list.splits option.splits)
  ultimately show ?thesis
    unfolding S' by (intro vs_typed_put [OF assms(2) s]) (auto simp: q)
qed

lemma vs_doWork_faults:
  assumes typed: "vs_typed S" and "vs_queue S \<noteq> []" and net: "network_order net" "json_throws js"
    and e: "vs_doWork net js S = Inl e"
  shows "is_exception e \<or> e = Buffer_overflow"
proof -
  obtain a m q where q: "vs_queue S = (a, m) # q" using assms(2) by (cases "vs_queue S") auto
  then obtain s where s: "vs_sessions S a = Some s" using vs_typedD(2) [OF typed, of a m] by auto
  then have "async_doWork net js (session_view S s) = Inl e"
    using e q by (auto simp: vs_doWork_def fault_iffs)
  with async_serve_outcome [OF vs_typedD(1) [OF typed s] _ net] q show ?thesis by (simp add: session_view_def)
qed

lemma vs_deal_all_outcome:
  assumes "vs_typed S" and net: "network_order net" "json_throws js"
  shows "case vs_deal_all net js S of Inr S' \<Rightarrow> vs_typed S' \<and> vs_queue S' = []
    | Inl e \<Rightarrow> is_exception e \<or> e = Buffer_overflow"
  using assms(1)
proof (induction "size S" arbitrary: S rule: less_induct)
  case less
  show ?case
  proof (cases "vs_queue S = []")
    case True
    with less.prems show ?thesis by (simp add: vs_deal_all.simps [of net js S])
  next
    case ne: False
    show ?thesis
    proof (cases "vs_doWork net js S")
      case (Inl e)
      with ne vs_doWork_faults [OF less.prems ne net Inl] show ?thesis
        by (simp add: vs_deal_all.simps [of net js S])
    next
      case (Inr T)
      from less.hyps [OF vs_doWork_pops [OF Inr] vs_typed_doWork [OF Inr less.prems net]] Inr ne show ?thesis
        by (simp add: vs_deal_all.simps [of net js S])
    qed
  qed
qed

lemma vs_typed_StartAccept:
  assumes "async_StartAccept S = Inr S'" and "vs_typed S" and "vs_inv S" and "async_ok (session_view S t)"
  shows "vs_typed S'"
proof -
  obtain ioc p s where s: "async_Session = Inr s"
    and S': "S' = S\<lparr>vs_pool := p, vs_sessions := (vs_sessions S)(vs_next_session S \<mapsto> s),
           vs_ioc := (vs_ioc S)(vs_next_session S := ioc),
           vs_accepting := Some (vs_next_session S), vs_next_session := vs_next_session S + 1\<rparr>"
    using async_StartAccept_Inr [OF assms(1)] by blast
  have view: "session_view S' u = session_view S u" for u by (simp add: session_view_def S')
  have "async_session_ok Map.empty s"
    using async_ok_created [OF s] by (simp add: async_ok_def)
  then have "async_session_ok (vs_nodes S) s" by (rule async_session_ok_grow) simp
  then have "async_ok (session_view S s)" by (rule async_ok_other [OF assms(4)])
  then show ?thesis
    using vs_typedD [OF assms(2)] unfolding vs_typed_def view by (auto simp: S' split: if_splits)
qed

lemma vs_typed_step:
  assumes "vs_step net js x e y" and "vs_typed (snd x)" and "vs_inv (snd x)"
    and "\<exists>t. async_ok (session_view (snd x) t)" and net: "network_order net" and js: "json_throws js"
  shows "vs_typed (snd y)"
  using assms(1)
proof (cases rule: vs_step.cases)
  case (accepted S a S')
  with assms(2) show ?thesis
    by (auto intro!: vs_typed_on_session [of a _ S S'] async_ok_accept grows_accept dest: vs_typedD(1))
next
  case (saved S a S')
  with assms(2) show ?thesis
    by (auto intro!: vs_typed_on_session [of a _ S S'] async_ok_accept grows_accept dest: vs_typedD(1))
next
  case (refused S)
  with assms(2) show ?thesis by simp
next
  case (next_accept pc S S')
  obtain t where "async_ok (session_view S t)" using assms(4) next_accept(1) by auto
  with vs_typed_StartAccept [OF next_accept(5)] next_accept(1,3) assms(2,3) show ?thesis by simp
next
  case (received S a s r S' pc)
  have "vs_typed S" using assms(2) received(1) by simp
  with received(7) have "vs_typed S'"
  proof (rule vs_typed_on_session)
    fix t w assume t: "vs_sessions S a = Some t" and w: "async_co_step net r (session_view S t) = Inr w"
    have "async_ok (session_view S t)" using assms(2) received(1) t by (auto dest: vs_typedD(1))
    from async_co_outcome [OF net this, of r] received(4,6) t w
    show "async_ok w \<and> grows (session_view S t) w" using grows_co_step [OF w] by simp
  qed
  with received(3) show ?thesis by simp
next
  case (written S a s n ec S' pc)
  have "vs_typed S" using assms(2) written(1) by simp
  with written(6) have "vs_typed S'"
  proof (rule vs_typed_on_session)
    fix t w assume t: "vs_sessions S a = Some t" and w: "async_HandlerWrite ec (session_view S t) = Inr w"
    have "async_ok (session_view S t)" using assms(2) written(1) t by (auto dest: vs_typedD(1))
    moreover have "as_writing (aw_session (session_view S t)) \<noteq> None"
      using t written(4,5) by (simp add: session_view_def)
    ultimately show "async_ok w \<and> grows (session_view S t) w"
      using async_write_outcome [of "session_view S t" ec] w grows_HandlerWrite [OF w] by auto
  qed
  with written(3) show ?thesis by simp
next
  case (served S a m q n s S' pc)
  with vs_typed_doWork [OF served(7) _ net js] assms(2) show ?thesis by simp
qed

lemma async_Session_created: "\<exists>s. async_Session = Inr s \<and> as_phase s = Not_started"
  by (simp add: async_Session_def async_RecvNode_def async_MsgNode_def ASYNC_HEAD_LEN_def Let_def)

lemma vs_run_typed:
  assumes "vs_run net js es x" and "network_order net" and "json_throws js"
  shows "vs_typed (snd x) \<and> (\<exists>a. vs_accepting (snd x) = Some a \<and> vs_sessions (snd x) a \<noteq> None)"
  using assms(1)
proof (induction rule: vs_run.induct)
  case (server cores S)
  let ?E = "\<lparr>vs_sessions = Map.empty, vs_ioc = (\<lambda>_. 0), vs_nodes = Map.empty, vs_next = 0, vs_queue = [],
    vs_accepting = None, vs_next_session = 0, vs_pool = async_IOServicePool cores\<rparr>"
  obtain s where s: "async_Session = Inr s" using async_Session_created by blast
  have start: "async_StartAccept ?E = Inr S" using server by (simp add: async_Server_def)
  have S: "vs_sessions S = [0 \<mapsto> s]" "vs_accepting S = Some 0" "vs_queue S = []" "vs_nodes S = Map.empty"
    "vs_next S = 0"
    using async_StartAccept_Inr [OF start] by (auto simp: s)
  then have "vs_typed S"
    using async_ok_created [OF s] by (simp add: vs_typed_def session_view_def)
  with S show ?case by simp
next
  case (step es x e y)
  note inv = vs_run_inv [OF step.hyps(1)]
  obtain a where a: "vs_accepting (snd x) = Some a" "vs_sessions (snd x) a \<noteq> None" using step.IH by blast
  then obtain t where "async_ok (session_view (snd x) t)" using step.IH vs_typedD(1) by blast
  with vs_typed_step [OF step.hyps(2) _ inv _ assms(2,3)] step.IH have "vs_typed (snd y)" by blast
  moreover have "\<exists>b. vs_accepting (snd y) = Some b \<and> vs_sessions (snd y) b \<noteq> None"
    using step.hyps(2)
  proof (cases rule: vs_step.cases)
    case (next_accept pc S S')
    with async_StartAccept_Inr [OF next_accept(5)] show ?thesis by auto
  next
    case (served S a' m q n s S' pc)
    have "vs_accepting S' = vs_accepting S" "\<forall>b. vs_sessions S' b = None \<longleftrightarrow> vs_sessions S b = None"
      using vs_doWork_frame [OF served(7)] by auto
    with served(1,3) a show ?thesis by simp
  qed (use a in \<open>auto dest!: on_session_frame simp del: not_None_eq\<close>)
  ultimately show ?case by blast
qed

subsection \<open>A head that is refused\<close>

text \<open>After a first message, a refused head takes the session from the table and goes on reading
  into the previous node, with the socket open.\<close>

lemma refused_head_step:
  assumes "network_order net" and "async_ok w" and "as_phase (aw_session w) = Reading_head"
    and "as_recvMsg (aw_session w) \<noteq> None" and "as_open (aw_session w)"
    and "length bs = 4" and "head_refused_by bs"
  shows "\<exists>w'. async_co_step net (Read_bytes bs) w = Inr w' \<and> \<not> as_listed (aw_session w') \<and> waits (aw_session w')"
proof -
  let ?i = "short_of (rev (take 2 bs))" and ?len = "short_of (rev (drop 2 bs))"
  have split: "bs = be16 ?i @ be16 ?len" using assms(6) by (simp add: be16_of)
  have "async_idle w" using assms(3) async_okD(3) [OF assms(2)] by (simp add: async_idle_def async_session_ok_def)
  from async_head_step [OF assms(1) this, of ?i ?len] obtain h where
    "async_co_step net (Read_bytes bs) w =
      async_read_body (async_remove (async_ClearHead (as_upd (\<lambda>s. s\<lparr>as_head := h\<rparr>) w)))"
    using assms(7) unfolding split [symmetric] by (auto simp: head_refused_by_def Let_def)
  moreover obtain m n where "as_recvMsg (aw_session w) = Some m" "aw_nodes w m = Some n"
    using assms(4) async_okD(3) [OF assms(2)] by (auto simp: async_session_ok_def)
  ultimately show ?thesis
    using assms(5)
    by (simp add: async_read_body_def async_recv_node_def async_remove_def async_ClearHead_def as_upd_def
        async_phase_def waits_def)
qed

text \<open>A server before its first client, for the witnesses.\<close>

lemma async_Server_starts:
  "\<exists>S s. async_Server 1 = Inr S \<and> vs_accepting S = Some 0 \<and> vs_sessions S = [0 \<mapsto> s] \<and>
    \<not> as_open s \<and> vs_queue S = []"
proof -
  obtain s where s: "async_Session = Inr s" "\<not> as_open s"
    by (auto simp: async_Session_def async_RecvNode_def async_MsgNode_def ASYNC_HEAD_LEN_def Let_def)
  show ?thesis
    by (simp add: async_Server_def async_StartAccept_def GetIOService_def IOServicePool_def s(1)) (use s(2) in blast)
qed

text \<open>Running a handler that does not fault.\<close>

lemma on_session_run:
  assumes "vs_sessions S a = Some s" and "f (session_view S s) = Inr w" and "grows (session_view S s) w"
  shows "\<exists>S'. on_session a f S = Inr S' \<and> vs_sessions S' a = Some (aw_session w) \<and>
    session_view S' (aw_session w) = w"
proof -
  obtain ms where "aw_queue w = map snd (vs_queue S) @ ms"
    using assms(3) by (auto simp: grows_def session_view_def)
  then show ?thesis
    using assms(1,2) by (simp add: on_session_def put_session_def session_view_def o_def)
qed

lemma StartAccept_returns: "vs_inv S \<Longrightarrow> \<exists>S'. async_StartAccept S = Inr S'"
proof -
  assume "vs_inv S"
  then have "next_service (vs_pool S) < length (ioServices (vs_pool S))"
    by (simp add: vs_inv_def vs_pool_ok_def pool_ok_def)
  moreover obtain s where s: "async_Session = Inr s" using async_Session_created by blast
  ultimately show ?thesis by (simp add: async_StartAccept_def GetIOService_def s)
qed

lemma view_queue: "session_view S s = w \<Longrightarrow> aw_queue w = [] \<Longrightarrow> vs_queue S = []"
  by (auto simp: session_view_def)

text \<open>A read of a session, as a step of a run.\<close>

lemma vs_run_received:
  assumes "vs_run net js es (pc, S)" and "vs_sessions S a = Some s"
    and "as_phase s \<in> {Reading_head, Reading_body}" and "async_read_fits (session_view S s) r"
    and w: "async_co_step net r (session_view S s) = Inr w"
  shows "\<exists>S'. vs_run net js (es @ [Arrives a r (vs_full S)]) (pc, S') \<and> vs_sessions S' a = Some (aw_session w) \<and>
    session_view S' (aw_session w) = w"
proof -
  obtain S' where S': "on_session a (async_co_step net r) S = Inr S'" "vs_sessions S' a = Some (aw_session w)"
    "session_view S' (aw_session w) = w"
    using on_session_run [of S a s "async_co_step net r", OF assms(2) w grows_co_step [OF w]] by blast
  with vs_run.step [OF assms(1) vs_step.received [OF assms(2-4) S'(1)]] show ?thesis by blast
qed

text \<open>The first client of a server, accepted.\<close>

lemma vs_run_accepted:
  "\<exists>S s. vs_run net js [Acceptor, Acceptor, Acceptor] (Waiting, S) \<and> vs_sessions S 0 = Some s \<and>
     as_phase s = Reading_head \<and> as_open s \<and> vs_queue S = []"
proof -
  obtain S0 s0 where S0: "async_Server 1 = Inr S0" "vs_accepting S0 = Some 0" "vs_sessions S0 = [0 \<mapsto> s0]"
    "vs_queue S0 = []" using async_Server_starts by blast
  let ?w1 = "async_accept_start (session_view S0 s0)"
  have q1: "aw_queue ?w1 = []" "as_phase (aw_session ?w1) = Reading_head" "as_open (aw_session ?w1)"
    using S0(4) by (simp_all add: async_accept_start_def async_Start_def async_Clear_def
        async_ClearHead_def async_ClearMsg_def as_upd_def session_view_def split: option.split)
  obtain S1 where S1: "on_session 0 (\<lambda>w. Inr (async_accept_start w)) S0 = Inr S1" "vs_sessions S1 0 = Some (aw_session ?w1)"
    "session_view S1 (aw_session ?w1) = ?w1"
    using on_session_run [of S0 0 s0 "\<lambda>w. Inr (async_accept_start w)" ?w1] grows_accept S0(3) by auto
  let ?w2 = "async_accept_save ?w1"
  obtain S2 where S2: "on_session 0 (\<lambda>w. Inr (async_accept_save w)) S1 = Inr S2" "vs_sessions S2 0 = Some (aw_session ?w2)"
    "session_view S2 (aw_session ?w2) = ?w2"
    using on_session_run [OF S1(2), of "\<lambda>w. Inr (async_accept_save w)" ?w2] grows_accept S1(3) by auto
  have "vs_accepting S1 = Some 0" using on_session_frame [OF S1(1)] S0(2) by simp
  note r2 = vs_run.step [OF vs_run.step [OF vs_run.server [OF S0(1)] vs_step.accepted [OF S0(2) S1(1)]]
      vs_step.saved [OF this S2(1)]]
  have inv: "vs_inv S2" using vs_run_inv [OF r2] by simp
  then obtain S3 where S3: "async_StartAccept S2 = Inr S3" using StartAccept_returns by blast
  note r3 = vs_run.step [OF r2 vs_step.next_accept [OF _ S3, of Saved, simplified]]
  have "0 < vs_next_session S2" using inv S2(2) by (auto simp: vs_inv_def)
  moreover have "vs_queue S2 = []" using view_queue [OF S2(3)] q1(1) by (simp add: async_accept_save_def as_upd_def)
  ultimately show ?thesis
    using r3 async_StartAccept_Inr [OF S3] S2(2) q1(2,3)
    by (intro exI [of _ S3] exI [of _ "aw_session ?w2"]) (auto simp: async_accept_save_def as_upd_def)
qed

text \<open>A session of the server that has sent one message and waits for the next head.\<close>

lemma after_one_message:
  "\<exists>S s. vs_run swap_ops (demo_json [])
       [Acceptor, Acceptor, Acceptor, Arrives 0 (Read_bytes (take 4 (short_frame 1001 (bytes_of ''hi'')))) False,
        Arrives 0 (Read_bytes (bytes_of ''hi'')) False] (Waiting, S) \<and> vs_sessions S 0 = Some s \<and>
     as_phase s = Reading_head \<and> as_recvMsg s \<noteq> None \<and> as_open s \<and>
     (\<exists>m n. map snd (vs_queue S) = [m] \<and> vs_nodes S m = Some n \<and> an_msgId n = 1001 \<and>
        an_data n = map Some (bytes_of ''hi'' @ [0]))"
proof -
  let ?net = "swap_ops" and ?js = "demo_json []" and ?bs = "short_frame 1001 (bytes_of ''hi'')"
  obtain S s where r: "vs_run ?net ?js [Acceptor, Acceptor, Acceptor] (Waiting, S)"
    and s: "vs_sessions S 0 = Some s" "as_phase s = Reading_head" "as_open s" "vs_queue S = []"
    using vs_run_accepted by blast
  let ?w = "session_view S s"
  have ok: "async_ok ?w" using vs_run_typed [OF r swap_ops_network_order demo_json_throws] vs_typedD(1) s(1) by simp
  have w: "aw_session ?w = s" "aw_queue ?w = []" using s(4) by (simp_all add: session_view_def)
  then have idle: "async_idle ?w" using s(2) async_okD(3) [OF ok] by (simp add: async_idle_def async_session_ok_def)
  have bs: "BaseSend_bytes ?net ''hi'' 1001 = Inr ?bs" "drop 4 ?bs = bytes_of ''hi''"
    using BaseSend_bytes_fits [OF swap_ops_network_order, of "''hi''" 1001] by (simp_all add: short_frame_def be16_def)
  from async_request_frame [OF swap_ops_network_order idle, of 1001 "''hi''"] w bs
  obtain u v n where u: "async_co_step ?net (Read_bytes (take 4 ?bs)) ?w = Inr u" "async_read_size u = 2"
    and v: "async_co_step ?net (Read_bytes (bytes_of ''hi'')) u = Inr v" "async_idle v"
      "as_open (aw_session v)" "as_recvMsg (aw_session v) \<noteq> None"
    and n: "aw_queue v = [aw_next ?w]" "aw_nodes v (aw_next ?w) = Some n" "an_msgId n = 1001"
      "an_data n = map Some (bytes_of ''hi'' @ [0])"
    using s(3) by (auto simp: ASYNC_RECV_QUEUE_def)
  have "async_read_fits ?w (Read_bytes (take 4 ?bs))" using s(2) w by (simp add: async_read_fits_def ASYNC_HEAD_LEN_def)
  from vs_run_received [OF r s(1) _ this u(1)] s(2) obtain T where
    T: "vs_run ?net ?js [Acceptor, Acceptor, Acceptor, Arrives 0 (Read_bytes (take 4 ?bs)) (vs_full S)] (Waiting, T)"
      "vs_sessions T 0 = Some (aw_session u)" "session_view T (aw_session u) = u" by auto
  have ph: "as_phase (aw_session u) = Reading_body"
    using u(2) by (auto simp: async_read_size_def ASYNC_HEAD_LEN_def split: co_phase.splits)
  have "async_read_fits (session_view T (aw_session u)) (Read_bytes (bytes_of ''hi''))"
    using ph u(2) by (simp add: async_read_fits_def T(3))
  from vs_run_received [OF T(1,2) _ this] v(1) ph T(3) obtain U where
    U: "vs_run ?net ?js [Acceptor, Acceptor, Acceptor, Arrives 0 (Read_bytes (take 4 ?bs)) (vs_full S),
        Arrives 0 (Read_bytes (bytes_of ''hi'')) (vs_full T)] (Waiting, U)" "vs_sessions U 0 = Some (aw_session v)"
      "session_view U (aw_session v) = v"
    by auto
  have "map snd (vs_queue U) = [aw_next ?w]" "vs_nodes U (aw_next ?w) = Some n"
    using n(1,2) arg_cong [OF U(3), of aw_queue] arg_cong [OF U(3), of aw_nodes] by (simp_all add: session_view_def)
  note queued = this n(3,4)
  have "\<not> vs_full S" using s(4) by (simp add: vs_full_def ASYNC_RECV_QUEUE_def)
  moreover have "vs_queue T = []" using view_queue [OF T(3)] head_no_post [OF u(1)] s(2) w by simp
  then have "\<not> vs_full T" by (simp add: vs_full_def ASYNC_RECV_QUEUE_def)
  ultimately show ?thesis
    using U(1,2) v(2-4) queued by (intro exI [of _ U] exI [of _ "aw_session v"]) (simp add: async_idle_def)
qed

text \<open>The end of \<open>main\<close> after a signal.\<close>

lemma main_signalled_outcome:
  assumes "vs_reach net js (Waiting, S)"
  shows "async_main_signalled S =
    (if \<exists>a s. vs_sessions S a = Some s \<and> \<not> as_listed s \<and> waits s then Hangs else Exits 0)"
proof -
  have inv: "vs_inv S" using assms vs_run_inv by fastforce
  then have "vs_pool_ok (vs_pool (Server_Stop S))" by (simp add: vs_inv_def Server_Stop_def)
  from async_pool_Stop_running [OF this, of "outstanding (Server_Stop S)"] outstanding_stopped [OF inv]
  show ?thesis
    by (simp add: async_main_signalled_def async_on_signal_def Let_def pool_exit_def Server_Stop_def)
qed

subsection \<open>Properties\<close>

text \<open>
  C9: every reachable state of the message server, with any number of clients, is well-typed for
  every session: every array is as long as its node's length demands, every reference points to a
  node, every queued message is a terminated string without an indeterminate byte and has its
  session, every node in a send queue can be sent, at most the front is being written, and the
  queues keep their limits. And a handler run there faults in four ways only: a refused first head
  dereferences null, a body read into a node of length -1 overruns it, and a wake-up of the worker
  throws or overruns a response whose length is a negative \<open>short\<close>; otherwise it serves the front
  message, or, once stopped, every message there is.
\<close>
theorem async_typed:
  assumes "vs_reach net js (pc, S)" and "network_order net" and "json_throws js"
  shows "vs_typed S \<and>
    (\<forall>a s r e. vs_sessions S a = Some s \<longrightarrow> async_read_fits (session_view S s) r \<longrightarrow>
       on_session a (async_co_step net r) S = Inl e \<longrightarrow>
       e = Null_deref \<and> (\<exists>bs. r = Read_bytes bs \<and> head_refused_by bs) \<and> as_recvMsg s = None \<or>
       e = Buffer_overflow \<and> (\<exists>m n. async_recv_node (session_view S s) = Inr (m, n) \<and> an_totalLen n = - 1)) \<and>
    (\<forall>a s ec e. vs_sessions S a = Some s \<longrightarrow> as_writing s \<noteq> None \<longrightarrow>
       on_session a (async_HandlerWrite ec) S \<noteq> Inl e) \<and>
    (\<forall>stop. stop \<or> vs_queue S \<noteq> [] \<longrightarrow> (case vs_DealMsg_wake net js stop S of
       Inl e \<Rightarrow> is_exception e \<or> e = Buffer_overflow
     | Inr (returns, S') \<Rightarrow> vs_typed S' \<and> returns = stop \<and> (stop \<longrightarrow> vs_queue S' = [])))"
proof -
  have typed: "vs_typed S" using assms(1) vs_run_typed [OF _ assms(2,3)] by fastforce
  note ok = vs_typedD(1) [OF typed]
  have "e = Null_deref \<and> (\<exists>bs. r = Read_bytes bs \<and> head_refused_by bs) \<and> as_recvMsg s = None \<or>
       e = Buffer_overflow \<and> (\<exists>m n. async_recv_node (session_view S s) = Inr (m, n) \<and> an_totalLen n = - 1)"
    if "vs_sessions S a = Some s" "async_read_fits (session_view S s) r"
      "on_session a (async_co_step net r) S = Inl e" for a s r e
  proof -
    have "async_co_step net r (session_view S s) = Inl e"
      using that(1,3) by (auto simp: on_session_def fault_iffs)
    with async_co_outcome [OF assms(2) ok [OF that(1)] that(2)] show ?thesis
      by (auto simp: session_view_def split: read_result.splits)
  qed
  moreover have "on_session a (async_HandlerWrite ec) S \<noteq> Inl e"
    if "vs_sessions S a = Some s" "as_writing s \<noteq> None" for a s ec e
    using async_write_outcome [OF ok [OF that(1)], of ec] that by (auto simp: on_session_def session_view_def)
  moreover have "(stop \<or> vs_queue S \<noteq> []) \<longrightarrow> (case vs_DealMsg_wake net js stop S of
       Inl e \<Rightarrow> is_exception e \<or> e = Buffer_overflow
     | Inr (returns, S') \<Rightarrow> vs_typed S' \<and> returns = stop \<and> (stop \<longrightarrow> vs_queue S' = []))" for stop
    using vs_deal_all_outcome [OF typed assms(2,3)] vs_doWork_faults [OF typed _ assms(2,3)]
      vs_typed_doWork [OF _ typed assms(2,3)]
    by (cases stop; cases "vs_deal_all net js S"; cases "vs_doWork net js S") (simp_all add: vs_DealMsg_wake_def)
  ultimately show ?thesis using typed by blast
qed

theorem async_typed_witness:
  "\<exists>S. vs_reach swap_ops (demo_json []) (Waiting, S) \<and> vs_typed S \<and> vs_accepting S = Some 0"
proof -
  obtain S where S: "async_Server 1 = Inr S" "vs_accepting S = Some 0" using async_Server_starts by blast
  note reach = vs_reachI [OF vs_run.server [OF S(1), of swap_ops "demo_json []"]]
  from async_typed [OF reach swap_ops_network_order demo_json_throws] reach S(2) show ?thesis by blast
qed



text \<open>
  C10: any client can keep the message server from stopping. Once it has sent one message, a head
  with an id or a length above the limits takes its session out of the table, but the session goes
  on reading with its socket open: from that step on, and as long as the client stays silent, a
  signal finds a thread of the pool that is never joined.
\<close>
theorem refused_head_blocks_shutdown:
  assumes "vs_reach net js (Waiting, S)" and "network_order net" and "json_throws js"
    and "vs_sessions S a = Some s" and "as_phase s = Reading_head" and "as_recvMsg s \<noteq> None" and "as_open s"
    and "length bs = 4" and "head_refused_by bs"
  shows "\<exists>S'. on_session a (async_co_step net (Read_bytes bs)) S = Inr S' \<and>
    vs_step net js (Waiting, S) (Arrives a (Read_bytes bs) (vs_full S)) (Waiting, S') \<and> async_main_signalled S' = Hangs"
proof -
  let ?w = "session_view S s"
  have "vs_typed S" using assms(1) vs_run_typed [OF _ assms(2,3)] by fastforce
  then have ok: "async_ok ?w" using vs_typedD(1) assms(4) by blast
  obtain w' where w': "async_co_step net (Read_bytes bs) ?w = Inr w'" "\<not> as_listed (aw_session w')" "waits (aw_session w')"
    using refused_head_step [OF assms(2) ok _ _ _ assms(8,9)] assms(5-7) by (auto simp: session_view_def)
  obtain S' where S': "on_session a (async_co_step net (Read_bytes bs)) S = Inr S'" "vs_sessions S' a = Some (aw_session w')"
    using on_session_run [OF assms(4), of "async_co_step net (Read_bytes bs)" w'] w'(1) grows_co_step [OF w'(1)] by blast
  have step: "vs_step net js (Waiting, S) (Arrives a (Read_bytes bs) (vs_full S)) (Waiting, S')"
    using assms(4,5,8) S'(1)
    by (intro vs_step.received [of S a s "Read_bytes bs"]) (auto simp: async_read_fits_def session_view_def ASYNC_HEAD_LEN_def)
  then have "vs_reach net js (Waiting, S')" using assms(1) vs_run.step by blast
  from main_signalled_outcome [OF this] S' w'(2,3) step show ?thesis by auto
qed

theorem refused_head_blocks_shutdown_witness:
  "\<exists>S S'. vs_reach swap_ops (demo_json []) (Waiting, S) \<and>
     on_session 0 (async_co_step swap_ops (Read_bytes [3, 233, 127, 255])) S = Inr S' \<and>
     async_main_signalled S' = Hangs"
proof -
  obtain S s where S: "vs_reach swap_ops (demo_json []) (Waiting, S)" "vs_sessions S 0 = Some s"
    "as_phase s = Reading_head" "as_recvMsg s \<noteq> None" "as_open s"
    using after_one_message by blast
  have "head_refused_by [3, 233, 127, 255]"
    by (simp add: head_refused_by_def short_of_def push_bit_eq_mult)
  with refused_head_blocks_shutdown [OF S(1) swap_ops_network_order demo_json_throws S(2-5), of "[3, 233, 127, 255]"]
    S(1) show ?thesis by auto
qed

end
