(* ===== verification/Async_Order.thy ===== *)
theory Async_Order
  imports Async_Server
begin

text \<open>
  What the message server promises to each of its clients, whatever the others do. The history of a
  run is the list of its labels; of it a client sees the reads of its session, the services of its
  messages and the writes to it. What its session must have made of the reads is said by \<open>hears\<close>,
  which knows of no nodes, queues or phases; an invariant over all steps relates the two. The property that
  follows from it is in \<open>Async_Progress\<close>.
\<close>

subsection \<open>The history of one client\<close>

definition arrivals :: "addr \<Rightarrow> vs_event list \<Rightarrow> (read_result \<times> bool) list" where
  "arrivals a es = concat (map (\<lambda>e. case e of Arrives b r full \<Rightarrow> if b = a then [(r, full)] else [] | _ \<Rightarrow> []) es)"

definition services :: "addr \<Rightarrow> vs_event list \<Rightarrow> (async_node \<times> bool) list" where
  "services a es = concat (map (\<lambda>e. case e of Serves b n full \<Rightarrow> if b = a then [(n, full)] else [] | _ \<Rightarrow> []) es)"

definition written_to :: "addr \<Rightarrow> vs_event list \<Rightarrow> async_node list" where
  "written_to a es =
     concat (map (\<lambda>e. case e of Writes b n ec \<Rightarrow> if b = a \<and> \<not> ec then [n] else [] | _ \<Rightarrow> []) es)"

lemma history_simps [simp]:
  "arrivals a [] = []" "services a [] = []" "written_to a [] = []"
  "arrivals a (es @ [Acceptor]) = arrivals a es"
  "arrivals a (es @ [Arrives b r full]) = arrivals a es @ (if b = a then [(r, full)] else [])"
  "arrivals a (es @ [Writes b n ec]) = arrivals a es" "arrivals a (es @ [Serves b n full]) = arrivals a es"
  "services a (es @ [Acceptor]) = services a es" "services a (es @ [Arrives b r full]) = services a es"
  "services a (es @ [Writes b n ec]) = services a es"
  "services a (es @ [Serves b n full]) = services a es @ (if b = a then [(n, full)] else [])"
  "written_to a (es @ [Acceptor]) = written_to a es" "written_to a (es @ [Arrives b r full]) = written_to a es"
  "written_to a (es @ [Writes b n ec]) = written_to a es @ (if b = a \<and> \<not> ec then [n] else [])"
  "written_to a (es @ [Serves b n full]) = written_to a es"
  by (simp_all add: arrivals_def services_def written_to_def)

text \<open>The messages in what arrives: heads within the limits, each followed by its body. A body may
  arrive in parts; a message is lost when the logic queue is full as it completes. There is no
  result once a read has failed or a head was not within the limits.\<close>

fun hears ::
  "read_result \<times> bool \<Rightarrow> (u16 \<times> nat) option \<times> (u16 \<times> bytes) list \<Rightarrow>
     ((u16 \<times> nat) option \<times> (u16 \<times> bytes) list) option" where
  "hears (Read_failed, full) v = None"
| "hears (Read_bytes bs, full) (None, ms) =
     (let i = short_of (rev (take 2 bs)); len = short_of (rev (drop 2 bs)) in
      if sint i \<le> ASYNC_MAX_ID \<and> 1 \<le> sint len \<and> sint len \<le> ASYNC_MAX_LEN
      then Some (Some (i, unat len), ms) else None)"
| "hears (Read_bytes bs, full) (Some (i, n), ms) =
     (if length bs < n then Some (Some (i, n), ms)
      else Some (None, if full then ms else ms @ [(i, bs)]))"

definition heard :: "addr \<Rightarrow> vs_event list \<Rightarrow> ((u16 \<times> nat) option \<times> (u16 \<times> bytes) list) option" where
  "heard a es = fold (\<lambda>x v. Option.bind v (hears x)) (arrivals a es) (Some (None, []))"

lemma heard_simps [simp]:
  "heard a [] = Some (None, [])" "heard a (es @ [Acceptor]) = heard a es"
  "heard a (es @ [Writes b n ec]) = heard a es" "heard a (es @ [Serves b n full]) = heard a es"
  "heard a (es @ [Arrives b r full]) = (if b = a then Option.bind (heard a es) (hears (r, full)) else heard a es)"
  by (simp_all add: heard_def)

text \<open>A node as a message, a message as the node holds it, and what is queued for a session.\<close>

definition node_msg :: "async_node \<Rightarrow> u16 \<times> char_array" where
  "node_msg n = (an_msgId n, an_data n)"

definition held :: "u16 \<times> bytes \<Rightarrow> u16 \<times> char_array" where
  "held = (\<lambda>(i, bs). (i, map Some (bs @ [0])))"

definition queued_msgs :: "addr \<Rightarrow> async_server \<Rightarrow> (u16 \<times> char_array) option list" where
  "queued_msgs a S = map (\<lambda>(b, m). map_option node_msg (vs_nodes S m)) (filter (\<lambda>(b, m). b = a) (vs_queue S))"

text \<open>The frame a served message is answered with: the length of the response is a \<open>short\<close>.\<close>

definition response_frame :: "u16 \<Rightarrow> string \<Rightarrow> bytes" where
  "response_frame i resp = short_frame i (take (length resp mod 65536) (bytes_of resp))"

fun async_reply :: "'j json_ops \<Rightarrow> async_node \<times> bool \<Rightarrow> bytes list" where
  "async_reply js (n, full) =
     (if an_msgId n \<noteq> HelloWorld \<or> full then []
      else (case c_str (an_data n) of Inl _ \<Rightarrow> []
        | Inr req \<Rightarrow>
            (case json_set js (snd (json_parse js req)) ''role'' (json_str js ''server'') of
               Inl _ \<Rightarrow> []
             | Inr root \<Rightarrow> [response_frame (an_msgId n) (toStyledString js root)])))"

definition async_replies :: "'j json_ops \<Rightarrow> (async_node \<times> bool) list \<Rightarrow> bytes list" where
  "async_replies js ss = concat (map (async_reply js) ss)"

subsection \<open>Whose node is whose\<close>

definition node_owners :: "(addr \<Rightarrow> addr) \<Rightarrow> async_server \<Rightarrow> bool" where
  "node_owners ow S =
     ((\<forall>a s m. vs_sessions S a = Some s \<longrightarrow> as_recvMsg s = Some m \<longrightarrow> ow m = a \<and> m < vs_next S) \<and>
      (\<forall>(a, m)\<in>set (vs_queue S). ow m = a \<and> m < vs_next S))"

lemma node_ownersD:
  assumes "node_owners ow S"
  shows "vs_sessions S a = Some s \<Longrightarrow> as_recvMsg s = Some m \<Longrightarrow> ow m = a \<and> m < vs_next S"
    and "(a, m) \<in> set (vs_queue S) \<Longrightarrow> ow m = a \<and> m < vs_next S"
  using assms by (auto simp: node_owners_def)

lemma on_session_Inr:
  assumes "on_session a f S = Inr S'"
  obtains s w where "vs_sessions S a = Some s" and "f (session_view S s) = Inr w"
    and "S' = (put_session a w S)\<lparr>vs_queue := vs_queue S @ map (Pair a) (drop (length (vs_queue S)) (aw_queue w))\<rparr>"
  using assms by (auto simp: on_session_def fault_iffs split: option.splits)

text \<open>A step of a session, in terms of the server: what it appends, and what it leaves.\<close>

definition footprint :: "addr \<Rightarrow> async_session \<Rightarrow> async_world \<Rightarrow> addr list \<Rightarrow> async_server \<Rightarrow> async_server \<Rightarrow> bool" where
  "footprint a s w ms S S' =
     (vs_sessions S a = Some s \<and> vs_sessions S' = (vs_sessions S)(a \<mapsto> aw_session w) \<and>
      vs_nodes S' = aw_nodes w \<and> vs_next S' = aw_next w \<and> vs_next S \<le> vs_next S' \<and>
      vs_queue S' = vs_queue S @ map (Pair a) ms \<and> aw_queue w = map snd (vs_queue S) @ ms \<and>
      (\<forall>m. m \<in> set ms \<or> as_recvMsg (aw_session w) = Some m \<longrightarrow>
         as_recvMsg s = Some m \<or> vs_next S \<le> m \<and> m < vs_next S') \<and>
      (\<forall>m<vs_next S. as_recvMsg s \<noteq> Some m \<longrightarrow> vs_nodes S' m = vs_nodes S m))"

lemma footprintD:
  assumes "footprint a s w ms S S'"
  shows "vs_sessions S a = Some s" "vs_sessions S' = (vs_sessions S)(a \<mapsto> aw_session w)"
    "vs_nodes S' = aw_nodes w" "vs_next S' = aw_next w" "vs_next S \<le> vs_next S'"
    "vs_queue S' = vs_queue S @ map (Pair a) ms" "aw_queue w = map snd (vs_queue S) @ ms"
    "m \<in> set ms \<or> as_recvMsg (aw_session w) = Some m \<Longrightarrow> as_recvMsg s = Some m \<or> vs_next S \<le> m \<and> m < vs_next S'"
    "m < vs_next S \<Longrightarrow> as_recvMsg s \<noteq> Some m \<Longrightarrow> vs_nodes S' m = vs_nodes S m"
  using assms unfolding footprint_def by blast+

lemma on_session_footprint:
  assumes "on_session a f S = Inr S'" and "\<And>v w. f v = Inr w \<Longrightarrow> grows v w"
  shows "\<exists>s w ms. f (session_view S s) = Inr w \<and> footprint a s w ms S S'"
proof -
  obtain s w where s: "vs_sessions S a = Some s" and w: "f (session_view S s) = Inr w"
    and S': "S' = (put_session a w S)\<lparr>vs_queue := vs_queue S @ map (Pair a) (drop (length (vs_queue S)) (aw_queue w))\<rparr>"
    using on_session_Inr [OF assms(1)] by blast
  have g: "grows (session_view S s) w" using assms(2) [OF w] .
  obtain ms where ms: "aw_queue w = map snd (vs_queue S) @ ms"
    "\<And>m. m \<in> set ms \<Longrightarrow> as_recvMsg s = Some m \<or> vs_next S \<le> m \<and> m < aw_next w"
    using growsD [OF g] unfolding session_view_def by (metis async_world.select_convs(1,3,4))
  have other: "m \<in> set ms \<or> as_recvMsg (aw_session w) = Some m \<Longrightarrow>
      as_recvMsg s = Some m \<or> vs_next S \<le> m \<and> m < aw_next w" for m
    using g ms(2) [of m] by (auto simp: grows_def session_view_def Let_def)
  have rest: "vs_next S \<le> aw_next w" "m < vs_next S \<Longrightarrow> as_recvMsg s \<noteq> Some m \<Longrightarrow> aw_nodes w m = vs_nodes S m" for m
    using g by (auto simp: grows_def session_view_def Let_def)
  have S'f: "vs_sessions S' = (vs_sessions S)(a \<mapsto> aw_session w)" "vs_nodes S' = aw_nodes w" "vs_next S' = aw_next w"
    "vs_queue S' = vs_queue S @ map (Pair a) ms"
    using ms(1) by (simp_all add: S' put_session_def)
  have "footprint a s w ms S S'"
    unfolding footprint_def S'f using s ms(1) other rest by simp
  with w show ?thesis by blast
qed

lemma footprint_owners:
  assumes "footprint a s w ms S S'" and "node_owners ow S"
  shows "node_owners (\<lambda>m. if vs_next S \<le> m then a else ow m) S'"
proof -
  note f = footprintD [OF assms(1)]
  have "(vs_next S \<le> m \<longrightarrow> m < vs_next S') \<and> (\<not> vs_next S \<le> m \<longrightarrow> ow m = a \<and> m < vs_next S')"
    if "m \<in> set ms \<or> as_recvMsg (aw_session w) = Some m" for m
    using f(8) [OF that] node_ownersD(1) [OF assms(2) f(1), of m] f(5) by auto
  moreover have "ow m = b \<and> m < vs_next S' \<and> \<not> vs_next S \<le> m"
    if "vs_sessions S b = Some t" "as_recvMsg t = Some m" for b t m
    using node_ownersD(1) [OF assms(2) that] f(5) by simp
  moreover have "ow m = b \<and> m < vs_next S' \<and> \<not> vs_next S \<le> m" if "(b, m) \<in> set (vs_queue S)" for b m
    using node_ownersD(2) [OF assms(2) that] f(5) by simp
  ultimately show ?thesis
    unfolding node_owners_def f(2) f(6) by (fastforce split: if_splits)
qed

subsection \<open>A read, and what is heard of it\<close>

definition at_point :: "async_world \<Rightarrow> (u16 \<times> nat) option \<Rightarrow> bool" where
  "at_point w h =
     (case h of None \<Rightarrow> as_phase (aw_session w) \<in> {Not_started, Reading_head}
      | Some (i, k) \<Rightarrow> as_phase (aw_session w) = Reading_body \<and> 0 < k \<and> k \<le> 2048 \<and>
          (\<exists>m n. as_recvMsg (aw_session w) = Some m \<and> m \<notin> set (aw_queue w) \<and> aw_nodes w m = Some n \<and>
             an_msgId n = i \<and> an_totalLen n = int k \<and> length (an_data n) = k + 1))"

abbreviation msg_at :: "(addr \<rightharpoonup> async_node) \<Rightarrow> addr \<Rightarrow> (u16 \<times> char_array) option" where
  "msg_at ns m \<equiv> map_option node_msg (ns m)"

lemma hears_head:
  assumes net: "network_order net" and ok: "async_ok w" and ph: "as_phase (aw_session w) = Reading_head"
    and bs: "length bs = 4" and step: "async_co_step net (Read_bytes bs) w = Inr w'"
    and hears: "hears (Read_bytes bs, full) (None, ms) = Some (h', ms')"
  shows "at_point w' h' \<and> ms' = ms \<and> aw_queue w' = aw_queue w \<and>
    (\<forall>m\<in>set (aw_queue w). msg_at (aw_nodes w') m = msg_at (aw_nodes w) m)"
proof -
  let ?i = "short_of (rev (take 2 bs))" and ?len = "short_of (rev (drop 2 bs))"
  have split: "bs = be16 ?i @ be16 ?len" using bs by (simp add: be16_of)
  have heard: "sint ?i \<le> 10240" "1 \<le> sint ?len" "sint ?len \<le> 2048" "h' = Some (?i, unat ?len)" "ms' = ms"
    using hears by (auto simp: Let_def split: if_splits)
  have len: "sint ?len = int (unat ?len)" using sint_unat [of ?len] heard(2) by simp
  have l: "unat ?len = nat (sint ?len)" unfolding len by simp
  have idle: "async_idle w" using ph async_okD(3) [OF ok] by (simp add: async_idle_def async_session_ok_def)
  have queued: "m < aw_next w" if "m \<in> set (aw_queue w)" for m
    using async_okD(4) [OF ok that] async_okD(2) [OF ok, of m] by (auto simp: async_queued_ok_def split: option.splits)
  obtain h where w': "w' = async_phase Reading_body (as_upd (\<lambda>s. s\<lparr>as_recvMsg := Some (aw_next w)\<rparr>)
      ((as_upd (\<lambda>s. s\<lparr>as_head := h\<rparr>) w)\<lparr>aw_nodes := (aw_nodes w)(aw_next w \<mapsto>
         \<lparr>an_curLen = 0, an_totalLen = sint ?len, an_data = new_array (nat (sint ?len + 1)), an_msgId = ?i\<rparr>),
       aw_next := aw_next w + 1\<rparr>))"
    using async_head_step [OF net idle, of ?i ?len] step heard(1-3) unfolding split [symmetric]
    by (auto simp: Let_def)
  have "nat (sint ?len + 1) = unat ?len + 1" "0 < unat ?len" "unat ?len \<le> 2048"
    using heard(2,3) unfolding l by (simp_all add: nat_add_distrib nat_le_iff)
  then show ?thesis
    using queued len by (auto simp: w' heard(4,5) at_point_def async_phase_def as_upd_def new_array_def)
qed

lemma hears_body:
  assumes at: "at_point w (Some (i, k))" and fits: "length bs \<le> k"
    and step: "async_co_step net (Read_bytes bs) w = Inr w'"
    and hears: "hears (Read_bytes bs, ASYNC_RECV_QUEUE \<le> length (aw_queue w)) (Some (i, k), ms) = Some (h', ms')"
  shows "at_point w' h' \<and> (\<forall>m\<in>set (aw_queue w). msg_at (aw_nodes w') m = msg_at (aw_nodes w) m) \<and>
    (\<exists>new ks. ms' = ms @ new \<and> aw_queue w' = aw_queue w @ ks \<and>
       map (msg_at (aw_nodes w')) ks = map (Some \<circ> held) new)"
proof -
  obtain m n where m: "as_phase (aw_session w) = Reading_body" "as_recvMsg (aw_session w) = Some m"
      "m \<notin> set (aw_queue w)" "aw_nodes w m = Some n"
    and n: "0 < k" "k \<le> 2048" "an_msgId n = i" "an_totalLen n = int k" "length (an_data n) = k + 1"
    using at by (auto simp: at_point_def)
  have recv: "async_recv_node w = Inr (m, n)" "async_read_size w = k"
    using m n by (simp_all add: async_recv_node_def async_read_size_def buffer_size_def)
  show ?thesis
  proof (cases "length bs = k")
    case True
    then have "bs \<noteq> []" using n(1) by auto
    from async_body_step [OF m(1,2,4) _ _ this, of net] step True n
    have w': "w' = async_phase Reading_head (async_PostMsgToQue m (aw_put m (n\<lparr>an_data := map Some (bs @ [0])\<rparr>) w))"
      by simp
    have *: "h' = None" "ms' = (if ASYNC_RECV_QUEUE \<le> length (aw_queue w) then ms else ms @ [(i, bs)])"
      using hears True by (auto split: if_splits)
    have "node_msg (n\<lparr>an_data := map Some (bs @ [0])\<rparr>) = held (i, bs)" by (simp add: node_msg_def held_def n(3))
    then show ?thesis
      using m(3) unfolding * w'
      by (auto simp: at_point_def async_phase_def as_upd_def async_PostMsgToQue_def aw_put_def
          intro!: exI [of _ "if ASYNC_RECV_QUEUE \<le> length (aw_queue w) then [] else [m]"])
  next
    case False
    then have *: "h' = Some (i, k)" "ms' = ms" using hears fits by auto
    show ?thesis
    proof (cases "bs = []")
      case True
      then have "w' = w" using step m(1) recv n(1) by (simp add: async_co_step_def)
      with at * show ?thesis by simp
    next
      case ne: False
      then have "w' = aw_put m (n\<lparr>an_data := map Some bs @ drop (length bs) (an_data n)\<rparr>) w"
        using step m(1) recv fits False n(5)
        by (simp add: async_co_step_def async_fill_body_def an_write_def memcpy_to_fits)
      then show ?thesis using * m n fits by (auto simp: at_point_def aw_put_def)
    qed
  qed
qed

lemma hears_step:
  assumes net: "network_order net" and ok: "async_ok w" and "as_phase (aw_session w) \<in> {Reading_head, Reading_body}"
    and fits: "async_read_fits w r" and step: "async_co_step net r w = Inr w'" and at: "at_point w h"
    and hears: "hears (r, ASYNC_RECV_QUEUE \<le> length (aw_queue w)) (h, ms) = Some (h', ms')"
  shows "at_point w' h' \<and> (\<forall>m\<in>set (aw_queue w). msg_at (aw_nodes w') m = msg_at (aw_nodes w) m) \<and>
    (\<exists>new ks. ms' = ms @ new \<and> aw_queue w' = aw_queue w @ ks \<and>
       map (msg_at (aw_nodes w')) ks = map (Some \<circ> held) new)"
proof -
  obtain bs where r: "r = Read_bytes bs" using hears by (cases r) auto
  show ?thesis
  proof (cases h)
    case None
    then have "as_phase (aw_session w) = Reading_head" using at assms(3) by (auto simp: at_point_def)
    moreover from this have "length bs = 4" using fits r by (simp add: async_read_fits_def ASYNC_HEAD_LEN_def)
    ultimately show ?thesis
      using hears_head [OF net ok _ _ step [unfolded r] hears [unfolded r None]] by auto
  next
    case (Some ik)
    obtain i k where h: "h = Some (i, k)" using Some by (cases ik) auto
    then have "async_read_size w = k" "as_phase (aw_session w) = Reading_body"
      using at by (auto simp: at_point_def async_read_size_def async_recv_node_def buffer_size_def)
    then have "length bs \<le> k" using fits r by (simp add: async_read_fits_def)
    from hears_body [OF at [unfolded h] this step [unfolded r] hears [unfolded r h]] show ?thesis .
  qed
qed

subsection \<open>A service, and the reply\<close>

lemma SendNode_frame_of:
  assumes net: "network_order net" and "async_SendNode net (bytes_of resp) (of_nat (length resp)) i = Inr n"
  shows "async_wire n = Inr (response_frame i resp)"
proof -
  let ?len = "of_nat (length resp) :: u16" and ?msg = "take (length resp mod 65536) (bytes_of resp)"
  have len: "unat ?len = length resp mod 65536" by (simp add: unat_of_nat take_bit_eq_mod)
  then have msg: "length ?msg = length resp mod 65536" by (simp add: min_def)
  have len': "(of_nat (length ?msg) :: u16) = ?len"
    using len word_of_nat_eq_iff [where 'a = 16, of "length ?msg" "length resp"] msg by (simp add: take_bit_eq_mod)
  have eq: "async_SendNode net (bytes_of resp) ?len i = async_SendNode net ?msg (of_nat (length ?msg)) i"
    using async_SendNode_take [of ?len "bytes_of resp" net i] len' len by simp
  have "0 \<le> sint ?len" using assms(2) by (auto simp: async_SendNode_def fault_iffs not_less [symmetric])
  then have "length ?msg < 32768" using sint_unat [of ?len] len msg by simp
  from async_SendNode_bounds [OF net this, of i] assms(2) show ?thesis
    unfolding eq by (auto simp: response_frame_def short_frame_def split: if_splits)
qed

lemma Send_view_replies:
  assumes net: "network_order net" and "async_Send_view net resp i s = Inr s'"
  shows "as_recvMsg s' = as_recvMsg s \<and> as_phase s' = as_phase s \<and>
    map async_wire (as_sendQueue s') =
      map async_wire (as_sendQueue s) @ (if async_room s then [Inr (response_frame i resp)] else [])"
proof (cases "async_room s")
  case True
  have "ucast (of_nat (length resp) :: u32) = (of_nat (length resp) :: u16)"
    by (intro bit_word_eqI) (simp add: bit_simps)
  with True assms(2) obtain n where "async_SendNode net (bytes_of resp) (of_nat (length resp)) i = Inr n"
    "s' = async_push n s"
    by (auto simp: async_Send_view_def async_Send_def async_room_def fault_iffs)
  with SendNode_frame_of [OF net this(1)] True show ?thesis by (simp add: async_push_def Let_def)
next
  case False
  with assms(2) show ?thesis by (simp add: async_Send_view_def async_Send_def async_room_def)
qed

lemma doWork_replies:
  assumes net: "network_order net" and w: "aw_queue w = m # q" "aw_nodes w m = Some n"
    and step: "async_doWork net js w = Inr w'"
  shows "aw_nodes w' = aw_nodes w \<and> aw_next w' = aw_next w \<and> aw_queue w' = q \<and>
    as_recvMsg (aw_session w') = as_recvMsg (aw_session w) \<and> as_phase (aw_session w') = as_phase (aw_session w) \<and>
    map async_wire (as_sendQueue (aw_session w')) =
      map async_wire (as_sendQueue (aw_session w)) @ map Inr (async_reply js (n, \<not> async_room (aw_session w)))"
proof (cases "an_msgId n = HelloWorld")
  case False
  with w step show ?thesis by (auto simp: async_doWork_def async_callbacks_def)
next
  case True
  then obtain req root s where "c_str (an_data n) = Inr req"
    "json_set js (snd (json_parse js req)) ''role'' (json_str js ''server'') = Inr root"
    and s: "async_Send_view net (toStyledString js root) HelloWorld (aw_session w) = Inr s"
    and w': "w' = async_ClearHead (w\<lparr>aw_queue := q, aw_session := s\<rparr>)"
    using w step
    by (auto simp: async_doWork_def async_callbacks_def HelloWorldCallback_def Let_def case_prod_beta fault_iffs)
  with Send_view_replies [OF net s] True show ?thesis
    by (auto simp: async_ClearHead_def as_upd_def)
qed

subsection \<open>The invariant\<close>

definition kept :: "'j json_ops \<Rightarrow> vs_event list \<Rightarrow> async_server \<Rightarrow> addr \<Rightarrow> bool" where
  "kept js es S a =
     (case vs_sessions S a of
        None \<Rightarrow> arrivals a es = [] \<and> services a es = [] \<and> written_to a es = []
      | Some s \<Rightarrow>
          map async_wire (written_to a es @ as_sendQueue s) = map Inr (async_replies js (services a es)) \<and>
          (\<forall>h ms. heard a es = Some (h, ms) \<longrightarrow> at_point (session_view S s) h \<and>
             map (Some \<circ> node_msg \<circ> fst) (services a es) @ queued_msgs a S = map (Some \<circ> held) ms))"

lemma keptD:
  assumes "kept js es S a"
  shows "vs_sessions S a = Some s \<Longrightarrow>
      map async_wire (written_to a es @ as_sendQueue s) = map Inr (async_replies js (services a es))"
    and "vs_sessions S a = Some s \<Longrightarrow> heard a es = Some (h, ms) \<Longrightarrow> at_point (session_view S s) h"
    and "vs_sessions S a = Some s \<Longrightarrow> heard a es = Some (h, ms) \<Longrightarrow>
      map (Some \<circ> node_msg \<circ> fst) (services a es) @ queued_msgs a S = map (Some \<circ> held) ms"
    and "vs_sessions S a = None \<Longrightarrow> arrivals a es = [] \<and> services a es = [] \<and> written_to a es = []"
  using assms by (auto simp: kept_def)

lemma kept_Acceptor [simp]: "kept js (es @ [Acceptor]) S a = kept js es S a"
  by (auto simp: kept_def split: option.splits)

lemma async_replies_snoc: "async_replies js (ss @ [x]) = async_replies js ss @ async_reply js x"
  by (simp add: async_replies_def)

lemma footprint_view: "footprint a s w ms S S' \<Longrightarrow> session_view S' (aw_session w) = w"
  by (simp add: footprint_def session_view_def o_def)

lemma kept_own:
  assumes f: "footprint a s w ms S S'" and kept: "kept js es S a"
    and wire: "map async_wire (written_to a es' @ as_sendQueue (aw_session w)) = map Inr (async_replies js (services a es))"
    and serv: "services a es' = services a es"
    and heard: "\<And>h' ms'. heard a es' = Some (h', ms') \<Longrightarrow> at_point w h' \<and>
      (\<forall>m. (a, m) \<in> set (vs_queue S) \<longrightarrow> msg_at (aw_nodes w) m = msg_at (vs_nodes S) m) \<and>
      (\<exists>h ms0 new. heard a es = Some (h, ms0) \<and> ms' = ms0 @ new \<and> map (msg_at (aw_nodes w)) ms = map (Some \<circ> held) new)"
  shows "kept js es' S' a"
proof -
  have "at_point w h' \<and> map (Some \<circ> node_msg \<circ> fst) (services a es') @ queued_msgs a S' = map (Some \<circ> held) ms'"
    if hd: "heard a es' = Some (h', ms')" for h' ms'
  proof -
    obtain h ms0 new where h: "heard a es = Some (h, ms0)" and new: "ms' = ms0 @ new"
      "map (msg_at (aw_nodes w)) ms = map (Some \<circ> held) new" and at: "at_point w h'"
      and nodes: "\<forall>m. (a, m) \<in> set (vs_queue S) \<longrightarrow> msg_at (aw_nodes w) m = msg_at (vs_nodes S) m"
      using heard [OF hd] by blast
    have "map (\<lambda>(b, m). msg_at (aw_nodes w) m) (filter (\<lambda>(b, m). b = a) (vs_queue S)) = queued_msgs a S"
      unfolding queued_msgs_def by (intro map_cong) (use nodes in auto)
    moreover have "filter (\<lambda>(b, m). b = a) (map (Pair a) ms) = map (Pair a) ms" by (induction ms) simp_all
    ultimately have "queued_msgs a S' = queued_msgs a S @ map (msg_at (aw_nodes w)) ms"
      by (simp add: queued_msgs_def footprintD(3,6) [OF f] o_def)
    with keptD(3) [OF kept footprintD(1) [OF f] h] at show ?thesis
      unfolding serv new map_append by (simp flip: append_assoc)
  qed
  then show ?thesis
    using wire footprint_view [OF f] by (simp add: kept_def footprintD(2) [OF f] serv)
qed

lemma kept_other:
  assumes f: "footprint b s w ms S S'" and "a \<noteq> b" and own: "node_owners ow S" and kept: "kept js es S a"
    and same: "arrivals a es' = arrivals a es" "services a es' = services a es" "written_to a es' = written_to a es"
  shows "kept js es' S' a"
proof -
  have "ow m = b" if "as_recvMsg s = Some m" for m using node_ownersD(1) [OF own footprintD(1) [OF f] that] by simp
  then have nodes: "vs_nodes S' m = vs_nodes S m \<and> m \<notin> set ms" if "ow m = a" "m < vs_next S" for m
    using footprintD(8,9) [OF f, of m] that assms(2) by fastforce
  have "filter (\<lambda>(c, m). c = a) (map (Pair b) ms) = []" using assms(2) by (induction ms) simp_all
  then have q: "queued_msgs a S' = queued_msgs a S"
    using nodes node_ownersD(2) [OF own] by (auto simp: queued_msgs_def footprintD(6) [OF f])
  have "at_point (session_view S' t) h"
    if t: "vs_sessions S a = Some t" and at: "at_point (session_view S t) h" for t h
    using at nodes node_ownersD(1) [OF own t] assms(2)
    by (cases h) (auto simp: at_point_def session_view_def footprintD(6) [OF f] image_image)
  moreover have "heard a es' = heard a es" by (simp add: heard_def same)
  ultimately show ?thesis
    using kept assms(2) by (cases "vs_sessions S a") (auto simp: kept_def footprintD(2) [OF f] q same)
qed

subsection \<open>The steps keep it\<close>

lemma kept_received:
  assumes net: "network_order net" and typed: "vs_typed S" and own: "node_owners ow S" and kept: "\<And>c. kept js es S c"
    and s: "vs_sessions S a = Some s" "as_phase s \<in> {Reading_head, Reading_body}"
    and fits: "async_read_fits (session_view S s) r" and step: "on_session a (async_co_step net r) S = Inr S'"
  shows "kept js (es @ [Arrives a r (vs_full S)]) S' c"
proof -
  obtain t w ms where t: "async_co_step net r (session_view S t) = Inr w" and f: "footprint a t w ms S S'"
    using on_session_footprint [OF step] grows_co_step by blast
  have [simp]: "t = s" using footprintD(1) [OF f] s(1) by simp
  show ?thesis
  proof (cases "c = a")
    case False
    then show ?thesis by (intro kept_other [OF f False own kept]) simp_all
  next
    case True
    let ?es = "es @ [Arrives a r (vs_full S)]" and ?v = "session_view S s"
    have sends: "as_sendQueue (aw_session w) = as_sendQueue s"
      using co_step_sends_nothing [OF t] by (simp add: session_view_def)
    have full: "vs_full S \<longleftrightarrow> ASYNC_RECV_QUEUE \<le> length (aw_queue ?v)" by (simp add: vs_full_def session_view_def)
    have "at_point w h' \<and> (\<forall>m. (a, m) \<in> set (vs_queue S) \<longrightarrow> msg_at (aw_nodes w) m = msg_at (vs_nodes S) m) \<and>
      (\<exists>h ms0 new. heard a es = Some (h, ms0) \<and> ms' = ms0 @ new \<and> map (msg_at (aw_nodes w)) ms = map (Some \<circ> held) new)"
      if hd: "heard a ?es = Some (h', ms')" for h' ms'
    proof -
      obtain h ms0 where h: "heard a es = Some (h, ms0)" "hears (r, vs_full S) (h, ms0) = Some (h', ms')"
        using hd by (cases "heard a es") auto
      have "async_ok ?v" "as_phase (aw_session ?v) \<in> {Reading_head, Reading_body}" "at_point ?v h"
        using vs_typedD(1) [OF typed s(1)] s(2) keptD(2) [OF kept s(1) h(1)] by (simp_all add: session_view_def)
      from hears_step [OF net this(1,2) fits t [simplified] this(3) h(2) [unfolded full]]
      have at: "at_point w h'" "\<forall>m\<in>set (aw_queue ?v). msg_at (aw_nodes w) m = msg_at (aw_nodes ?v) m"
        and "\<exists>new ks. ms' = ms0 @ new \<and> aw_queue w = aw_queue ?v @ ks \<and>
          map (msg_at (aw_nodes w)) ks = map (Some \<circ> held) new" by blast+
      then obtain new where "ms' = ms0 @ new" "map (msg_at (aw_nodes w)) ms = map (Some \<circ> held) new"
        using footprintD(7) [OF f] by (auto simp: session_view_def)
      with at h(1) show ?thesis by (force simp: session_view_def)
    qed
    then show ?thesis
      unfolding True using keptD(1) [OF kept s(1)] by (intro kept_own [OF f kept]) (simp_all add: sends)
  qed
qed

text \<open>A step of a session that reads nothing: an acceptance, or the completion of a write.\<close>

lemma kept_quiet:
  assumes own: "node_owners ow S" and kept: "\<And>c. kept js es S c" and s: "vs_sessions S a = Some s"
    and step: "on_session a g S = Inr S'" and grows: "\<And>v w. g v = Inr w \<Longrightarrow> grows v w"
    and quiet: "\<And>w. g (session_view S s) = Inr w \<Longrightarrow> aw_queue w = map snd (vs_queue S) \<and>
      (\<forall>m. msg_at (aw_nodes w) m = msg_at (vs_nodes S) m) \<and>
      (\<forall>h. at_point (session_view S s) h \<longrightarrow> at_point w h) \<and>
      map async_wire (written_to a es' @ as_sendQueue (aw_session w)) =
        map async_wire (written_to a es @ as_sendQueue s)"
    and same: "\<And>c. arrivals c es' = arrivals c es" "\<And>c. services c es' = services c es"
      "\<And>c. c \<noteq> a \<Longrightarrow> written_to c es' = written_to c es"
  shows "kept js es' S' c"
proof -
  obtain t w ms where t: "g (session_view S t) = Inr w" and f: "footprint a t w ms S S'"
    using on_session_footprint [OF step] grows by blast
  have [simp]: "t = s" using footprintD(1) [OF f] s by simp
  note q = quiet [OF t [simplified]]
  show ?thesis
  proof (cases "c = a")
    case False
    then show ?thesis by (intro kept_other [OF f False own kept]) (simp_all add: same)
  next
    case True
    have "ms = []" using q footprintD(7) [OF f] by simp
    then show ?thesis
      unfolding True using q keptD(1,2) [OF kept s]
      by (intro kept_own [OF f kept]) (simp_all add: same heard_def)
  qed
qed

lemma kept_served:
  assumes net: "network_order net" and own: "node_owners ow S" and kept: "\<And>c. kept js es S c"
    and q: "vs_queue S = (a, m) # q" and n: "vs_nodes S m = Some n" and s: "vs_sessions S a = Some s"
    and step: "vs_doWork net js S = Inr S'"
  shows "node_owners ow S' \<and> kept js (es @ [Serves a n (\<not> async_room s)]) S' c \<and>
    (vs_sessions S' b = Some t \<longrightarrow> (\<exists>t'. vs_sessions S b = Some t' \<and> as_phase t = as_phase t'))"
proof -
  let ?es = "es @ [Serves a n (\<not> async_room s)]"
  obtain w where w: "async_doWork net js (session_view S s) = Inr w"
    and S': "S' = (put_session a w S)\<lparr>vs_queue := q\<rparr>"
    using step q s by (auto simp: vs_doWork_def fault_iffs)
  note r = doWork_replies [OF net _ _ w, of m "map snd q" n, simplified session_view_def, simplified, OF _ n]
  have r: "aw_nodes w = vs_nodes S" "aw_next w = vs_next S" "as_recvMsg (aw_session w) = as_recvMsg s"
    "as_phase (aw_session w) = as_phase s"
    "map async_wire (as_sendQueue (aw_session w)) = map async_wire (as_sendQueue s) @ map Inr (async_reply js (n, \<not> async_room s))"
    using r q by simp_all
  have S'f: "vs_sessions S' = (vs_sessions S)(a \<mapsto> aw_session w)" "vs_nodes S' = vs_nodes S" "vs_queue S' = q"
    "vs_next S' = vs_next S"
    using r(1,2) by (simp_all add: S' put_session_def)
  have at: "at_point (session_view S' t') h"
    if "at_point (session_view S t) h" "as_recvMsg t' = as_recvMsg t" "as_phase t' = as_phase t" for t t' h
    using that by (cases h) (auto simp: at_point_def session_view_def S'f q)
  have queued: "queued_msgs b S = (if b = a then [Some (node_msg n)] else []) @ queued_msgs b S'" for b
    by (simp add: queued_msgs_def S'f q n)
  have "kept js ?es S' c"
  proof (cases "c = a")
    case True
    have "at_point (session_view S' (aw_session w)) h \<and>
        map (Some \<circ> node_msg \<circ> fst) (services a ?es) @ queued_msgs a S' = map (Some \<circ> held) ms"
      if "heard a ?es = Some (h, ms)" for h ms
      using keptD(2,3) [OF kept [of a] s, of h ms] that queued [of a] at [OF _ r(3,4)] by simp
    then show ?thesis
      using keptD(1) [OF kept [of a] s] r(5) by (simp add: kept_def True S'f(1) async_replies_snoc)
  next
    case False
    then show ?thesis
      using kept [of c] queued [of c] at [OF _ refl refl] by (auto simp: kept_def S'f(1) split: option.splits)
  qed
  moreover have "node_owners ow S'" using own r(3) s by (auto simp: node_owners_def S'f q)
  ultimately show ?thesis using r(4) s by (auto simp: S'f(1))
qed

lemma kept_accepted:
  assumes own: "node_owners ow S" and kept: "\<And>c. kept js es S c" and s: "vs_sessions S a = Some s" "as_phase s = Not_started"
    and step: "on_session a (\<lambda>w. Inr (async_accept_start w)) S = Inr S'"
  shows "kept js (es @ [Acceptor]) S' c"
proof (rule kept_quiet [OF own kept s(1) step])
  fix w assume "Inr (async_accept_start (session_view S s)) = (Inr w :: fault + async_world)"
  then have w: "w = async_accept_start (session_view S s)" by simp
  have m: "msg_at (aw_nodes w) m = msg_at (vs_nodes S) m" for m
    by (cases "vs_nodes S m") (simp_all add: w async_accept_start_def async_Start_def async_Clear_def async_ClearMsg_def
        async_ClearHead_def as_upd_def session_view_def async_node_Clear_def node_msg_def split: option.split)
  have at: "at_point w h" if "at_point (session_view S s) h" for h
    using that s(2) by (cases h)
      (auto simp: at_point_def w async_accept_start_def async_Start_def as_upd_def session_view_def)
  have "as_sendQueue (aw_session w) = as_sendQueue s \<and> aw_queue w = map snd (vs_queue S)"
    by (simp add: w async_accept_start_def async_Start_def async_Clear_def async_ClearMsg_def async_ClearHead_def
        as_upd_def session_view_def split: option.split)
  with m at show "aw_queue w = map snd (vs_queue S) \<and> (\<forall>m. msg_at (aw_nodes w) m = msg_at (vs_nodes S) m) \<and>
      (\<forall>h. at_point (session_view S s) h \<longrightarrow> at_point w h) \<and>
      map async_wire (written_to a (es @ [Acceptor]) @ as_sendQueue (aw_session w)) =
        map async_wire (written_to a es @ as_sendQueue s)" by simp
qed (auto intro: grows_accept)

lemma kept_saved:
  assumes own: "node_owners ow S" and kept: "\<And>c. kept js es S c" and s: "vs_sessions S a = Some s"
    and step: "on_session a (\<lambda>w. Inr (async_accept_save w)) S = Inr S'"
  shows "kept js (es @ [Acceptor]) S' c"
  by (rule kept_quiet [OF own kept s step])
    (auto intro: grows_accept(2) [unfolded async_accept_save_def as_upd_def] simp: async_accept_save_def as_upd_def session_view_def at_point_def split: option.splits)

lemma kept_written:
  assumes own: "node_owners ow S" and kept: "\<And>c. kept js es S c" and typed: "vs_typed S"
    and s: "vs_sessions S a = Some s" "as_writing s = Some n"
    and step: "on_session a (async_HandlerWrite ec) S = Inr S'"
  shows "kept js (es @ [Writes a n ec]) S' c"
proof (rule kept_quiet [OF own kept s(1) step grows_HandlerWrite])
  have "async_ok (session_view S s)" using vs_typedD(1) [OF typed s(1)] .
  then obtain ns where q: "as_sendQueue s = n # ns"
    using async_okD(3) [of "session_view S s"] s(2)
    by (cases "as_sendQueue s") (auto simp: async_session_ok_def session_view_def)
  fix w assume w: "async_HandlerWrite ec (session_view S s) = Inr w"
  have "at_point w h" if "at_point (session_view S s) h" for h
    using that w by (cases h) (auto simp: at_point_def async_HandlerWrite_def async_remove_def async_write_failed_def
        async_write_next_def as_upd_def session_view_def Let_def split: if_splits)
  moreover have "aw_nodes w = vs_nodes S \<and> aw_queue w = map snd (vs_queue S) \<and>
      as_sendQueue (aw_session w) = (if ec then n # ns else ns)"
    using w q by (auto simp: async_HandlerWrite_def async_remove_def async_write_failed_def
        async_write_next_def as_upd_def session_view_def Let_def split: if_splits)
  ultimately show "aw_queue w = map snd (vs_queue S) \<and> (\<forall>m. msg_at (aw_nodes w) m = msg_at (vs_nodes S) m) \<and>
      (\<forall>h. at_point (session_view S s) h \<longrightarrow> at_point w h) \<and>
      map async_wire (written_to a (es @ [Writes a n ec]) @ as_sendQueue (aw_session w)) =
        map async_wire (written_to a es @ as_sendQueue s)" using q by simp
qed auto

text \<open>While the acceptor waits, the session it holds ready has not started.\<close>

definition accept_idle :: "async_server \<Rightarrow> bool" where
  "accept_idle S =
     (\<forall>a s. vs_accepting S = Some a \<longrightarrow> vs_sessions S a = Some s \<longrightarrow> as_phase s = Not_started)"

lemma kept_next:
  assumes start: "async_StartAccept S = Inr S'" and inv: "vs_inv S" and typed: "vs_typed S"
    and own: "node_owners ow S" and kept: "\<And>c. kept js es S c"
  shows "node_owners ow S' \<and> kept js (es @ [Acceptor]) S' c \<and>
    accept_idle S'"
proof -
  let ?a = "vs_next_session S"
  obtain ioc p s where s: "async_Session = Inr s"
    and S': "S' = S\<lparr>vs_pool := p, vs_sessions := (vs_sessions S)(?a \<mapsto> s), vs_ioc := (vs_ioc S)(?a := ioc),
           vs_accepting := Some ?a, vs_next_session := ?a + 1\<rparr>"
    using async_StartAccept_Inr [OF start] by blast
  have new: "as_phase s = Not_started" "as_sendQueue s = []" "as_recvMsg s = None"
    using s by (auto simp: async_Session_def async_RecvNode_def async_MsgNode_def ASYNC_HEAD_LEN_def Let_def split: if_splits)
  have none: "vs_sessions S ?a = None" using inv by (cases "vs_sessions S ?a") (auto simp: vs_inv_def)
  then have "filter (\<lambda>(b, m). b = ?a) (vs_queue S) = []"
    using vs_typedD(2) [OF typed] by (fastforce simp: filter_empty_conv)
  then have q: "queued_msgs ?a S' = []" "queued_msgs b S' = queued_msgs b S" for b
    by (simp_all add: queued_msgs_def S')
  have view: "session_view S' t = session_view S t" for t by (simp add: session_view_def S')
  have "kept js (es @ [Acceptor]) S' c"
  proof (cases "c = ?a")
    case True
    have "heard c es = Some (None, [])" "services c es = []" "written_to c es = []"
      using keptD(4) [OF kept [of c]] none True by (simp_all add: heard_def)
    then show ?thesis
      using new q(1) by (simp add: kept_def True S' async_replies_def at_point_def session_view_def)
  next
    case False
    have "vs_sessions S' c = vs_sessions S c" using False by (simp add: S')
    with kept [of c] show ?thesis by (auto simp: kept_def q(2) view split: option.splits)
  qed
  moreover have "node_owners ow S'" using own new(3) by (auto simp: node_owners_def S')
  moreover have "vs_accepting S' = Some ?a" "vs_sessions S' ?a = Some s" by (simp_all add: S')
  ultimately show ?thesis using new(1) by (simp add: accept_idle_def)
qed

definition ordered :: "'j json_ops \<Rightarrow> vs_event list \<Rightarrow> accept_pc \<times> async_server \<Rightarrow> bool" where
  "ordered js es = (\<lambda>(pc, S).
     (\<exists>ow. node_owners ow S) \<and> (\<forall>c. kept js es S c) \<and> (pc = Waiting \<longrightarrow> accept_idle S))"

lemma on_session_owners:
  assumes "on_session a f S = Inr S'" and "\<And>v w. f v = Inr w \<Longrightarrow> grows v w" and "node_owners ow S"
  shows "\<exists>ow. node_owners ow S'"
  using on_session_footprint [OF assms(1,2)] footprint_owners [OF _ assms(3)] by blast

lemma accept_idle_on_session:
  assumes "on_session a f S = Inr S'" and "accept_idle S"
    and "\<And>s w. vs_sessions S a = Some s \<Longrightarrow> vs_accepting S = Some a \<Longrightarrow> f (session_view S s) = Inr w \<Longrightarrow>
      as_phase (aw_session w) = as_phase s"
  shows "accept_idle S'"
proof -
  obtain s w where s: "vs_sessions S a = Some s" "f (session_view S s) = Inr w"
    and S': "vs_sessions S' = (vs_sessions S)(a \<mapsto> aw_session w)" "vs_accepting S' = vs_accepting S"
    using assms(1) by (auto simp: on_session_def put_session_def fault_iffs split: option.splits)
  with assms(2) assms(3) [OF s(1) _ s(2)] show ?thesis by (auto simp: accept_idle_def)
qed

lemma HandlerWrite_phase:
  "async_HandlerWrite ec w = Inr w' \<Longrightarrow> as_phase (aw_session w') = as_phase (aw_session w)"
  by (auto simp: async_HandlerWrite_def async_remove_def async_write_failed_def async_write_next_def
      as_upd_def Let_def split: if_splits)

lemma ordered_step:
  assumes step: "vs_step net js x e y" and ord: "ordered js es x" and typed: "vs_typed (snd x)"
    and inv: "vs_inv (snd x)" and net: "network_order net"
  shows "ordered js (es @ [e]) y"
proof -
  obtain pc S where x: "x = (pc, S)" by (cases x)
  obtain ow where ow: "node_owners ow S" and k: "\<And>c. kept js es S c" and idle: "pc = Waiting \<Longrightarrow> accept_idle S"
    using ord by (auto simp: ordered_def x)
  have ok: "vs_typed S" "vs_inv S" using typed inv by (simp_all add: x)
  from step [unfolded x] show ?thesis
  proof (cases rule: vs_step.cases)
    case (accepted a S')
    obtain s where s: "vs_sessions S a = Some s" using on_session_frame [OF accepted(5)] by blast
    then have "as_phase s = Not_started" using idle accepted(1,4) by (auto simp: accept_idle_def)
    from kept_accepted [OF ow k s this accepted(5)] on_session_owners [OF accepted(5) _ ow] grows_accept(1)
    show ?thesis by (auto simp: ordered_def accepted(2,3))
  next
    case (saved a S')
    obtain s where s: "vs_sessions S a = Some s" using on_session_frame [OF saved(5)] by blast
    from kept_saved [OF ow k s saved(5)] on_session_owners [OF saved(5) _ ow] grows_accept(2)
    show ?thesis by (auto simp: ordered_def saved(2,3))
  next
    case refused
    with ow k show ?thesis by (auto simp: ordered_def)
  next
    case (next_accept S')
    from kept_next [OF next_accept(4) ok(2,1) ow k] show ?thesis
      by (auto simp: ordered_def next_accept(1,2))
  next
    case (received a s r S')
    have "accept_idle S'" if "pc = Waiting"
      using received(3,4) idle [OF that] by (intro accept_idle_on_session [OF received(6) idle [OF that]])
        (auto simp: accept_idle_def)
    with kept_received [OF net ok(1) ow k received(3-6)] on_session_owners [OF received(6) grows_co_step ow]
    show ?thesis by (auto simp: ordered_def received(1,2))
  next
    case (written a s n ec S')
    have "accept_idle S'" if "pc = Waiting"
      using HandlerWrite_phase by (intro accept_idle_on_session [OF written(5) idle [OF that]])
        (fastforce simp: session_view_def)
    with kept_written [OF ow k ok(1) written(3-5)] on_session_owners [OF written(5) grows_HandlerWrite ow]
    show ?thesis by (auto simp: ordered_def written(1,2))
  next
    case (served a m q n s S')
    note k' = kept_served [OF net ow k served(3-6)]
    have "vs_accepting S' = vs_accepting S" using vs_doWork_frame [OF served(6)] by auto
    with k' idle have "pc = Waiting \<Longrightarrow> accept_idle S'" by (fastforce simp: accept_idle_def)
    with k' show ?thesis by (auto simp: ordered_def served(1,2))
  qed
qed

lemma ordered_start:
  assumes "async_Server cores = Inr S"
  shows "ordered js [] (Waiting, S)"
proof -
  let ?E = "\<lparr>vs_sessions = Map.empty, vs_ioc = (\<lambda>_. 0), vs_nodes = Map.empty, vs_next = 0, vs_queue = [],
    vs_accepting = None, vs_next_session = 0, vs_pool = async_IOServicePool cores\<rparr>"
  obtain s where s: "async_Session = Inr s" and S: "vs_sessions S = [0 \<mapsto> s]" "vs_queue S = []"
    using async_StartAccept_Inr [of ?E S] assms by (auto simp: async_Server_def)
  have new: "as_phase s = Not_started" "as_sendQueue s = []" "as_recvMsg s = None"
    using s by (auto simp: async_Session_def async_RecvNode_def async_MsgNode_def ASYNC_HEAD_LEN_def Let_def split: if_splits)
  then show ?thesis
    by (auto simp: ordered_def accept_idle_def kept_def node_owners_def S queued_msgs_def async_replies_def at_point_def session_view_def)
qed

lemma vs_run_ordered:
  assumes "vs_run net js es x" and net: "network_order net" and js: "json_throws js"
  shows "ordered js es x"
  using assms(1)
proof (induction rule: vs_run.induct)
  case (server cores S)
  then show ?case by (rule ordered_start)
next
  case (step es x e y)
  from ordered_step [OF step.hyps(2) step.IH _ vs_run_inv [OF step.hyps(1)] net]
    vs_run_typed [OF step.hyps(1) net js] show ?case by blast
qed

end
