(* ===== verification/Async_Progress.thy ===== *)
theory Async_Progress
  imports Async_Order
begin

text \<open>
  That the message server can always finish what it has accepted: the worker serves every queued
  message whose response can be built, and the writes of a session that have not failed send its
  queue. With the invariant of \<open>Async_Order\<close> this says that a client gets all its answers.
\<close>

subsection \<open>Serving what is queued\<close>






subsection \<open>Writing what is queued\<close>













subsection \<open>Property\<close>






end
