(* ===== verification/Ws_Connection.thy ===== *)
theory Ws_Connection
  imports Registries
begin

text \<open>
  The websocket echo server of \<open>src/src/04_beast-websocket\<close>: \<open>Connection.cpp\<close> with its send queue,
  and the accept loop of \<open>WebSocketServer.h\<close>. \<open>main\<close> runs one thread, so handlers do not overlap.
  \<open>boost::beast\<close> is used as documented: one read and one write at a time; a write sends under the
  message type the stream has when it is started; the memory of its buffer must stay valid until it
  completes. The model therefore records whose string the outstanding write reads: the caller's
  (alive until the handler that called \<open>AsyncSend\<close> returns), the front of the queue, or nobody's any
  more; \<open>ws_transmit\<close> is the moment the stream has read it. \<open>ws_wire\<close> is what the peer gets.
\<close>

subsection \<open>A connection\<close>

datatype buffer_owner = Caller | Front | Dead | Taken

record ws_conn =
  ws_uid :: string
  ws_recvBuf :: string
  ws_sendQueue :: "string list"
  ws_text :: bool                                       \<comment> \<open>\<open>stream::text\<close>\<close>
  ws_write :: "(buffer_owner \<times> bool \<times> string) option"  \<comment> \<open>the outstanding \<open>async_write\<close>\<close>
  ws_reading :: bool                                    \<comment> \<open>an \<open>async_read\<close> is outstanding\<close>
  ws_wire :: "(bool \<times> string) list"

definition new_Connection :: "string \<Rightarrow> ws_conn" where
  "new_Connection uid = \<lparr>ws_uid = uid, ws_recvBuf = '''', ws_sendQueue = [], ws_text = True,
     ws_write = None, ws_reading = False, ws_wire = []\<rparr>"

text \<open>\<open>SendCallback\<close>: starts the write of a string that belongs to \<open>owner\<close>.\<close>

definition ws_SendCallback :: "buffer_owner \<Rightarrow> string \<Rightarrow> ws_conn \<Rightarrow> ws_conn" where
  "ws_SendCallback owner message c = c\<lparr>ws_write := Some (owner, ws_text c, message)\<rparr>"

definition ws_AsyncSend :: "string \<Rightarrow> ws_conn \<Rightarrow> ws_conn" where
  "ws_AsyncSend sendMsg c =
     (let c = c\<lparr>ws_sendQueue := ws_sendQueue c @ [sendMsg]\<rparr>
      in if 1 < length (ws_sendQueue c) then c else ws_SendCallback Caller sendMsg c)"

text \<open>The stream reads the buffer of the outstanding write.\<close>

definition ws_transmit :: "ws_conn \<Rightarrow> fault + ws_conn" where
  "ws_transmit c =
     (case ws_write c of
        None \<Rightarrow> Inr c
      | Some (owner, is_text, message) \<Rightarrow>
          (case owner of
             Taken \<Rightarrow> Inr c
           | Dead \<Rightarrow> Inl Use_after_free
           | _ \<Rightarrow> Inr (c\<lparr>ws_wire := ws_wire c @ [(is_text, message)],
                       ws_write := Some (Taken, is_text, message)\<rparr>)))"

text \<open>The handler of the write: without an error, and with one.\<close>

definition ws_write_next :: "ws_conn \<Rightarrow> ws_conn" where
  "ws_write_next c =
     (let c = c\<lparr>ws_write := None, ws_sendQueue := tl (ws_sendQueue c)\<rparr>
      in if ws_sendQueue c \<noteq> [] then ws_SendCallback Front (hd (ws_sendQueue c)) c else c)"

definition ws_write_failed :: "ws_conn \<Rightarrow> ws_conn" where
  "ws_write_failed c = c\<lparr>ws_write := None\<rparr>"

definition ws_written :: "bool \<Rightarrow> ws_conn \<times> connection_table \<Rightarrow> fault + ws_conn \<times> connection_table" where
  "ws_written ec = (\<lambda>(c, tab).
     if ec then Inr (ws_write_failed c, RemoveConnection (ws_uid c) tab)
     else if ws_sendQueue c = [] then Inl Empty_pop
     else Inr (ws_write_next c, tab))"

definition ws_Start :: "ws_conn \<Rightarrow> ws_conn" where
  "ws_Start c = c\<lparr>ws_reading := True\<rparr>"

text \<open>A handler returns: its locals are destroyed.\<close>

definition ws_return :: "ws_conn \<Rightarrow> ws_conn" where
  "ws_return c =
     (case ws_write c of
        Some (Caller, is_text, message) \<Rightarrow> c\<lparr>ws_write := Some (Dead, is_text, message)\<rparr>
      | _ \<Rightarrow> c)"

definition ws_reads_caller :: "ws_conn \<Rightarrow> bool" where
  "ws_reads_caller c = (case ws_write c of Some (Caller, _, _) \<Rightarrow> True | _ \<Rightarrow> False)"

text \<open>The handler of the read. \<open>peer_known\<close>: \<open>remote_endpoint\<close> does not throw; \<open>eager\<close>: the call
  that starts a write already reads its buffer.\<close>

datatype ws_read = Ws_message bool string | Ws_failed

fun ws_received :: "bool \<Rightarrow> bool \<Rightarrow> ws_read \<Rightarrow> ws_conn \<times> connection_table \<Rightarrow> fault + ws_conn \<times> connection_table" where
  "ws_received eager peer_known Ws_failed (c, tab) =
     Inr (c\<lparr>ws_reading := False\<rparr>, RemoveConnection (ws_uid c) tab)"
| "ws_received eager peer_known (Ws_message got_text payload) (c, tab) =
     (let c = c\<lparr>ws_reading := False, ws_recvBuf := ws_recvBuf c @ payload\<rparr> in
      if \<not> peer_known then Inr (c, RemoveConnection (ws_uid c) tab)
      else
        let c = c\<lparr>ws_text := got_text\<rparr>;
            recvData = ws_recvBuf c;
            c = c\<lparr>ws_recvBuf := ''''\<rparr>;
            c = ws_AsyncSend recvData c
        in and_then (if eager \<and> ws_reads_caller c then ws_transmit c else Inr c) (\<lambda>c.
           Inr (ws_return (ws_Start c), tab)))"

subsection \<open>The server\<close>

record ws_server =
  ws_conns :: "addr \<rightharpoonup> ws_conn"
  ws_fresh :: addr
  ws_accepting :: "addr option"
  ws_table :: connection_table

definition WebSocketServer :: ws_server where
  "WebSocketServer = \<lparr>ws_conns = Map.empty, ws_fresh = 0, ws_accepting = None, ws_table = []\<rparr>"

definition ws_StartAccept :: "string \<Rightarrow> ws_server \<Rightarrow> ws_server" where
  "ws_StartAccept uid w =
     w\<lparr>ws_conns := (ws_conns w)(ws_fresh w \<mapsto> new_Connection uid), ws_accepting := Some (ws_fresh w),
       ws_fresh := ws_fresh w + 1\<rparr>"

text \<open>The handler of the TCP accept (\<open>ec\<close> false: the websocket accept is started), and that of the
  websocket accept.\<close>

definition ws_tcp_accepted :: "bool \<Rightarrow> string \<Rightarrow> ws_server \<Rightarrow> ws_server \<times> addr option" where
  "ws_tcp_accepted ec uid w = (ws_StartAccept uid w, if ec then None else ws_accepting w)"

definition ws_accepted :: "addr \<Rightarrow> bool \<Rightarrow> bool \<Rightarrow> ws_server \<Rightarrow> ws_server" where
  "ws_accepted a ec peer_known w =
     (case ws_conns w a of None \<Rightarrow> w
      | Some c \<Rightarrow>
          if ec \<or> \<not> peer_known then w
          else w\<lparr>ws_table := AddConnection (ws_uid c) a (ws_table w),
                 ws_conns := (ws_conns w)(a \<mapsto> ws_Start c)\<rparr>)"

subsection \<open>The send queue is a write pump\<close>

definition ws_busy :: "ws_conn \<Rightarrow> string option" where
  "ws_busy c = map_option (snd \<circ> snd) (ws_write c)"

interpretation ws_pump: write_pump ws_sendQueue "\<lambda>_. True" ws_AsyncSend ws_write_next ws_busy
  ws_write_failed
  by unfold_locales
     (auto simp: ws_AsyncSend_def ws_write_next_def ws_write_failed_def ws_SendCallback_def ws_busy_def
       Let_def split: list.splits)

text \<open>Events of an accepted connection without errors; a write completes after it was transmitted.\<close>

datatype ws_event = Received bool bool string | Transmitted | Completed

fun ws_step :: "ws_event \<Rightarrow> ws_conn \<times> connection_table \<Rightarrow> fault + ws_conn \<times> connection_table" where
  "ws_step (Received eager got_text payload) s = ws_received eager True (Ws_message got_text payload) s"
| "ws_step Transmitted (c, tab) = and_then (ws_transmit c) (\<lambda>c. Inr (c, tab))"
| "ws_step Completed (c, tab) =
     (case ws_write c of Some (Taken, _, _) \<Rightarrow> ws_written False (c, tab) | _ \<Rightarrow> Inr (c, tab))"

fun ws_payloads :: "ws_event list \<Rightarrow> string list" where
  "ws_payloads [] = []"
| "ws_payloads (Received _ _ payload # es) = payload # ws_payloads es"
| "ws_payloads (_ # es) = ws_payloads es"

text \<open>What is still to be sent.\<close>

definition ws_unsent :: "ws_conn \<Rightarrow> string list" where
  "ws_unsent c = (case ws_write c of Some (Taken, _, _) \<Rightarrow> tl (ws_sendQueue c) | _ \<Rightarrow> ws_sendQueue c)"

definition ws_echoed :: "ws_conn \<Rightarrow> string list" where
  "ws_echoed c = map snd (ws_wire c)"

definition ws_ok :: "ws_conn \<Rightarrow> bool" where
  "ws_ok c = (pump_ok ws_sendQueue ws_busy c \<and> ws_recvBuf c = '''' \<and>
     (case ws_write c of Some (owner, _, _) \<Rightarrow> owner \<noteq> Caller | None \<Rightarrow> True))"

lemma ws_busy_cong: "ws_write c = ws_write d \<Longrightarrow> ws_busy c = ws_busy d"
  by (simp add: ws_busy_def)

subsection \<open>Lemmas\<close>

lemma ws_ok_new: "ws_ok (ws_Start (new_Connection uid))"
  by (simp add: ws_ok_def ws_Start_def new_Connection_def pump_ok_def ws_busy_def)

lemma ws_ok_write:
  assumes "ws_ok c"
  shows "ws_write c = None \<longleftrightarrow> ws_sendQueue c = []"
    and "ws_write c = Some (owner, t, m) \<Longrightarrow> owner \<noteq> Caller \<and> (\<exists>q. ws_sendQueue c = m # q)"
  using assms by (auto simp: ws_ok_def pump_ok_def ws_busy_def split: list.splits option.splits)

lemma ws_received_ok:
  assumes "ws_ok c"
  shows "\<exists>c'. ws_step (Received eager t m) (c, tab) = Inr (c', tab) \<and> ws_ok c' \<and>
    ws_echoed c' @ ws_unsent c' = ws_echoed c @ ws_unsent c @ [m] \<and>
    ((\<exists>u k. ws_write c' = Some (Dead, u, k)) \<longrightarrow> \<not> eager \<or> (\<exists>u k. ws_write c = Some (Dead, u, k)))"
proof (cases "ws_write c")
  case None
  then have "ws_sendQueue c = []" using ws_ok_write(1) [OF assms] by simp
  with None assms show ?thesis
    by (auto simp: ws_ok_def ws_AsyncSend_def ws_SendCallback_def ws_transmit_def ws_Start_def
        ws_return_def ws_reads_caller_def ws_echoed_def ws_unsent_def pump_ok_def ws_busy_def Let_def)
next
  case (Some w)
  obtain owner u k where w: "w = (owner, u, k)" by (cases w) auto
  obtain q where q: "owner \<noteq> Caller" "ws_sendQueue c = k # q" using ws_ok_write(2) [OF assms] Some w by blast
  have "ws_recvBuf c = ''''" using assms by (simp add: ws_ok_def)
  with q Some w show ?thesis
    by (cases owner; cases eager)
       (auto simp: ws_ok_def ws_AsyncSend_def ws_SendCallback_def ws_transmit_def ws_Start_def
        ws_return_def ws_reads_caller_def ws_echoed_def ws_unsent_def pump_ok_def ws_busy_def Let_def)
qed

lemma ws_step_ok:
  assumes ok: "ws_ok c"
  shows "case ws_step e (c, tab) of
      Inr (c', tab') \<Rightarrow> tab' = tab \<and> ws_ok c' \<and>
        ws_echoed c' @ ws_unsent c' = ws_echoed c @ ws_unsent c @ ws_payloads [e] \<and>
        ((\<exists>u k. ws_write c' = Some (Dead, u, k)) \<longrightarrow>
           (\<exists>t m. e = Received False t m) \<or> (\<exists>u k. ws_write c = Some (Dead, u, k)))
    | Inl f \<Rightarrow> f = Use_after_free \<and> (\<exists>u k. ws_write c = Some (Dead, u, k))"
proof (cases e)
  case (Received eager t m)
  with ws_received_ok [OF ok, of eager t m tab] show ?thesis by fastforce
next
  case Transmitted
  with ok ws_ok_write(2) [OF ok] show ?thesis
    by (auto simp: ws_ok_def ws_transmit_def ws_echoed_def ws_unsent_def pump_ok_def ws_busy_def
        split: option.splits buffer_owner.splits list.splits)
next
  case Completed
  show ?thesis
  proof (cases "\<exists>u k. ws_write c = Some (Taken, u, k)")
    case True
    then obtain u k where w: "ws_write c = Some (Taken, u, k)" by blast
    then obtain q where q: "ws_sendQueue c = k # q" using ws_ok_write(2) [OF ok] by blast
    have "pump_ok ws_sendQueue ws_busy (ws_write_next c)"
      by (rule ws_pump.pump_ok_serve) (simp add: q)
    with ok w q Completed show ?thesis
      by (auto simp: ws_ok_def ws_written_def ws_write_next_def ws_SendCallback_def ws_echoed_def
          ws_unsent_def Let_def)
  next
    case False
    then have "ws_step e (c, tab) = Inr (c, tab)"
      by (auto simp: Completed split: option.splits buffer_owner.splits)
    with ok Completed show ?thesis by simp
  qed
qed

subsection \<open>Properties\<close>

text \<open>
  C34: on a connection with nothing to send, a message whose echo the stream does not read within
  the receiving handler is read after it was destroyed. And the message type is that of the last
  message received, not of the message echoed: of three messages received before the first echo
  completes, the second goes out under the type of the third.
\<close>
theorem ws_echo_hazards:
  assumes "ws_ok c" and "ws_sendQueue c = []"
  shows "fold_steps ws_step [Received False t a, Transmitted] (c, tab) = Inl Use_after_free \<and>
    (\<exists>c'. fold_steps ws_step [Received True t a, Received True u b, Received True v d, Completed, Transmitted,
        Completed, Transmitted] (c, tab) = Inr (c', tab) \<and>
      ws_wire c' = ws_wire c @ [(t, a), (v, b), (v, d)])"
  using assms ws_ok_write(1) [OF assms(1)]
  by (simp add: ws_ok_def ws_AsyncSend_def ws_SendCallback_def ws_transmit_def ws_Start_def ws_return_def ws_reads_caller_def
      ws_written_def ws_write_next_def Let_def)

theorem ws_echo_hazards_witness:
  "\<exists>c'. fold_steps ws_step [Received True True ''a'', Received True False ''b'', Received True True ''c'', Completed,
        Transmitted, Completed, Transmitted] (ws_Start (new_Connection ''id''), []) = Inr (c', []) \<and>
      ws_wire c' = [(True, ''a''), (True, ''b''), (True, ''c'')]"
  using ws_echo_hazards [OF ws_ok_new, of "''id''" True "''a''" "[]" False "''b''" True "''c''"]
  by (simp add: ws_Start_def new_Connection_def)

end
