(* ===== verification/Ws_Server.thy ===== *)
theory Ws_Server
  imports Ws_Connection
begin

text \<open>
  The websocket server with all its clients: \<open>src/src/04_beast-websocket/WebSocketServer.h\<close>,
  \<open>RunServer.cpp\<close> and \<open>ConnectionManager.h\<close> on top of the connections of \<open>Ws_Connection\<close>. A trace is a
  run of the handlers in any order, each enabled only while its operation is outstanding; its state
  is the server and the connections whose websocket handshake is under way. A UUID that was drawn
  before is not drawn again.
\<close>

subsection \<open>Traces\<close>

datatype ws_srv_event =
    Tcp_accept bool string
  | Handshake addr bool bool
  | Client addr ws_event
  | Read_fails addr
  | Write_fails addr

fun ws_enabled :: "ws_event \<Rightarrow> ws_conn \<Rightarrow> bool" where
  "ws_enabled (Received _ _ _) c = ws_reading c"
| "ws_enabled Transmitted c = (case ws_write c of None \<Rightarrow> False | Some (owner, _) \<Rightarrow> owner \<noteq> Taken)"
| "ws_enabled Completed c = (case ws_write c of None \<Rightarrow> False | Some (owner, _) \<Rightarrow> owner = Taken)"

definition put_conn :: "addr \<Rightarrow> ws_conn \<times> connection_table \<Rightarrow> ws_server \<Rightarrow> ws_server" where
  "put_conn a = (\<lambda>(c, tab) w. w\<lparr>ws_conns := (ws_conns w)(a \<mapsto> c), ws_table := tab\<rparr>)"

text \<open>\<open>main\<close> starts the server and its first accept.\<close>

definition ws_main :: "string \<Rightarrow> ws_server" where
  "ws_main uid = ws_StartAccept uid WebSocketServer"

inductive ws_trace :: "ws_srv_event list \<Rightarrow> ws_server \<Rightarrow> addr list \<Rightarrow> bool" where
  start: "ws_trace [] (ws_main uid) []"
| tcp: "ws_trace es w p \<Longrightarrow> \<forall>a c. ws_conns w a = Some c \<longrightarrow> ws_uid c \<noteq> uid \<Longrightarrow>
    ws_tcp_accepted ec uid w = (w', started) \<Longrightarrow>
    ws_trace (es @ [Tcp_accept ec uid]) w' (p @ (case started of None \<Rightarrow> [] | Some a \<Rightarrow> [a]))"
| handshake: "ws_trace es w p \<Longrightarrow> a \<in> set p \<Longrightarrow>
    ws_trace (es @ [Handshake a ec peer_known]) (ws_accepted a ec peer_known w) (remove1 a p)"
| client: "ws_trace es w p \<Longrightarrow> ws_conns w a = Some c \<Longrightarrow> ws_enabled e c \<Longrightarrow>
    ws_step e (c, ws_table w) = Inr s \<Longrightarrow> ws_trace (es @ [Client a e]) (put_conn a s w) p"
| read_fails: "ws_trace es w p \<Longrightarrow> ws_conns w a = Some c \<Longrightarrow> ws_reading c \<Longrightarrow>
    r = Ws_failed \<or> \<not> peer_known \<Longrightarrow> ws_received eager peer_known r (c, ws_table w) = Inr s \<Longrightarrow>
    ws_trace (es @ [Read_fails a]) (put_conn a s w) p"
| write_fails: "ws_trace es w p \<Longrightarrow> ws_conns w a = Some c \<Longrightarrow> ws_write c \<noteq> None \<Longrightarrow>
    ws_written True (c, ws_table w) = Inr s \<Longrightarrow> ws_trace (es @ [Write_fails a]) (put_conn a s w) p"

text \<open>What a client did, and whether one of its operations failed.\<close>

definition own :: "addr \<Rightarrow> ws_srv_event list \<Rightarrow> ws_event list" where
  "own a es = concat (map (\<lambda>e. case e of Client b x \<Rightarrow> if b = a then [x] else [] | _ \<Rightarrow> []) es)"

definition failed :: "addr \<Rightarrow> ws_srv_event list \<Rightarrow> bool" where
  "failed a es = (Read_fails a \<in> set es \<or> Write_fails a \<in> set es)"

lemma own_snoc [simp]:
  "own a (es @ [e]) = own a es @ (case e of Client b x \<Rightarrow> if b = a then [x] else [] | _ \<Rightarrow> [])"
  by (simp add: own_def)

lemma failed_snoc [simp]: "failed a (es @ [e]) \<longleftrightarrow> failed a es \<or> e = Read_fails a \<or> e = Write_fails a"
  by (auto simp: failed_def)

lemma ws_payloads_append: "ws_payloads (es @ fs) = ws_payloads es @ ws_payloads fs"
  by (induction es rule: ws_payloads.induct) simp_all

subsection \<open>Connections do not interfere\<close>

text \<open>A connection before its handshake, and one after it.\<close>

definition untouched :: "ws_conn \<Rightarrow> bool" where
  "untouched c = (\<exists>uid. c = new_Connection uid)"

definition echoing :: "addr \<Rightarrow> ws_srv_event list \<Rightarrow> connection_table \<Rightarrow> ws_conn \<Rightarrow> bool" where
  "echoing a es tab c =
     (ws_ok c \<and> ws_reading c \<and> ws_echoed c @ ws_unsent c = ws_payloads (own a es) \<and>
      find_connection tab (ws_uid c) = Some a)"

text \<open>A connection that waits for its handshake, and one that has not failed.\<close>

definition pending :: "ws_srv_event list \<Rightarrow> ws_server \<Rightarrow> addr \<Rightarrow> bool" where
  "pending es w a = (\<exists>c. ws_conns w a = Some c \<and> untouched c \<and> \<not> failed a es \<and> own a es = [])"

definition conn_inv :: "ws_srv_event list \<Rightarrow> connection_table \<Rightarrow> addr \<Rightarrow> ws_conn \<Rightarrow> bool" where
  "conn_inv es tab a c = (failed a es \<or> untouched c \<and> own a es = [] \<or> echoing a es tab c)"

definition ws_inv :: "ws_srv_event list \<Rightarrow> ws_server \<Rightarrow> addr list \<Rightarrow> bool" where
  "ws_inv es w p =
     ((\<forall>a c. ws_conns w a = Some c \<longrightarrow> a < ws_fresh w \<and> conn_inv es (ws_table w) a c) \<and>
      (\<forall>a b c d. ws_conns w a = Some c \<longrightarrow> ws_conns w b = Some d \<longrightarrow> ws_uid c = ws_uid d \<longrightarrow> a = b) \<and>
      (\<exists>x. ws_accepting w = Some x \<and> distinct (x # p) \<and> (\<forall>a\<in>set (x # p). pending es w a)) \<and>
      (\<forall>a. ws_fresh w \<le> a \<longrightarrow> \<not> failed a es \<and> own a es = []))"

lemma untouched_simps:
  "untouched c \<Longrightarrow> \<not> ws_reading c" "untouched c \<Longrightarrow> ws_write c = None" "untouched c \<Longrightarrow> \<not> ws_enabled e c"
  by (cases e; auto simp: untouched_def new_Connection_def)+

lemma ws_invD:
  assumes "ws_inv es w p"
  shows "ws_conns w a = Some c \<Longrightarrow> a < ws_fresh w" "ws_conns w a = Some c \<Longrightarrow> conn_inv es (ws_table w) a c"
    and "ws_conns w a = Some c \<Longrightarrow> ws_conns w b = Some d \<Longrightarrow> ws_uid c = ws_uid d \<Longrightarrow> a = b"
    and "\<exists>x. ws_accepting w = Some x \<and> distinct (x # p) \<and> (\<forall>a\<in>set (x # p). pending es w a)"
    and "ws_fresh w \<le> a \<Longrightarrow> \<not> failed a es \<and> own a es = []"
  using assms unfolding ws_inv_def by blast+

lemma ws_invI:
  assumes "\<And>a c. ws_conns w a = Some c \<Longrightarrow> a < ws_fresh w" "\<And>a c. ws_conns w a = Some c \<Longrightarrow> conn_inv es (ws_table w) a c"
    and "\<And>a b c d. ws_conns w a = Some c \<Longrightarrow> ws_conns w b = Some d \<Longrightarrow> ws_uid c = ws_uid d \<Longrightarrow> a = b"
    and "ws_accepting w = Some x" "distinct (x # p)" "\<And>a. a \<in> set (x # p) \<Longrightarrow> pending es w a"
    and "\<And>a. ws_fresh w \<le> a \<Longrightarrow> \<not> failed a es \<and> own a es = []"
  shows "ws_inv es w p"
  using assms unfolding ws_inv_def by blast

text \<open>An event that is not a client's changes nothing for it.\<close>

definition neutral :: "addr \<Rightarrow> ws_srv_event \<Rightarrow> bool" where
  "neutral a e = (e \<noteq> Read_fails a \<and> e \<noteq> Write_fails a \<and> (\<forall>x. e \<noteq> Client a x))"

lemma neutral_history: "neutral a e \<Longrightarrow> failed a (es @ [e]) = failed a es \<and> own a (es @ [e]) = own a es"
  by (cases e) (auto simp: neutral_def)

lemma pending_neutral:
  "pending es w a \<Longrightarrow> neutral a e \<Longrightarrow> ws_conns w' a = ws_conns w a \<Longrightarrow> pending (es @ [e]) w' a"
  using neutral_history [of a e es] by (simp add: pending_def)

lemma conn_inv_neutral:
  "conn_inv es tab a c \<Longrightarrow> neutral a e \<Longrightarrow> find_connection tab' (ws_uid c) = find_connection tab (ws_uid c) \<Longrightarrow>
     conn_inv (es @ [e]) tab' a c"
  using neutral_history [of a e es] by (auto simp: conn_inv_def echoing_def)

lemma pending_conn: "pending es w a \<Longrightarrow> ws_conns w a = Some c \<Longrightarrow> untouched c"
  by (simp add: pending_def)

lemma put_conn_frame:
  "ws_fresh (put_conn b (c, tab) w) = ws_fresh w" "ws_accepting (put_conn b (c, tab) w) = ws_accepting w"
  "ws_table (put_conn b (c, tab) w) = tab" "ws_conns (put_conn b (c, tab) w) = (ws_conns w)(b \<mapsto> c)"
  by (simp_all add: put_conn_def)

text \<open>A step of one connection that has had its handshake.\<close>

lemma ws_inv_put:
  assumes inv: "ws_inv es w p" and b: "ws_conns w b = Some c" "\<not> untouched c"
    and c': "ws_uid c' = ws_uid c" "\<And>u. u \<noteq> ws_uid c \<Longrightarrow> find_connection tab u = find_connection (ws_table w) u"
    and e: "\<And>a. a \<noteq> b \<Longrightarrow> neutral a e"
    and J: "\<not> failed b (es @ [e]) \<Longrightarrow> echoing b (es @ [e]) tab c'"
  shows "ws_inv (es @ [e]) (put_conn b (c', tab) w) p"
proof -
  note D = ws_invD [OF inv]
  obtain x where x: "ws_accepting w = Some x" "distinct (x # p)" "\<And>a. a \<in> set (x # p) \<Longrightarrow> pending es w a"
    using D(4) by blast
  let ?w = "put_conn b (c', tab) w"
  have other: "conn_inv (es @ [e]) tab a d" if "ws_conns w a = Some d" "a \<noteq> b" for a d
  proof -
    have "ws_uid d \<noteq> ws_uid c" using D(3) [OF that(1) b(1)] that(2) by auto
    with conn_inv_neutral [OF D(2) [OF that(1)] e [OF that(2)]] c'(2) show ?thesis by simp
  qed
  have pend: "pending (es @ [e]) ?w a" if "a \<in> set (x # p)" for a
  proof -
    have "a \<noteq> b" using pending_conn [OF x(3) [OF that]] b by auto
    with pending_neutral [OF x(3) [OF that] e] show ?thesis by (simp add: put_conn_frame)
  qed
  show ?thesis
  proof (rule ws_invI [OF _ _ _ _ x(2) pend])
    show "ws_accepting ?w = Some x" using x(1) by (simp add: put_conn_frame)
    show "\<not> failed a (es @ [e]) \<and> own a (es @ [e]) = []" if "ws_fresh ?w \<le> a" for a
      using that D(1) [OF b(1)] D(5) [of a] neutral_history [OF e [of a]] by (auto simp: put_conn_frame)
  qed (use D(1,3) b(1) c'(1) J other in \<open>auto simp: put_conn_frame conn_inv_def split: if_splits\<close>)
qed

lemma find_RemoveConnection: "u \<noteq> uid \<Longrightarrow> find_connection (RemoveConnection uid tab) u = find_connection tab u"
  by (simp add: connections.lookup_del)

lemma ws_AsyncSend_frame [simp]:
  "ws_uid (ws_AsyncSend m c) = ws_uid c" "ws_reading (ws_AsyncSend m c) = ws_reading c"
  by (simp_all add: ws_AsyncSend_def ws_SendCallback_def Let_def)

lemma ws_return_frame [simp]: "ws_uid (ws_return c) = ws_uid c" "ws_reading (ws_return c) = ws_reading c"
  by (simp_all add: ws_return_def split: option.splits prod.splits buffer_owner.splits)

lemma ws_Start_frame [simp]: "ws_uid (ws_Start c) = ws_uid c" "ws_reading (ws_Start c)"
  by (simp_all add: ws_Start_def)

lemma ws_transmit_frame: "ws_transmit c = Inr c' \<Longrightarrow> ws_uid c' = ws_uid c \<and> ws_reading c' = ws_reading c"
  by (auto simp: ws_transmit_def split: option.splits prod.splits buffer_owner.splits)

lemma ws_received_frame:
  assumes "ws_received eager peer_known r (c, tab) = Inr (c', tab')"
  shows "ws_uid c' = ws_uid c \<and> (tab' = tab \<or> tab' = RemoveConnection (ws_uid c) tab) \<and>
    (r \<noteq> Ws_failed \<and> peer_known \<longrightarrow> ws_reading c' \<and> tab' = tab)"
proof (cases r)
  case (Ws_message t m)
  show ?thesis
  proof (cases peer_known)
    case True
    define x where "x = ws_AsyncSend (ws_recvBuf c @ m)
      (c\<lparr>ws_reading := False, ws_recvBuf := ws_recvBuf c @ m, ws_text := t, ws_recvBuf := []\<rparr>)"
    have "ws_received eager peer_known r (c, tab) = and_then (if eager \<and> ws_reads_caller x then ws_transmit x else Inr x)
        (\<lambda>c. Inr (ws_return (ws_Start c), tab))"
      unfolding x_def Ws_message using True by (simp add: Let_def)
    from trans [OF sym [OF this] assms]
    obtain d where "(if eager \<and> ws_reads_caller x then ws_transmit x else Inr x) = Inr d"
      "c' = ws_return (ws_Start d)" "tab' = tab" by (auto simp only: and_then_Inr_iff sum.inject prod.inject)
    moreover have "ws_uid x = ws_uid c" by (simp add: x_def)
    ultimately show ?thesis using ws_transmit_frame [of x d] by (auto split: if_splits)
  qed (use assms Ws_message in \<open>auto simp: Let_def\<close>)
qed (use assms in auto)

lemma ws_step_frame:
  assumes "ws_step e (c, tab) = Inr (c', tab')"
  shows "ws_uid c' = ws_uid c \<and> (ws_reading c \<longrightarrow> ws_reading c') \<and> tab' = tab"
proof (cases e)
  case (Received eager t m)
  with assms ws_received_frame [of eager True "Ws_message t m" c tab c' tab'] show ?thesis by simp
next
  case Transmitted
  with assms show ?thesis by (auto simp: fault_iffs dest: ws_transmit_frame)
next
  case Completed
  with assms show ?thesis
    by (auto simp: ws_written_def ws_write_next_def ws_SendCallback_def Let_def split: option.splits buffer_owner.splits if_splits)
qed

lemma ws_inv_start: "ws_inv [] (ws_main uid) []"
  by (auto simp: ws_inv_def ws_main_def ws_StartAccept_def WebSocketServer_def untouched_def own_def failed_def
      pending_def conn_inv_def)

lemma ws_inv_tcp:
  assumes inv: "ws_inv es w p" and fresh: "\<forall>a c. ws_conns w a = Some c \<longrightarrow> ws_uid c \<noteq> uid"
    and step: "ws_tcp_accepted ec uid w = (w', started)"
  shows "ws_inv (es @ [Tcp_accept ec uid]) w' (p @ (case started of None \<Rightarrow> [] | Some a \<Rightarrow> [a]))"
proof -
  note D = ws_invD [OF inv]
  obtain x where x: "ws_accepting w = Some x" "distinct (x # p)" "\<And>a. a \<in> set (x # p) \<Longrightarrow> pending es w a"
    using D(4) by blast
  let ?n = "ws_fresh w" and ?p = "p @ (case started of None \<Rightarrow> [] | Some a \<Rightarrow> [a])" and ?e = "Tcp_accept ec uid"
  have w': "ws_conns w' = (ws_conns w)(?n \<mapsto> new_Connection uid)" "ws_accepting w' = Some ?n"
    "ws_fresh w' = Suc ?n" "ws_table w' = ws_table w" "started = (if ec then None else Some x)"
    using step x(1) by (auto simp: ws_tcp_accepted_def ws_StartAccept_def)
  have neutral: "neutral a ?e" for a by (simp add: neutral_def)
  have ps: "set ?p \<subseteq> set (x # p)" "distinct ?p" using x(2) by (auto simp: w'(5))
  have new: "a \<noteq> ?n" if "a \<in> set (x # p)" for a
    using x(3) [OF that] D(1) [of a] by (auto simp: pending_def)
  have pend_n: "pending (es @ [?e]) w' ?n" using D(5) [of ?n] by (simp add: pending_def w'(1) untouched_def) blast
  have pend: "pending (es @ [?e]) w' a" if "a \<in> set (?n # ?p)" for a
  proof (cases "a = ?n")
    case False
    then have "a \<in> set (x # p)" using that ps(1) by auto
    from pending_neutral [OF x(3) [OF this] neutral] False show ?thesis by (simp add: w'(1))
  qed (simp add: pend_n)
  have uid: "ws_uid (new_Connection uid) = uid" by (simp add: new_Connection_def)
  show ?thesis
  proof (rule ws_invI [OF _ _ _ w'(2) _ pend])
    show "conn_inv (es @ [?e]) (ws_table w') a c" if "ws_conns w' a = Some c" for a c
      using that pend_n conn_inv_neutral [OF D(2) neutral, of a c] w'(1,4)
      by (auto simp: conn_inv_def pending_def split: if_splits)
    show "distinct (?n # ?p)" using ps new by auto
    show "\<not> failed a (es @ [?e]) \<and> own a (es @ [?e]) = []" if "ws_fresh w' \<le> a" for a
      using that D(5) [of a] by (simp add: w'(3))
  qed (use D(1,3) fresh uid w'(1,3) in \<open>auto split: if_splits intro: less_SucI\<close>)
qed

lemma ws_inv_handshake:
  assumes inv: "ws_inv es w p" and a: "a \<in> set p"
  shows "ws_inv (es @ [Handshake a ec known]) (ws_accepted a ec known w) (remove1 a p)"
proof -
  note D = ws_invD [OF inv]
  obtain x where x: "ws_accepting w = Some x" "distinct (x # p)" "\<And>a. a \<in> set (x # p) \<Longrightarrow> pending es w a"
    using D(4) by blast
  obtain c where c: "ws_conns w a = Some c" "untouched c" "\<not> failed a es" "own a es = []"
    using x(3) [of a] a by (auto simp: pending_def)
  let ?e = "Handshake a ec known" and ?w = "ws_accepted a ec known w" and ?ok = "\<not> ec \<and> known"
  have same: "ws_fresh ?w = ws_fresh w" "ws_accepting ?w = ws_accepting w"
    by (simp_all add: ws_accepted_def c(1))
  have conn: "ws_conns ?w b = (if b = a \<and> ?ok then Some (ws_Start c) else ws_conns w b)" for b
    using c(1) by (auto simp: ws_accepted_def)
  have old: "\<exists>d'. ws_conns w b = Some d' \<and> ws_uid d' = ws_uid d" if "ws_conns ?w b = Some d" for b d
    using that c(1) by (auto simp: conn split: if_splits)
  have tab: "find_connection (ws_table ?w) u =
      (if u = ws_uid c \<and> ?ok then Some a else find_connection (ws_table w) u)" for u
    by (simp add: ws_accepted_def c(1) connections.lookup_put)
  have neutral: "neutral b ?e" for b by (simp add: neutral_def)
  have started: "echoing a (es @ [?e]) (ws_table ?w) (ws_Start c)" if ?ok
  proof -
    obtain uid where "c = new_Connection uid" using c(2) by (auto simp: untouched_def)
    moreover have "find_connection (ws_table ?w) (ws_uid c) = Some a" using that tab by simp
    ultimately show ?thesis
      using c(4) ws_ok_new [of uid] by (simp add: echoing_def ws_echoed_def ws_unsent_def)
        (simp add: ws_Start_def new_Connection_def)
  qed
  have others: "conn_inv (es @ [?e]) (ws_table ?w) b d" if "ws_conns w b = Some d" "b \<noteq> a \<or> \<not> ?ok" for b d
  proof (rule conn_inv_neutral [OF D(2) [OF that(1)] neutral])
    have "ws_uid d = ws_uid c \<Longrightarrow> b = a" by (rule D(3) [OF that(1) c(1)])
    with that(2) show "find_connection (ws_table ?w) (ws_uid d) = find_connection (ws_table w) (ws_uid d)"
      by (auto simp: tab)
  qed
  show ?thesis
  proof (rule ws_invI [of ?w])
    show "conn_inv (es @ [?e]) (ws_table ?w) b d" if "ws_conns ?w b = Some d" for b d
      using that started others by (auto simp: conn conn_inv_def split: if_splits)
    show "b < ws_fresh ?w" if "ws_conns ?w b = Some d" for b d
      using old [OF that] D(1) same(1) by auto
    show "b = b'" if "ws_conns ?w b = Some d" "ws_conns ?w b' = Some d'" "ws_uid d = ws_uid d'" for b b' d d'
      using old [OF that(1)] old [OF that(2)] that(3) D(3) by metis
    show "pending (es @ [?e]) ?w b" if "b \<in> set (x # remove1 a p)" for b
    proof -
      have "b \<noteq> a" "b \<in> set (x # p)" using that x(2) a by auto
      with pending_neutral [OF x(3) neutral] show ?thesis by (simp add: conn)
    qed
  qed (use x D(5) same in \<open>auto simp: distinct_remove1\<close>)
qed

lemma ws_trace_inv: "ws_trace es w p \<Longrightarrow> ws_inv es w p"
proof (induction rule: ws_trace.induct)
  case (start uid)
  show ?case by (rule ws_inv_start)
next
  case (tcp es w p uid ec w' started)
  then show ?case by (intro ws_inv_tcp)
next
  case (handshake es w p a ec known)
  then show ?case by (intro ws_inv_handshake)
next
  case (client es w p a c e s)
  obtain c' tab where s: "s = (c', tab)" by (cases s)
  have nu: "\<not> untouched c" using client.hyps(3) untouched_simps(3) by blast
  note step = client.hyps(4) [unfolded s]
  show ?case unfolding s
  proof (rule ws_inv_put [OF client.IH client.hyps(2) nu])
    show "ws_uid c' = ws_uid c" "find_connection tab u = find_connection (ws_table w) u" for u
      using ws_step_frame [OF step] by simp_all
    assume "\<not> failed a (es @ [Client a e])"
    then have "echoing a es (ws_table w) c" using ws_invD(2) [OF client.IH client.hyps(2)] nu by (simp add: conn_inv_def)
    then have c: "ws_ok c" "ws_reading c" "ws_echoed c @ ws_unsent c = ws_payloads (own a es)"
      "find_connection (ws_table w) (ws_uid c) = Some a" by (simp_all add: echoing_def)
    from ws_step_ok [OF c(1), where e = e and tab = "ws_table w"] step
    have "ws_ok c'" "ws_echoed c' @ ws_unsent c' = (ws_echoed c @ ws_unsent c) @ ws_payloads [e]" by simp_all
    with c ws_step_frame [OF step] show "echoing a (es @ [Client a e]) tab c'"
      by (simp add: echoing_def ws_payloads_append)
  qed (simp add: neutral_def)
next
  case (read_fails es w p a c r known eager s)
  obtain c' tab where s: "s = (c', tab)" by (cases s)
  have nu: "\<not> untouched c" using read_fails.hyps(3) untouched_simps(1) by blast
  show ?case unfolding s
  proof (rule ws_inv_put [OF read_fails.IH read_fails.hyps(2) nu])
    show "ws_uid c' = ws_uid c" "u \<noteq> ws_uid c \<Longrightarrow> find_connection tab u = find_connection (ws_table w) u" for u
      using ws_received_frame [OF read_fails.hyps(5) [unfolded s]] by (auto simp: find_RemoveConnection)
  qed (simp_all add: neutral_def)
next
  case (write_fails es w p a c s)
  obtain c' tab where s: "s = (c', tab)" by (cases s)
  have nu: "\<not> untouched c" using write_fails.hyps(3) by (auto dest: untouched_simps(2))
  show ?case unfolding s
  proof (rule ws_inv_put [OF write_fails.IH write_fails.hyps(2) nu])
    show "ws_uid c' = ws_uid c" "u \<noteq> ws_uid c \<Longrightarrow> find_connection tab u = find_connection (ws_table w) u" for u
      using write_fails.hyps(4) by (auto simp: s ws_written_def ws_write_failed_def find_RemoveConnection)
  qed (simp_all add: neutral_def)
qed

subsection \<open>Properties\<close>

text \<open>
  C33: the websocket server echoes to every client, whatever the others do. In every run of the
  server, for every client whose handshake succeeded and none of whose operations failed, what it
  was sent followed by what is still to be sent to it is what it sent, in order; its queue is empty
  exactly when no write to it is outstanding; and the table finds its connection under its id. A
  step of such a connection fails only by reading the buffer of a write that \<open>AsyncSend\<close> itself
  started and the stream did not read before \<open>AsyncSend\<close>'s caller returned.
\<close>
theorem ws_echo_in_order:
  assumes "ws_trace es w p" and "ws_conns w a = Some c" and "ws_reading c" and "\<not> failed a es"
  shows "ws_echoed c @ ws_unsent c = ws_payloads (own a es) \<and> (ws_write c = None \<longleftrightarrow> ws_sendQueue c = []) \<and>
    find_connection (ws_table w) (ws_uid c) = Some a \<and>
    (\<forall>e f. ws_step e (c, ws_table w) = Inl f \<longrightarrow>
       f = Use_after_free \<and> (\<exists>u k. ws_write c = Some (Dead, u, k)))"
proof -
  have "echoing a es (ws_table w) c"
    using ws_invD(2) [OF ws_trace_inv [OF assms(1)] assms(2)] untouched_simps(1) [of c] assms(3,4)
    by (auto simp: conn_inv_def)
  then have ok: "ws_ok c" "ws_echoed c @ ws_unsent c = ws_payloads (own a es)"
    "find_connection (ws_table w) (ws_uid c) = Some a" by (simp_all add: echoing_def)
  moreover have "f = Use_after_free \<and> (\<exists>u k. ws_write c = Some (Dead, u, k))"
    if "ws_step e (c, ws_table w) = Inl f" for e f
    using ws_step_ok [OF ok(1), where e = e and tab = "ws_table w"] that by simp
  ultimately show ?thesis using ws_ok_write(1) [OF ok(1)] by blast
qed

theorem ws_echo_in_order_witness:
  "\<exists>es w p c. ws_trace es w p \<and> ws_conns w 0 = Some c \<and> own 0 es = [Received True True ''hi''] \<and>
     ws_echoed c @ ws_unsent c = [''hi''] \<and> find_connection (ws_table w) ''u0'' = Some 0"
proof -
  let ?c = "ws_Start (new_Connection ''u0'')"
  let ?w0 = "ws_main ''u0''" and ?w1 = "fst (ws_tcp_accepted False ''u1'' (ws_main ''u0''))"
  let ?w2 = "ws_accepted 0 False True ?w1"
  have t1: "ws_trace [Tcp_accept False ''u1''] ?w1 [0]"
    using ws_trace.tcp [OF ws_trace.start [of "''u0''"], of "''u1''" False ?w1 "Some 0"]
    by (auto simp: ws_main_def ws_StartAccept_def WebSocketServer_def ws_tcp_accepted_def new_Connection_def
        split: if_splits)
  have t2: "ws_trace [Tcp_accept False ''u1'', Handshake 0 False True] ?w2 []"
    using ws_trace.handshake [OF t1, of 0 False True] by simp
  have c2: "ws_conns ?w2 0 = Some ?c"
    by (simp add: ws_main_def ws_StartAccept_def WebSocketServer_def ws_tcp_accepted_def ws_accepted_def)
  obtain c' where c': "ws_step (Received True True ''hi'') (?c, ws_table ?w2) = Inr (c', ws_table ?w2)"
    using ws_received_ok [OF ws_ok_new [of "''u0''"], of True True "''hi''" "ws_table ?w2"] by blast
  note t3 = ws_trace.client [OF t2 c2 _ c']
  have tr: "ws_trace [Tcp_accept False ''u1'', Handshake 0 False True, Client 0 (Received True True ''hi'')]
      (put_conn 0 (c', ws_table ?w2) ?w2) []"
    using t3 by simp
  have f: "ws_reading c'" "ws_uid c' = ''u0''" using ws_step_frame [OF c'] by (simp_all add: new_Connection_def)
  have at: "ws_conns (put_conn 0 (c', ws_table ?w2) ?w2) 0 = Some c'" by (simp add: put_conn_def)
  from ws_echo_in_order [OF tr at f(1)] f(2) tr at show ?thesis
    by (intro exI conjI) (auto simp: failed_def own_def)
qed

end
