(* ===== verification/Http_Server.thy ===== *)
theory Http_Server
  imports Ftp_Logic_Props Std_Numbers "HOL-Library.AList"
begin

text \<open>
  The HTTP server of \<open>src/src/03_beast-http/RunServer.cpp\<close>: one request and one response a
  connection, a deadline of 60 seconds, and a counter of requests that all connections share. The
  server runs on the thread of \<open>main\<close>; an exception that leaves a handler leaves \<open>io_context::run\<close>
  and ends \<open>main\<close>. Parsing and printing HTTP is \<open>boost::beast\<close>'s, JSON the parameter \<open>json_ops\<close>,
  the time as \<open>strftime\<close> prints it an argument. A response starts as beast's default: HTTP 1.1,
  status 200, no fields, no body.
\<close>

subsection \<open>Requests and responses\<close>

datatype verb = Get | Post | Other_verb

record http_request =
  rq_version :: nat
  rq_method :: verb
  rq_method_string :: string
  rq_target :: string
  rq_body :: string

record http_response =
  rs_version :: nat
  rs_keep_alive :: bool
  rs_result :: nat
  rs_fields :: "(string \<times> string) list"
  rs_body :: string
  rs_length :: "nat option"        \<comment> \<open>the field Content-Length\<close>

definition empty_response :: http_response where
  "empty_response = \<lparr>rs_version = 11, rs_keep_alive = True, rs_result = 200, rs_fields = [],
     rs_body = '''', rs_length = None\<rparr>"

definition set_field :: "string \<Rightarrow> string \<Rightarrow> http_response \<Rightarrow> http_response" where
  "set_field k v r = r\<lparr>rs_fields := AList.update k v (rs_fields r)\<rparr>"

definition add_body :: "string \<Rightarrow> http_response \<Rightarrow> http_response" where
  "add_body s r = r\<lparr>rs_body := rs_body r @ s\<rparr>"

text \<open>\<open>RequestCount\<close>: increments the shared counter and returns it.\<close>

definition RequestCount :: "u64 \<Rightarrow> u64 \<times> u64" where
  "RequestCount count = (count + 1, count + 1)"

definition line :: "string \<Rightarrow> string" where "line s = s @ [CHR 10]"

definition count_page :: "u64 \<Rightarrow> string" where
  "count_page n =
     line ''<html>'' @ line ''<head><title>Request count</title></head>'' @ line ''<body>'' @
     line ''<h1>Request count</h1>'' @
     line (''<p>There have been '' @ show_nat (unat n) @ '' requests so far.</p>'') @
     line ''</body>'' @ line ''</html>''"

definition time_page :: "string \<Rightarrow> string" where
  "time_page time_str =
     line ''<html>'' @ line ''<head><title>Current time</title></head>'' @ line ''<body>'' @
     line ''<h1>Current time</h1>'' @ line (''<p>The current time is '' @ time_str) @
     line ''</body>'' @ line ''</html>''"

definition HandleGet :: "string \<Rightarrow> http_request \<Rightarrow> http_response \<times> u64 \<Rightarrow> http_response \<times> u64" where
  "HandleGet time_str rq = (\<lambda>(rs, count).
     let rs = set_field ''Server'' ''lyf'' (rs\<lparr>rs_result := 200\<rparr>) in
     if rq_target rq = ''/count'' then
       let rs = set_field ''Content-Type'' ''text/html'' rs;
           (n, count) = RequestCount count
       in (add_body (count_page n) rs, count)
     else if rq_target rq = ''/time'' then
       (add_body (time_page time_str) (set_field ''Content-Type'' ''text/html'' rs), count)
     else
       (add_body ''GET request received'' (set_field ''Content-Type'' ''text/plain'' (rs\<lparr>rs_result := 404\<rparr>)), count))"

definition HandlePost :: "'j json_ops \<Rightarrow> http_request \<Rightarrow> http_response \<Rightarrow> fault + http_response" where
  "HandlePost js rq rs =
     (if rq_target rq = ''/email'' then
        let bodyStr = rq_body rq;
            rs = set_field ''Content-Type'' ''text/json'' rs;
            root = json_null js;
            (parsed, src) = json_parse js bodyStr
        in if parsed then
             and_then (get_str js src ''email'') (\<lambda>email.
             and_then (json_set js root ''message'' (json_str js ''Email received successfully'')) (\<lambda>root.
             and_then (json_get js src ''email'') (\<lambda>v.
             and_then (json_set js root ''email'' v) (\<lambda>root.
             and_then (json_set js root ''error'' (json_str js ''0'')) (\<lambda>root.
             Inr (add_body (toStyledString js root) rs))))))
           else
             and_then (json_set js root ''error'' (json_str js ''1001'')) (\<lambda>root.
             Inr (add_body (toStyledString js root) rs))
      else Inr rs)"

definition bad_method :: "http_request \<Rightarrow> http_response \<Rightarrow> http_response" where
  "bad_method rq rs =
     add_body (''Invalid request-method '' @ [CHR 39] @ rq_method_string rq @ [CHR 39])
       (set_field ''Content-Type'' ''text/plain'' (set_field ''Server'' ''lyf'' (rs\<lparr>rs_result := 400\<rparr>)))"

definition content_length :: "http_response \<Rightarrow> http_response" where
  "content_length rs = rs\<lparr>rs_length := Some (length (rs_body rs))\<rparr>"

text \<open>\<open>ProcessRequest\<close> up to the response that \<open>WriteResponse\<close> sends.\<close>

definition ProcessRequest :: "'j json_ops \<Rightarrow> string \<Rightarrow> http_request \<Rightarrow> http_response \<Rightarrow> u64 \<Rightarrow>
    fault + http_response \<times> u64" where
  "ProcessRequest js time_str rq rs count =
     (let rs = rs\<lparr>rs_version := rq_version rq\<rparr>;
          rs = rs\<lparr>rs_keep_alive := False\<rparr>
      in and_then
           (case rq_method rq of
              Get \<Rightarrow> Inr (HandleGet time_str rq (rs, count))
            | Post \<Rightarrow> and_then (HandlePost js rq rs) (\<lambda>rs. Inr (rs, count))
            | Other_verb \<Rightarrow> Inr (bad_method rq rs, count))
           (\<lambda>(rs, count). Inr (content_length rs, count)))"

subsection \<open>Connections\<close>

record http_conn =
  hc_response :: http_response
  hc_reading :: bool
  hc_writing :: bool
  hc_deadline :: bool          \<comment> \<open>the wait for the deadline is outstanding\<close>
  hc_open :: bool

text \<open>A connection lives while an outstanding operation refers to it.\<close>

definition hc_alive :: "http_conn \<Rightarrow> bool" where
  "hc_alive c = (hc_reading c \<or> hc_writing c \<or> hc_deadline c)"

definition httpConnection :: http_conn where
  "httpConnection = \<lparr>hc_response = empty_response, hc_reading = False, hc_writing = False,
     hc_deadline = False, hc_open = True\<rparr>"

definition ReadRequest :: "http_conn \<Rightarrow> http_conn" where "ReadRequest c = c\<lparr>hc_reading := True\<rparr>"
definition CheckDeadline :: "http_conn \<Rightarrow> http_conn" where "CheckDeadline c = c\<lparr>hc_deadline := True\<rparr>"
definition http_Start :: "http_conn \<Rightarrow> http_conn" where "http_Start c = CheckDeadline (ReadRequest c)"

text \<open>The handlers: of the read (\<open>None\<close> is an error), of the write (\<open>ec\<close>, and whether \<open>shutdown\<close>
  fails) and of the deadline.\<close>

definition http_received :: "'j json_ops \<Rightarrow> string \<Rightarrow> http_request option \<Rightarrow> http_conn \<times> u64 \<Rightarrow>
    fault + http_conn \<times> u64" where
  "http_received js time_str r = (\<lambda>(c, count).
     case r of
       None \<Rightarrow> Inr (c\<lparr>hc_reading := False\<rparr>, count)
     | Some rq \<Rightarrow>
         and_then (ProcessRequest js time_str rq (hc_response c) count) (\<lambda>(rs, count).
         Inr (c\<lparr>hc_reading := False, hc_response := rs, hc_writing := True\<rparr>, count)))"

definition http_written :: "bool \<Rightarrow> bool \<Rightarrow> http_conn \<Rightarrow> http_conn" where
  "http_written ec shutdown_ec c =
     (let c = c\<lparr>hc_writing := False\<rparr> in
      if \<not> ec then if shutdown_ec then c\<lparr>hc_deadline := False\<rparr> else c
      else c)"

definition deadline_expired :: "http_conn \<Rightarrow> http_conn" where
  "deadline_expired c = c\<lparr>hc_deadline := False, hc_open := False\<rparr>"

subsection \<open>The server\<close>

record http_server =
  hs_conns :: "http_conn list"
  hs_count :: u64

datatype http_event =
    Accept bool bool                        \<comment> \<open>an error; \<open>remote_endpoint\<close> does not throw\<close>
  | Request nat "http_request option" string
  | Sent nat bool bool
  | Expired nat

definition httpSever :: "bool \<Rightarrow> bool \<Rightarrow> http_server \<Rightarrow> fault + http_server" where
  "httpSever ec peer_known s =
     (if ec then Inr s
      else if \<not> peer_known then Inl System_error
      else Inr (s\<lparr>hs_conns := hs_conns s @ [http_Start httpConnection]\<rparr>))"

text \<open>A handler runs only when its operation is outstanding.\<close>

fun http_step :: "'j json_ops \<Rightarrow> http_event \<Rightarrow> http_server \<Rightarrow> fault + http_server" where
  "http_step js (Accept ec peer_known) s = httpSever ec peer_known s"
| "http_step js (Request i r time_str) s =
     (if i < length (hs_conns s) \<and> hc_reading (hs_conns s ! i)
      then and_then (http_received js time_str r (hs_conns s ! i, hs_count s)) (\<lambda>(c, count).
           Inr (s\<lparr>hs_conns := (hs_conns s)[i := c], hs_count := count\<rparr>))
      else Inr s)"
| "http_step js (Sent i ec shutdown_ec) s =
     (if i < length (hs_conns s) \<and> hc_writing (hs_conns s ! i)
      then Inr (s\<lparr>hs_conns := (hs_conns s)[i := http_written ec shutdown_ec (hs_conns s ! i)]\<rparr>)
      else Inr s)"
| "http_step js (Expired i) s =
     (if i < length (hs_conns s) \<and> hc_deadline (hs_conns s ! i)
      then Inr (s\<lparr>hs_conns := (hs_conns s)[i := deadline_expired (hs_conns s ! i)]\<rparr>)
      else Inr s)"







subsection \<open>Runs\<close>











subsection \<open>Properties\<close>












text \<open>
  The deadline is cancelled only when shutting the socket down fails. A connection whose response
  was sent and whose socket was shut down stays, with its socket open, until the deadline expires;
  one whose shutdown failed is gone, and its deadline does not close the socket.
\<close>
lemma http_deadline:
  assumes "i < length (hs_conns s)" and "hc_writing (hs_conns s ! i)" and "\<not> hc_reading (hs_conns s ! i)"
    and "hc_deadline (hs_conns s ! i)" and "hc_open (hs_conns s ! i)"
  shows "(\<exists>s'. http_step js (Sent i False False) s = Inr s' \<and>
      hc_alive (hs_conns s' ! i) \<and> hc_open (hs_conns s' ! i) \<and>
      (\<exists>s''. http_step js (Expired i) s' = Inr s'' \<and>
         \<not> hc_alive (hs_conns s'' ! i) \<and> \<not> hc_open (hs_conns s'' ! i))) \<and>
    (\<exists>s'. http_step js (Sent i False True) s = Inr s' \<and>
      \<not> hc_alive (hs_conns s' ! i) \<and> hc_open (hs_conns s' ! i) \<and>
      http_step js (Expired i) s' = Inr s')"
  using assms by (simp add: http_written_def deadline_expired_def hc_alive_def Let_def)



end
