(* ===== verification/Lyf_Tools.thy ===== *)
theory Lyf_Tools
  imports Net_Prelude
begin

text \<open>
  The utility header \<open>src/include/lyf.h\<close>: the string tools, the printing tools, the comparison
  templates and the run-time assertion. Two loops may run for ever (\<open>replace_all\<close> with an empty
  pattern, and the loop of \<open>split\<close> were it entered with an empty delimiter), so they are partial
  functions whose value \<open>None\<close> is "does not return". What a stream prints of an argument is a string.
\<close>

subsection \<open>Strings\<close>

text \<open>\<open>split\<close> at a character, by \<open>getline\<close>: a final empty piece is not extracted.\<close>

function split_char :: "string \<Rightarrow> char \<Rightarrow> string list" where
  "split_char [] delim = []"
| "split_char (c # s) delim =
     takeWhile (\<lambda>x. x \<noteq> delim) (c # s) #
     split_char (drop 1 (dropWhile (\<lambda>x. x \<noteq> delim) (c # s))) delim"
  by pat_completeness auto
termination
proof (relation "measure (\<lambda>(s, _). length s)")
  show "((drop 1 (dropWhile (\<lambda>x. x \<noteq> delim) (c # s)), delim), (c # s, delim)) \<in> measure (\<lambda>(s, _). length s)"
    for c s delim
    using length_dropWhile_le [of "\<lambda>x. x \<noteq> delim" "c # s"] by (cases "c = delim") auto
qed simp

text \<open>\<open>split\<close> at a string: the first search is for any character of the delimiter.\<close>

partial_function (option) split_loop ::
  "string \<Rightarrow> string \<Rightarrow> nat \<Rightarrow> nat option \<Rightarrow> string list \<Rightarrow> (fault + string list) option" where
  "split_loop str delim pos1 pos2 res =
     (case pos2 of
        None \<Rightarrow>
          Some (if pos1 \<noteq> length str
                then and_then (substr str pos1 (length str)) (\<lambda>piece. Inr (res @ [piece]))
                else Inr res)
      | Some p \<Rightarrow>
          (case substr str pos1 (p - pos1) of
             Inl e \<Rightarrow> Some (Inl e)
           | Inr piece \<Rightarrow>
               split_loop str delim (p + length delim) (str_find str delim (p + length delim)) (res @ [piece])))"

declare split_loop.simps [code]

definition split :: "string \<Rightarrow> string \<Rightarrow> (fault + string list) option" where
  "split str delim = split_loop str delim 0 (str_find_first_of str delim 0) []"

text \<open>\<open>regex_match\<close>: the regular expression is compiled, which throws for one that is malformed, and
  the iterator's matches (position and length, the library's) are copied out of the string.\<close>

definition regex_match ::
  "(string \<Rightarrow> fault + 'r) \<Rightarrow> ('r \<Rightarrow> string \<Rightarrow> (nat \<times> nat) list) \<Rightarrow> string \<Rightarrow> string \<Rightarrow> fault + string list" where
  "regex_match compile matches str pattern =
     and_then (compile pattern) (\<lambda>m_pattern.
     Inr (map (\<lambda>(p, n). take n (drop p str)) (matches m_pattern str)))"

definition replace_first :: "string \<Rightarrow> string \<Rightarrow> string \<Rightarrow> string" where
  "replace_first str old_value new_value =
     (case str_find str old_value 0 of
        Some pos \<Rightarrow> str_replace str pos (length old_value) new_value
      | None \<Rightarrow> str)"

partial_function (option) replace_loop :: "string \<Rightarrow> string \<Rightarrow> string \<Rightarrow> nat \<Rightarrow> string option" where
  "replace_loop res old_value new_value pos =
     (case str_find res old_value pos of
        Some p \<Rightarrow> replace_loop (str_replace res p (length old_value) new_value) old_value new_value
                   (p + length new_value)
      | None \<Rightarrow> Some res)"

declare replace_loop.simps [code]

definition replace_all :: "string \<Rightarrow> string \<Rightarrow> string \<Rightarrow> string option" where
  "replace_all str old_value new_value = replace_loop str old_value new_value 0"

definition replace_last :: "string \<Rightarrow> string \<Rightarrow> string \<Rightarrow> string" where
  "replace_last str old_value new_value =
     (case str_rfind str old_value of
        Some pos \<Rightarrow> str_replace str pos (length old_value) new_value
      | None \<Rightarrow> str)"

text \<open>\<open>operator[]\<close> of a string: the null character at its length, undefined behind it.\<close>

definition str_index :: "string \<Rightarrow> nat \<Rightarrow> fault + char" where
  "str_index s i = (if i < length s then Inr (s ! i) else if i = length s then Inr (CHR 0x00) else Inl Over_read)"

fun begin_loop :: "string \<Rightarrow> string \<Rightarrow> nat \<Rightarrow> fault + bool" where
  "begin_loop str [] i = Inr True"
| "begin_loop str (c # pre) i =
     and_then (str_index str i) (\<lambda>d. if d \<noteq> c then Inr False else begin_loop str pre (Suc i))"

definition begin_with :: "string \<Rightarrow> string \<Rightarrow> fault + bool" where
  "begin_with str pre = begin_loop str pre 0"

definition end_with :: "string \<Rightarrow> string \<Rightarrow> fault + bool" where
  "end_with str suf =
     (if length str < length suf then Inr False else begin_loop str suf (length str - length suf))"

subsection \<open>Type names\<close>

text \<open>\<open>getTypeName\<close> on what the compiler gives for \<open>__PRETTY_FUNCTION__\<close>: \<open>npos\<close> is the greatest
  \<open>size_t\<close>, and the arithmetic on positions wraps.\<close>

definition npos :: u64 where "npos = - 1"

definition pos_word :: "nat option \<Rightarrow> u64" where
  "pos_word r = (case r of None \<Rightarrow> npos | Some i \<Rightarrow> of_nat i)"

definition getTypeName :: "string \<Rightarrow> fault + string" where
  "getTypeName s =
     (let pos1 = pos_word (str_find s ''T = '' 0) + 4;
          pos2 = pos_word (str_find_first_of s [CHR 9, CHR '']''] (unat pos1))
      in substr s (unat pos1) (unat (pos2 - pos1 + 1)))"

text \<open>\<open>type_class<T>::get\<close> on the demangled name of \<open>cvr_saver<T>\<close>: what is between its first \<open><\<close>
  and its last \<open>>\<close>.\<close>

definition type_class_get :: "string \<Rightarrow> fault + string" where
  "type_class_get all_realName =
     (let pos1 = pos_word (str_find_first_of all_realName ''<'' 0) + 1;
          pos2 = pos_word (str_rfind all_realName ''>'')
      in substr all_realName (unat pos1) (unat (pos2 - pos1)))"

subsection \<open>Printing\<close>

record printer =
  printDelim :: string
  delimIsPersist :: bool

definition set_printDelim :: "string \<Rightarrow> printer \<Rightarrow> printer" where
  "set_printDelim delim p = p\<lparr>printDelim := delim\<rparr>"

definition set_printDelimPersist :: "bool \<Rightarrow> printer \<Rightarrow> printer" where
  "set_printDelimPersist flag p = p\<lparr>delimIsPersist := flag\<rparr>"

fun print_args :: "string \<Rightarrow> string list \<Rightarrow> printer \<Rightarrow> string \<times> printer" where
  "print_args v [] p =
     (v @ printDelim p @ [CHR 10], if \<not> delimIsPersist p then p\<lparr>printDelim := '' ''\<rparr> else p)"
| "print_args v (w # args) p =
     (let out = v @ printDelim p; (rest, p) = print_args w args p in (out @ rest, p))"

definition print_container :: "string list \<Rightarrow> string \<Rightarrow> string" where
  "print_container v delim = concat (map (\<lambda>i. i @ delim) v) @ [CHR 10]"

definition blue :: "string \<Rightarrow> string" where "blue s = CHR 27 # ''[34m'' @ s @ CHR 27 # ''[0m''"
definition green :: "string \<Rightarrow> string" where "green s = CHR 27 # ''[32m'' @ s @ CHR 27 # ''[0m''"
definition red :: "string \<Rightarrow> string" where "red s = CHR 27 # ''[31m'' @ s @ CHR 27 # ''[0m''"

subsection \<open>Comparisons and assertions\<close>

definition lyf_max :: "'a :: linorder \<Rightarrow> 'a \<Rightarrow> 'a" where "lyf_max a b = (if b < a then a else b)"
definition lyf_min :: "'a :: linorder \<Rightarrow> 'a \<Rightarrow> 'a" where "lyf_min a b = (if a < b then a else b)"

text \<open>The variadic overloads: three arguments or more, down to the binary one.\<close>

fun lyf_max_of :: "'a :: linorder \<Rightarrow> 'a \<Rightarrow> 'a list \<Rightarrow> 'a" where
  "lyf_max_of a b [] = lyf_max a b"
| "lyf_max_of a b (c # args) = lyf_max a (lyf_max_of b c args)"

fun lyf_min_of :: "'a :: linorder \<Rightarrow> 'a \<Rightarrow> 'a list \<Rightarrow> 'a" where
  "lyf_min_of a b [] = lyf_min a b"
| "lyf_min_of a b (c # args) = lyf_min a (lyf_min_of b c args)"

fun compare_loop :: "('a \<Rightarrow> 'a \<Rightarrow> bool) \<Rightarrow> 'a \<Rightarrow> 'a list \<Rightarrow> 'a" where
  "compare_loop cmp maxValue [] = maxValue"
| "compare_loop cmp maxValue (x # xs) = compare_loop cmp (if cmp maxValue x then x else maxValue) xs"

definition range_compare :: "'a list \<Rightarrow> ('a \<Rightarrow> 'a \<Rightarrow> bool) \<Rightarrow> fault + 'a" where
  "range_compare xs cmp =
     (case xs of [] \<Rightarrow> Inl (Invalid_argument ''Range cannot be empty'')
      | x # xs \<Rightarrow> Inr (compare_loop cmp x xs))"

definition range_max :: "'a :: linorder list \<Rightarrow> fault + 'a" where
  "range_max xs = range_compare xs (<)"

definition range_min :: "'a :: linorder list \<Rightarrow> fault + 'a" where
  "range_min xs = range_compare xs (>)"

definition assure :: "bool \<Rightarrow> string \<Rightarrow> fault + unit" where
  "assure condition what =
     (if \<not> condition then Inl (Runtime_error (takeWhile (\<lambda>c. c \<noteq> CHR 0x00) what)) else Inr ())"

subsection \<open>The singleton\<close>

text \<open>\<open>GetInstance\<close>: the static object is constructed by the first call; a constructor that throws
  leaves it unconstructed, and the next call constructs again.\<close>

definition GetInstance :: "(fault + 'a) \<Rightarrow> 'a option \<Rightarrow> (fault + 'a) \<times> 'a option" where
  "GetInstance construct inst =
     (case inst of
        Some x \<Rightarrow> (Inr x, inst)
      | None \<Rightarrow> (case construct of Inl e \<Rightarrow> (Inl e, None) | Inr x \<Rightarrow> (Inr x, Some x)))"

lemma GetInstance_once:
  "GetInstance c inst = (Inr x, inst') \<Longrightarrow> GetInstance d inst' = (Inr x, inst')"
  by (auto simp: GetInstance_def split: option.splits sum.splits)

subsection \<open>Random numbers and time\<close>

text \<open>
  \<open>getRandom\<close>: the distribution is a static object, made by the first call with that call's bounds;
  \<open>uniform\<close> is the library's draw from it. \<open>None\<close>: the assertion ends the process.
\<close>

definition getRandom ::
  "('a \<times> 'a \<Rightarrow> 'g \<Rightarrow> 'a \<times> 'g) \<Rightarrow> 'a :: linorder \<Rightarrow> 'a \<Rightarrow> ('a \<times> 'a) option \<times> 'g \<Rightarrow>
     ('a \<times> (('a \<times> 'a) option \<times> 'g)) option" where
  "getRandom uniform lo hi = (\<lambda>(dis, gen).
     if \<not> lo \<le> hi then None
     else let d = (case dis of None \<Rightarrow> (lo, hi) | Some d \<Rightarrow> d);
              (x, gen) = uniform d gen
          in Some (x, (Some d, gen)))"

text \<open>\<open>getCurrentTimeStamp\<close>: nanoseconds of the clock to milliseconds, towards zero.\<close>

definition getCurrentTimeStamp :: "int \<Rightarrow> int" where
  "getCurrentTimeStamp now = (if 0 \<le> now then now div 1000000 else - ((- now) div 1000000))"

subsection \<open>Lemmas\<close>

text \<open>Every later call draws between the bounds of the first call, both included.\<close>

lemma getRandom_first_bounds:
  assumes "\<And>a b g. a \<le> b \<Longrightarrow> a \<le> fst (uniform (a, b) g) \<and> fst (uniform (a, b) g) \<le> b"
    and "getRandom uniform a b (None, g) = Some (x, st)"
    and "getRandom uniform c d st = Some (y, st')"
  shows "a \<le> x \<and> x \<le> b \<and> a \<le> y \<and> y \<le> b"
proof -
  from assms(2) have ab: "a \<le> b" "x = fst (uniform (a, b) g)" "fst st = Some (a, b)"
    by (auto simp: getRandom_def Let_def split: if_splits prod.splits)
  from assms(3) ab(3) have "y = fst (uniform (a, b) (snd st))"
    by (cases st) (auto simp: getRandom_def Let_def split: if_splits prod.splits)
  with ab assms(1) [OF ab(1)] show ?thesis by simp
qed

text \<open>The name of a type comes out whole, whatever brackets it has.\<close>

lemma rfind_last: "rfind_from (s @ [c]) [c] (Suc (length s)) = Some (length s)"
proof -
  have "rfind_from (s @ [c]) [c] (length s) = Some (length s)" by (cases "length s") simp_all
  then show ?thesis by simp
qed

lemma type_class_get_name:
  assumes "length t < 2 ^ 63"
  shows "type_class_get (''lyf::cvr_saver<'' @ t @ ''>'') = Inr t"
proof -
  let ?s = "''lyf::cvr_saver<'' @ t"
  have "str_find_first_of (?s @ ''>'') ''<'' 0 = Some 14" by (simp add: str_find_first_of_def)
  moreover have "str_rfind (?s @ ''>'') ''>'' = Some (length ?s)"
    using rfind_last [of ?s "CHR ''>''"] unfolding str_rfind_def by simp
  moreover have "unat (of_nat (length ?s) - 15 :: u64) = length t"
    using assms by (simp add: unat_of_nat)
  ultimately show ?thesis
    unfolding type_class_get_def append_assoc [symmetric] by (simp add: pos_word_def substr_def)
qed


text \<open>\<open>begin_with\<close> and \<open>end_with\<close>, by one pass over what is left of the string.\<close>

lemma begin_loop_drop:
  assumes "i \<le> length str"
  shows "begin_loop str pre i =
    (if prefix pre (drop i str) then Inr True
     else if prefix (drop i str @ [CHR 0x00]) pre
       then (if pre = drop i str @ [CHR 0x00] then Inr True else Inl Over_read)
     else Inr False)"
  using assms
proof (induction str pre i rule: begin_loop.induct)
  case (1 str i)
  then show ?case by simp
next
  case (2 str c pre i)
  show ?case
  proof (cases "i < length str")
    case True
    then have *: "drop i str = str ! i # drop (Suc i) str" by (simp add: Cons_nth_drop_Suc)
    from 2 True show ?thesis by (simp add: * str_index_def)
  next
    case False
    with 2 have i: "i = length str" by simp
    show ?thesis by (cases pre) (auto simp: i str_index_def)
  qed
qed

text \<open>The leftmost replacement, without overlaps.\<close>

function subst_all :: "string \<Rightarrow> string \<Rightarrow> string \<Rightarrow> string" where
  "subst_all old new [] = []"
| "subst_all old new (c # s) =
     (if old \<noteq> [] \<and> prefix old (c # s) then new @ subst_all old new (drop (length old) (c # s))
      else c # subst_all old new s)"
  by pat_completeness auto
termination
  by (relation "measure (\<lambda>(_, _, s). length s)") auto

lemma subst_all_skip:
  assumes "\<And>k. k < n \<Longrightarrow> \<not> prefix old (drop k s)" and "n \<le> length s"
  shows "subst_all old new s = take n s @ subst_all old new (drop n s)"
  using assms
proof (induction n arbitrary: s)
  case (Suc n)
  then obtain c t where s: "s = c # t" by (cases s) auto
  have "\<not> prefix old (c # t)" using Suc.prems(1) [of 0] by (simp add: s)
  moreover have "subst_all old new t = take n t @ subst_all old new (drop n t)"
  proof (rule Suc.IH)
    show "\<not> prefix old (drop k t)" if "k < n" for k using Suc.prems(1) [of "Suc k"] that by (simp add: s)
    show "n \<le> length t" using Suc.prems(2) by (simp add: s)
  qed
  ultimately show ?case by (simp add: s)
qed simp

lemma subst_all_hit:
  assumes "old \<noteq> []" and "prefix old s"
  shows "subst_all old new s = new @ subst_all old new (drop (length old) s)"
  using assms by (cases s) auto

lemma replace_loop_subst_all:
  assumes "old \<noteq> []" and "pos \<le> length res"
  shows "replace_loop res old new pos = Some (take pos res @ subst_all old new (drop pos res))"
  using assms(2)
proof (induction "length res - pos" arbitrary: res pos rule: less_induct)
  case less
  show ?case
  proof (cases "str_find res old pos")
    case None
    have "\<not> prefix old (drop k (drop pos res))" if "k < length res - pos" for k
      using str_find_NoneD [OF None, of "pos + k"] that by (simp add: add.commute)
    then have "subst_all old new (drop pos res) = drop pos res"
      using subst_all_skip [of "length res - pos" old "drop pos res" new] by simp
    then show ?thesis by (subst replace_loop.simps) (simp add: None)
  next
    case (Some p)
    note f = str_find_SomeD [OF Some]
    let ?res = "str_replace res p (length old) new"
    have len: "1 \<le> length old" using assms(1) by (cases old) simp_all
    have l: "length ?res = length res - length old + length new" using f(2) by (simp add: str_replace_def)
    have "replace_loop res old new pos = replace_loop ?res old new (p + length new)"
      by (subst replace_loop.simps) (simp add: Some)
    also have "\<dots> = Some (take (p + length new) ?res @ subst_all old new (drop (p + length new) ?res))"
      by (rule less.hyps) (use f(1,2) len l in linarith)+
    also have "take (p + length new) ?res = take p res @ new"
      using f(1,2) by (simp add: str_replace_def)
    also have "drop (p + length new) ?res = drop (p + length old) res"
      using f(1,2) by (simp add: str_replace_def)
    finally have loop: "replace_loop res old new pos =
      Some (take p res @ new @ subst_all old new (drop (p + length old) res))" by simp
    have "subst_all old new (drop pos res) =
        take (p - pos) (drop pos res) @ subst_all old new (drop (p - pos) (drop pos res))"
    proof (rule subst_all_skip)
      show "\<not> prefix old (drop k (drop pos res))" if "k < p - pos" for k
        using f(4) [of "pos + k"] that by (simp add: add.commute)
      show "p - pos \<le> length (drop pos res)" using f(1,2) by simp
    qed
    also have "drop (p - pos) (drop pos res) = drop p res" using f(1) by simp
    also have "subst_all old new (drop p res) = new @ subst_all old new (drop (length old) (drop p res))"
      by (rule subst_all_hit [OF assms(1) f(3)])
    finally have "subst_all old new (drop pos res) =
        take (p - pos) (drop pos res) @ new @ subst_all old new (drop (p + length old) res)"
      by (simp add: add.commute)
    moreover have "take pos res @ take (p - pos) (drop pos res) = take p res"
      using f(1) by (metis le_add_diff_inverse take_add)
    ultimately show ?thesis using loop by (metis append_assoc)
  qed
qed

lemma replace_loop_empty_pattern:
  assumes "replace_loop res [] new pos = Some y" and "pos \<le> length res"
  shows False
proof -
  have found: "str_find r [] i = Some i" if "i \<le> length r" for r i
    using that by (cases "drop i r") (simp_all add: str_find_def)
  have "replace_loop r old new i = Some y \<Longrightarrow> old = [] \<longrightarrow> i \<le> length r \<longrightarrow> False" for r old i
    by (erule replace_loop.raw_induct [rotated, where P = "\<lambda>r old new i y. old = [] \<longrightarrow> i \<le> length r \<longrightarrow> False"])
       (fastforce simp: str_replace_def found)
  with assms show False by blast
qed

text \<open>\<open>split\<close> at a one-character string.\<close>

lemma split_char_none: "d \<notin> set s \<Longrightarrow> split_char s d = (if s = [] then [] else [s])"
proof (cases s)
  case (Cons c t)
  assume "d \<notin> set s"
  then have *: "\<forall>x\<in>set s. x \<noteq> d" by blast
  then have "takeWhile (\<lambda>x. x \<noteq> d) s = s" "dropWhile (\<lambda>x. x \<noteq> d) s = []"
    by (simp_all only: takeWhile_eq_all_conv dropWhile_eq_Nil_conv)
  with Cons show ?thesis by simp
qed simp

lemma split_char_hit:
  assumes "d \<notin> set u"
  shows "split_char (u @ d # v) d = u # split_char v d"
proof -
  have *: "takeWhile (\<lambda>x. x \<noteq> d) (u @ d # v) = u" "dropWhile (\<lambda>x. x \<noteq> d) (u @ d # v) = d # v"
    using assms by (auto simp: takeWhile_append dropWhile_append)
  obtain c w where s: "u @ d # v = c # w" by (cases "u @ d # v") auto
  have "split_char (c # w) d =
      takeWhile (\<lambda>x. x \<noteq> d) (c # w) # split_char (drop 1 (dropWhile (\<lambda>x. x \<noteq> d) (c # w))) d" by simp
  with * s show ?thesis by simp
qed

lemma prefix_single: "prefix [d] s \<longleftrightarrow> s \<noteq> [] \<and> hd s = d"
  by (cases s) auto

lemma find_single: "find_at [d] s i = find_char_at (\<lambda>c. c \<in> set [d]) s i"
  by (induction s arbitrary: i) auto

lemma split_loop_single:
  assumes "pos \<le> length s"
  shows "split_loop s [d] pos (str_find s [d] pos) res = Some (Inr (res @ split_char (drop pos s) d))"
  using assms
proof (induction "length s - pos" arbitrary: pos res rule: less_induct)
  case less
  show ?case
  proof (cases "str_find s [d] pos")
    case None
    have "d \<notin> set (drop pos s)"
    proof
      assume "d \<in> set (drop pos s)"
      then obtain k where k: "k < length (drop pos s)" "drop pos s ! k = d" by (auto simp: in_set_conv_nth)
      then have "prefix [d] (drop (pos + k) s)" by (auto simp: prefix_single hd_drop_conv_nth)
      with str_find_NoneD [OF None, of "pos + k"] k(1) show False by simp
    qed
    then show ?thesis
      using less.prems by (subst split_loop.simps) (auto simp: None substr_def split_char_none)
  next
    case (Some p)
    note f = str_find_SomeD [OF Some]
    have p: "p < length s" "s ! p = d"
      using f(2,3) by (auto simp: prefix_single hd_drop_conv_nth)
    have "d \<notin> set (take (p - pos) (drop pos s))"
    proof
      assume "d \<in> set (take (p - pos) (drop pos s))"
      then obtain k where k: "k < p - pos" "s ! (pos + k) = d"
        using p(1) f(1) by (auto simp: in_set_conv_nth)
      then have "prefix [d] (drop (pos + k) s)" using p(1) by (auto simp: prefix_single hd_drop_conv_nth)
      moreover have "pos + k < p" using k(1) by linarith
      ultimately show False using f(4) [of "pos + k"] by simp
    qed
    moreover have "drop pos s = take (p - pos) (drop pos s) @ d # drop (p + 1) s"
    proof -
      have "drop pos s = take (p - pos) (drop pos s) @ drop p s"
        using append_take_drop_id [of "p - pos" "drop pos s"] f(1) by simp
      then show ?thesis using p Cons_nth_drop_Suc [of p s] by simp
    qed
    ultimately have hit: "split_char (drop pos s) d = take (p - pos) (drop pos s) # split_char (drop (p + 1) s) d"
      using split_char_hit by metis
    have "split_loop s [d] (p + 1) (str_find s [d] (p + 1)) (res @ [take (p - pos) (drop pos s)]) =
        Some (Inr ((res @ [take (p - pos) (drop pos s)]) @ split_char (drop (p + 1) s) d))"
      by (rule less.hyps) (use f(1) p(1) in auto)
    then show ?thesis
      using less.prems by (subst split_loop.simps) (simp add: Some substr_def hit)
  qed
qed

lemma split_single: "split s [d] = Some (Inr (split_char s d))"
proof -
  have "str_find_first_of s [d] 0 = str_find s [d] 0"
    by (simp only: str_find_first_of_def str_find_def find_single) simp
  then show ?thesis using split_loop_single [of 0 s d "[]"] by (simp add: split_def)
qed

lemma find_char_at_hit:
  "\<forall>x\<in>set u. \<not> P x \<Longrightarrow> P c \<Longrightarrow> find_char_at P (u @ c # v) i = Some (i + length u)"
  by (induction u arbitrary: i) auto

lemma split_after_hit:
  assumes "set u \<inter> set delim = {}" and "c \<in> set delim"
  shows "split (u @ c # v) delim =
    split_loop (u @ c # v) delim (length u + length delim)
      (str_find (u @ c # v) delim (length u + length delim)) [u]"
proof -
  have "str_find_first_of (u @ c # v) delim 0 = Some (length u)"
    unfolding str_find_first_of_def using assms find_char_at_hit [of u "\<lambda>x. x \<in> set delim" c v 0] by auto
  then show ?thesis unfolding split_def by (subst split_loop.simps) (simp add: substr_def)
qed

text \<open>The comparison loops compute maxima and minima.\<close>

lemma Max_fold: "finite A \<Longrightarrow> Max (insert m (insert x A)) = Max (insert (max m x) A)"
  by (cases "A = {}") (simp_all add: max.assoc)

lemma Min_fold: "finite A \<Longrightarrow> Min (insert m (insert x A)) = Min (insert (min m x) A)"
  by (cases "A = {}") (simp_all add: min.assoc)

lemma compare_loop_max: "compare_loop (<) m (xs :: 'a :: linorder list) = Max (set (m # xs))"
proof (induction xs arbitrary: m)
  case (Cons x xs)
  have "(if m < x then x else m) = max m x" by (auto simp: max_def)
  with Cons show ?case by (simp only: compare_loop.simps list.set Max_fold finite_set)
qed simp

lemma compare_loop_min: "compare_loop (>) m (xs :: 'a :: linorder list) = Min (set (m # xs))"
proof (induction xs arbitrary: m)
  case (Cons x xs)
  have "(if m > x then x else m) = min m x" by (auto simp: min_def)
  with Cons show ?case by (simp only: compare_loop.simps list.set Min_fold finite_set)
qed simp

lemma lyf_max_of_Max: "lyf_max_of a b xs = Max (set (a # b # xs))"
proof (induction a b xs rule: lyf_max_of.induct)
  case (2 a b c args)
  have "lyf_max x y = max x y" for x y :: 'a by (auto simp: lyf_max_def max_def)
  with 2 show ?case by (simp add: Max_insert del: insert_iff)
qed (auto simp: lyf_max_def max_def)

lemma lyf_min_of_Min: "lyf_min_of a b xs = Min (set (a # b # xs))"
proof (induction a b xs rule: lyf_min_of.induct)
  case (2 a b c args)
  have "lyf_min x y = min x y" for x y :: 'a by (auto simp: lyf_min_def min_def)
  with 2 show ?case by (simp add: Min_insert del: insert_iff)
qed (auto simp: lyf_min_def min_def)

subsection \<open>Properties\<close>

text \<open>
  C37: \<open>replace_all\<close> is the leftmost replacement without overlaps of every occurrence of a
  non-empty pattern, and what it inserted is not searched again; for the empty pattern, which every
  position matches, it never returns.
\<close>
theorem replace_all_leftmost:
  "replace_all str old_value new_value =
     (if old_value = [] then None else Some (subst_all old_value new_value str))"
proof (cases "old_value = []")
  case True
  then show ?thesis
    using replace_loop_empty_pattern [of str new_value 0] by (cases "replace_all str old_value new_value")
      (auto simp: replace_all_def)
next
  case False
  then show ?thesis using replace_loop_subst_all [of old_value 0 str new_value] by (simp add: replace_all_def)
qed

text \<open>
  At a one-character string \<open>split\<close> gives what \<open>split\<close> gives at that character. At a longer
  delimiter its first search stops at any single character of it: a piece without delimiter
  characters, one such character and as many characters as are left of the delimiter lose these
  characters, and when fewer are left the piece behind is taken past the end, which throws.
\<close>
lemma split_string:
  assumes "set u \<inter> set delim = {}" and "c \<in> set delim"
  shows "split s [d] = Some (Inr (split_char s d)) \<and>
    (length v + 1 \<le> length delim \<longrightarrow>
       split (u @ c # v) delim =
         Some (if length v + 1 = length delim then Inr [u] else Inl Out_of_range))"
proof (intro conjI impI)
  show "split s [d] = Some (Inr (split_char s d))" by (rule split_single)
next
  assume v: "length v + 1 \<le> length delim"
  then have "str_find (u @ c # v) delim (length u + length delim) = None"
    by (cases delim) (auto simp: str_find_def)
  with v show "split (u @ c # v) delim =
      Some (if length v + 1 = length delim then Inr [u] else Inl Out_of_range)"
    by (simp add: split_after_hit [OF assms] split_loop.simps substr_def)
qed

text \<open>
  \<open>end_with\<close> decides whether its second argument is a suffix. \<open>begin_with\<close> decides whether it
  is a prefix, unless it goes on behind the whole string with a null character: then it wrongly says
  yes when that is its last character, and reads past the end of the string when it is not.
\<close>
lemma begin_end_with:
  "end_with str suf = Inr (suffix suf str) \<and>
   begin_with str pre =
     (if prefix pre str then Inr True
      else if prefix (str @ [CHR 0x00]) pre
        then (if pre = str @ [CHR 0x00] then Inr True else Inl Over_read)
      else Inr False)"
proof -
  have "end_with str suf = Inr (suffix suf str)"
  proof (cases "length str < length suf")
    case True
    then show ?thesis using suffix_length_le [of suf str] by (auto simp: end_with_def)
  next
    case False
    let ?d = "drop (length str - length suf) str"
    have len: "length ?d = length suf" using False by simp
    have "\<not> prefix (?d @ [CHR 0x00]) suf" using prefix_length_le [of "?d @ [CHR 0x00]" suf] len by auto
    moreover have "prefix suf ?d \<longleftrightarrow> suffix suf str"
    proof
      assume "prefix suf ?d"
      then have "?d = suf" using len by (metis append_eq_conv_conj prefix_def take_all order_refl)
      then show "suffix suf str" by (metis suffix_drop)
    next
      assume "suffix suf str"
      then have "?d = suf" by (auto simp: suffix_def)
      then show "prefix suf ?d" by simp
    qed
    ultimately show ?thesis
      using False by (simp add: end_with_def begin_loop_drop)
  qed
  then show ?thesis by (simp add: begin_with_def begin_loop_drop)
qed

text \<open>
  The range templates return the greatest and the least element of a non-empty range and throw
  \<open>std::invalid_argument\<close> on an empty one; the variadic \<open>max\<close> and \<open>min\<close> return the greatest and
  the least of their arguments.
\<close>
lemma range_extrema:
  "range_max xs = (if xs = [] then Inl (Invalid_argument ''Range cannot be empty'') else Inr (Max (set xs))) \<and>
   range_min xs = (if xs = [] then Inl (Invalid_argument ''Range cannot be empty'') else Inr (Min (set xs))) \<and>
   lyf_max_of a b args = Max (set (a # b # args)) \<and>
   lyf_min_of a b args = Min (set (a # b # args))"
proof -
  have "range_max xs = (if xs = [] then Inl (Invalid_argument ''Range cannot be empty'') else Inr (Max (set xs)))"
    by (cases xs) (simp_all add: range_max_def range_compare_def compare_loop_max)
  moreover have "range_min xs = (if xs = [] then Inl (Invalid_argument ''Range cannot be empty'') else Inr (Min (set xs)))"
    by (cases xs) (simp_all add: range_min_def range_compare_def compare_loop_min)
  ultimately show ?thesis by (simp only: lyf_max_of_Max lyf_min_of_Min conj_absorb simp_thms)
qed

end
