(* ===== verification/Echo_Servers.thy ===== *)
theory Echo_Servers
  imports Lyf_Tools Io_Pool
begin

text \<open>
  The echo programs: the synchronous server and client of \<open>src/src/01_base\<close> and the coroutine
  server of \<open>src/main.cpp\<close>. Each reads into an array of 1024 bytes. What the socket delivers to each
  read, whether \<open>remote_endpoint\<close> throws, and how much of a \<open>write_some\<close> is taken are arguments. A
  trace of a server interleaves its accepts with what happens on its connections; its value is the
  state reached, or the end of the process.
\<close>

subsection \<open>A session\<close>


datatype base_read =
    Read_eof
  | Read_error
  | Read_some bytes bool nat   \<comment> \<open>the bytes, the peer is known, the bytes the echo gets rid of\<close>




subsection \<open>The synchronous server\<close>



datatype base_event = Accepted | Accept_failed | Round nat base_read | Main_returns









text \<open>What a client sent, as its session read it.\<close>

definition rounds :: "nat \<Rightarrow> base_event list \<Rightarrow> base_read list" where
  "rounds i es = concat (map (\<lambda>e. case e of Round j r \<Rightarrow> if j = i then [r] else [] | _ \<Rightarrow> []) es)"

subsection \<open>The synchronous client\<close>



subsection \<open>The coroutine server\<close>

text \<open>\<open>handler\<close> of \<open>main.cpp\<close>: the echo, and whether the socket is closed by the \<open>catch\<close>;
  \<open>None\<close> is a read that fails.\<close>

definition main_handler :: "bytes option \<Rightarrow> bool \<Rightarrow> bytes \<times> bool" where
  "main_handler r write_failed =
     (case r of None \<Rightarrow> ([], True)
      | Some bs \<Rightarrow> let message = string_of bs; response = bytes_of message
                  in if write_failed then ([], True) else (response, False))"

text \<open>
  An exception that leaves \<open>listener\<close> is handed to \<open>detached\<close>, which ignores it: the acceptor is
  gone and \<open>run\<close> goes on, waiting for the signal. A connection is \<open>None\<close> while its handler reads.
\<close>

record coro_server =
  co_listening :: bool
  co_conns :: "(bytes \<times> bool) option list"

datatype coro_event = Co_accept bool bool | Co_handled nat "bytes option" bool | Co_signal

definition coro_main :: "bool \<Rightarrow> coro_server" where
  "coro_main can_listen = \<lparr>co_listening = can_listen, co_conns = []\<rparr>"

definition listener_accepted :: "bool \<Rightarrow> bool \<Rightarrow> coro_server \<Rightarrow> coro_server" where
  "listener_accepted accepted peer_known s =
     (if \<not> accepted \<or> \<not> peer_known then s\<lparr>co_listening := False\<rparr>
      else s\<lparr>co_conns := co_conns s @ [None]\<rparr>)"

fun coro_enabled :: "coro_event \<Rightarrow> coro_server \<Rightarrow> bool" where
  "coro_enabled (Co_accept _ _) s = co_listening s"
| "coro_enabled (Co_handled i r _) s =
     (i < length (co_conns s) \<and> co_conns s ! i = None \<and>
      (case r of None \<Rightarrow> True | Some bs \<Rightarrow> length bs \<le> 1024))"
| "coro_enabled Co_signal s = True"

fun coro_step :: "coro_event \<Rightarrow> coro_server \<Rightarrow> process_end + coro_server" where
  "coro_step (Co_accept accepted peer_known) s = Inr (listener_accepted accepted peer_known s)"
| "coro_step (Co_handled i r write_failed) s =
     Inr (s\<lparr>co_conns := (co_conns s)[i := Some (main_handler r write_failed)]\<rparr>)"
| "coro_step Co_signal s = Inl (Exits 0)"

inductive coro_trace :: "coro_server \<Rightarrow> coro_event list \<Rightarrow> process_end + coro_server \<Rightarrow> bool" for s0 where
  start: "coro_trace s0 [] (Inr s0)"
| step: "coro_trace s0 es (Inr s) \<Longrightarrow> coro_enabled e s \<Longrightarrow> coro_trace s0 (es @ [e]) (coro_step e s)"

subsection \<open>Properties\<close>






text \<open>In a run of the server every session does what \<open>base_session\<close> does with its reads.\<close>

lemma rounds_snoc [simp]:
  "rounds i (es @ [e]) = rounds i es @ (case e of Round j r \<Rightarrow> if j = i then [r] else [] | _ \<Rightarrow> [])"
  by (simp add: rounds_def)











text \<open>
  C40: the coroutine server listens until a port that cannot be opened, a failed accept or a client
  that is gone when its address is printed, whose exception \<open>detached\<close> ignores. From then on, whatever
  happens, no client is accepted, the handlers that run still echo what they read, and the process
  goes on until a signal makes it return 0.
\<close>
theorem coro_listener_deaf:
  assumes "s = coro_main False \<or>
      (\<exists>t accepted peer_known. s = listener_accepted accepted peer_known t \<and> (\<not> accepted \<or> \<not> peer_known))"
    and "coro_trace s es r"
  shows "case r of
      Inl p \<Rightarrow> p = Exits 0 \<and> (\<exists>fs. es = fs @ [Co_signal])
    | Inr u \<Rightarrow> Co_signal \<notin> set es \<and> \<not> co_listening u \<and> length (co_conns u) = length (co_conns s) \<and>
        (\<forall>i<length (co_conns s). co_conns u ! i = co_conns s ! i \<or>
           (\<exists>bs failed. co_conns s ! i = None \<and> Co_handled i bs failed \<in> set es \<and>
              co_conns u ! i = Some (main_handler bs failed)))"
proof -
  have "\<not> co_listening s" using assms(1) by (auto simp: coro_main_def listener_accepted_def)
  with assms(2) show ?thesis
  proof (induction rule: coro_trace.induct)
    case (step es u e)
    then show ?case by (cases e) (auto simp: nth_list_update)
  qed simp
qed

theorem coro_listener_deaf_witness:
  "\<exists>r u. coro_trace (listener_accepted True False (listener_accepted True True (coro_main True)))
       [Co_handled 0 (Some [104, 105]) False, Co_signal] r \<and> r = Inl (Exits 0) \<and>
     coro_trace (listener_accepted True False (listener_accepted True True (coro_main True)))
       [Co_handled 0 (Some [104, 105]) False] (Inr u) \<and>
     \<not> co_listening u \<and> co_conns u = [Some ([104, 105], False)]"
proof -
  let ?s = "listener_accepted True False (listener_accepted True True (coro_main True))"
  let ?u = "\<lparr>co_listening = False, co_conns = [Some ([104, 105], False)]\<rparr>"
  have s: "?s = \<lparr>co_listening = False, co_conns = [None]\<rparr>" by (simp add: listener_accepted_def coro_main_def)
  have t1: "coro_trace ?s [Co_handled 0 (Some [104, 105]) False] (Inr ?u)"
    using coro_trace.step [OF coro_trace.start [of ?s], of "Co_handled 0 (Some [104, 105]) False"]
    by (simp add: s main_handler_def)
  have t2: "coro_trace ?s [Co_handled 0 (Some [104, 105]) False, Co_signal] (Inl (Exits 0))"
    using coro_trace.step [OF t1, of Co_signal] by simp
  show ?thesis
    using coro_listener_deaf [OF disjI2 t1] t1 t2 by (intro exI conjI) auto
qed

end
