(* ===== verification/Stopwatch.thy ===== *)
theory Stopwatch
  imports Net_Prelude Complex_Main
begin

text \<open>
  The stopwatch of \<open>src/include/stopwatch.h\<close>. A time point is the number of nanoseconds since the
  epoch of the system clock; every call of \<open>system_clock::now\<close> is an argument. A \<open>double\<close> is a
  rational number, an infinity or not a number: the rounding of the division is not modelled.
\<close>

subsection \<open>State and operations\<close>

datatype double = Finite rat | Infinite | NaN

record stopwatch =
  started :: bool
  stopped :: bool
  rate :: rat
  begin_time :: int
  end_time :: int
  tick :: u64

datatype TimeType = ns | us | ms | sec

fun time_type_value :: "TimeType \<Rightarrow> int" where
  "time_type_value ns = 1"
| "time_type_value us = 1000"
| "time_type_value ms = 1000000"
| "time_type_value sec = 1000000000"

text \<open>\<open>operator<<\<close> on a value of the enumeration's underlying type; it writes nothing for other values.\<close>

definition show_time_type :: "int \<Rightarrow> string" where
  "show_time_type v =
     (if v = time_type_value ns then ''ns''
      else if v = time_type_value us then ''us''
      else if v = time_type_value ms then ''ms''
      else if v = time_type_value sec then ''s''
      else '''')"

text \<open>The constructors; the members are initialised in the order of their declaration.\<close>

definition new_stopwatch :: "rat \<Rightarrow> int \<Rightarrow> int \<Rightarrow> stopwatch" where
  "new_stopwatch r now1 now2 =
     \<lparr>started = False, stopped = False, rate = r, begin_time = now1, end_time = now2, tick = 0\<rparr>"

definition new_stopwatch_of :: "TimeType \<Rightarrow> int \<Rightarrow> int \<Rightarrow> stopwatch" where
  "new_stopwatch_of type = new_stopwatch (of_int (time_type_value type))"

definition reset :: "stopwatch \<Rightarrow> stopwatch" where
  "reset w = w\<lparr>started := False, stopped := False, tick := 0\<rparr>"

definition start :: "int \<Rightarrow> stopwatch \<Rightarrow> stopwatch" where
  "start now w = (reset w)\<lparr>started := True, stopped := False, begin_time := now\<rparr>"

definition stop :: "int \<Rightarrow> stopwatch \<Rightarrow> stopwatch" where
  "stop now w =
     (if \<not> started w then w
      else w\<lparr>stopped := True, end_time := now, tick := word_of_int (now - begin_time w)\<rparr>)"

definition double_div :: "u64 \<Rightarrow> rat \<Rightarrow> double" where
  "double_div n r =
     (if r = 0 then (if n = 0 then NaN else Infinite) else Finite (of_nat (unat n) / r))"

definition duration :: "int \<Rightarrow> stopwatch \<Rightarrow> fault + double \<times> stopwatch" where
  "duration now w =
     (if \<not> started w then Inl (Runtime_error ''StopWatch::duration(): Not started yet.'')
      else let w = (if \<not> stopped w then (stop now w)\<lparr>stopped := True\<rparr> else w)
           in Inr (double_div (tick w) (rate w), w))"

text \<open>\<open>auto_stopwatch\<close>: started when it is built, and printing the duration when it is destroyed.
  How a stream prints a \<open>double\<close> is the argument \<open>show_double\<close>; the conversion of the rate to the
  enumeration truncates it.\<close>

definition auto_stopwatch :: "rat \<Rightarrow> int \<Rightarrow> int \<Rightarrow> int \<Rightarrow> stopwatch" where
  "auto_stopwatch r now1 now2 now3 = start now3 (new_stopwatch r now1 now2)"

definition auto_stopwatch_of :: "TimeType \<Rightarrow> int \<Rightarrow> int \<Rightarrow> int \<Rightarrow> stopwatch" where
  "auto_stopwatch_of type now1 now2 now3 = start now3 (new_stopwatch_of type now1 now2)"

definition truncate :: "rat \<Rightarrow> int" where
  "truncate r = (if 0 \<le> r then \<lfloor>r\<rfloor> else \<lceil>r\<rceil>)"

definition auto_stopwatch_dtor :: "(double \<Rightarrow> string) \<Rightarrow> int \<Rightarrow> stopwatch \<Rightarrow> fault + string" where
  "auto_stopwatch_dtor show_double now w =
     and_then (duration now w) (\<lambda>(d, w).
       Inr (''duration time: '' @ show_double d @ show_time_type (truncate (rate w)) @ [CHR 10]))"

subsection \<open>Properties\<close>






end
